(* ===== verification/Prelude.thy ===== *)
theory Prelude
  imports Main "HOL-Library.Word"
begin

text \<open>
  Shared vocabulary of the development: how a C++ call can end (\<open>outcome\<close>, \<open>fault\<close>),
  the fixed-width integer conversions the code performs implicitly (\<open>int32\<close>, \<open>size64\<close>),
  raw character arrays with their bounds (\<open>buf_set\<close>, \<open>c_string\<close>), and the generic facts on
  lists and on "how many threads are at program point P" that the components share.
\<close>

named_theorems text_simps "what the text in a character array is"

section \<open>Outcomes\<close>

text \<open>
  A call returns, ends the process (or the behaviour is undefined), or has not returned: a
  system call is waiting, or the scripted environment of the model is used up.
\<close>

datatype fault =
    OutOfRange          \<comment> \<open>\<open>std::out_of_range\<close>, thrown by \<open>substr\<close>\<close>
  | OutOfBounds         \<comment> \<open>an array access outside the array\<close>
  | SignedOverflow      \<comment> \<open>overflow of \<open>int\<close> arithmetic\<close>
  | BadFunctionCall     \<comment> \<open>\<open>std::bad_function_call\<close>, an empty \<open>std::function\<close>\<close>
  | UseAfterFree        \<comment> \<open>a deleted object is dereferenced\<close>
  | JsonError           \<comment> \<open>\<open>Json::Value::asInt\<close> throws\<close>
  | LengthError         \<comment> \<open>\<open>std::length_error\<close>, thrown by \<open>resize\<close>\<close>
  | AssertFailed        \<comment> \<open>\<open>assert\<close>\<close>
  | DivideByZero        \<comment> \<open>\<open>%\<close> or \<open>/\<close> by zero\<close>
  | Uninitialised       \<comment> \<open>an indeterminate value is used\<close>
  | SystemError         \<comment> \<open>\<open>std::system_error\<close>, thrown by the constructor of \<open>std::thread\<close>\<close>
  | ExitWith int        \<comment> \<open>\<open>exit(n)\<close>\<close>

datatype 'a outcome = Done 'a | Crash fault | Blocked

fun bind_out :: "'a outcome \<Rightarrow> ('a \<Rightarrow> 'b outcome) \<Rightarrow> 'b outcome" where
  "bind_out (Done x) f = f x"
| "bind_out (Crash e) f = Crash e"
| "bind_out Blocked f = Blocked"

lemma bind_out_cong [fundef_cong]:
  "m = m' \<Longrightarrow> (\<And>x. m' = Done x \<Longrightarrow> f x = g x) \<Longrightarrow> bind_out m f = bind_out m' g"
  by (cases m') auto

lemma bind_out_Done_iff [simp]:
  "bind_out m f = Done y \<longleftrightarrow> (\<exists>x. m = Done x \<and> f x = Done y)"
  by (cases m) auto

lemma bind_out_Crash_iff:
  "bind_out m f = Crash e \<longleftrightarrow> m = Crash e \<or> (\<exists>x. m = Done x \<and> f x = Crash e)"
  by (cases m) auto

lemma bind_out_Blocked_iff:
  "bind_out m f = Blocked \<longleftrightarrow> m = Blocked \<or> (\<exists>x. m = Done x \<and> f x = Blocked)"
  by (cases m) auto

lemma bind_out_assoc:
  "bind_out (bind_out m f) g = bind_out m (\<lambda>x. bind_out (f x) g)"
  by (cases m) auto

text \<open>\<open>out_all P m\<close>: whatever \<open>m\<close> returns satisfies \<open>P\<close>.\<close>

definition out_all :: "('a \<Rightarrow> bool) \<Rightarrow> 'a outcome \<Rightarrow> bool" where
  "out_all P m \<longleftrightarrow> (case m of Done x \<Rightarrow> P x | _ \<Rightarrow> True)"

lemma out_all_simps [simp]:
  "out_all P (Done x) = P x" "out_all P (Crash e)" "out_all P Blocked"
  by (simp_all add: out_all_def)

lemma out_allI: "(\<And>x. m = Done x \<Longrightarrow> P x) \<Longrightarrow> out_all P m"
  by (cases m) auto

lemma out_allD: "out_all P m \<Longrightarrow> m = Done x \<Longrightarrow> P x"
  by simp

lemma out_all_bind:
  "out_all P m \<Longrightarrow> (\<And>x. P x \<Longrightarrow> out_all Q (f x)) \<Longrightarrow> out_all Q (bind_out m f)"
  by (cases m) auto

text \<open>A loop that runs its body on each element of a list.\<close>

fun for_each :: "('i \<Rightarrow> 's \<Rightarrow> 's outcome) \<Rightarrow> 'i list \<Rightarrow> 's \<Rightarrow> 's outcome" where
  "for_each body [] s = Done s"
| "for_each body (i # is) s = bind_out (body i s) (for_each body is)"

lemma for_each_inv:
  assumes "for_each body is s = Done s'" "P s"
    and "\<And>i s s'. i \<in> set is \<Longrightarrow> P s \<Longrightarrow> body i s = Done s' \<Longrightarrow> P s'"
  shows "P s'"
  using assms
proof (induction "is" arbitrary: s)
  case Nil
  then show ?case by simp
next
  case (Cons i "is")
  then obtain s1 where s1: "body i s = Done s1" "for_each body is s1 = Done s'" by auto
  have "P s1" by (rule Cons.prems(3) [OF _ Cons.prems(2) s1(1)]) simp
  with s1(2) show ?case
  proof (rule Cons.IH)
    show "P t'" if "j \<in> set is" "P t" "body j t = Done t'" for j t t'
      by (rule Cons.prems(3) [OF _ that(2,3)]) (simp add: that(1))
  qed
qed

lemma for_each_Crash:
  assumes "for_each body is s = Crash e" "P s"
    and "\<And>i s s'. i \<in> set is \<Longrightarrow> P s \<Longrightarrow> body i s = Done s' \<Longrightarrow> P s'"
    and "\<And>i s. i \<in> set is \<Longrightarrow> P s \<Longrightarrow> body i s = Crash e \<Longrightarrow> Q"
  shows Q
  using assms
proof (induction "is" arbitrary: s)
  case Nil
  then show ?case by simp
next
  case (Cons i "is")
  from Cons.prems(1) consider "body i s = Crash e" | s1 where "body i s = Done s1" "for_each body is s1 = Crash e"
    by (auto simp: bind_out_Crash_iff)
  then show ?case
  proof cases
    case 1
    show ?thesis by (rule Cons.prems(4) [OF _ Cons.prems(2) 1]) simp
  next
    case 2
    have "P s1" by (rule Cons.prems(3) [OF _ Cons.prems(2) 2(1)]) simp
    with 2(2) show ?thesis
    proof (rule Cons.IH)
      show "P t'" if "j \<in> set is" "P t" "body j t = Done t'" for j t t'
        by (rule Cons.prems(3) [OF _ that(2,3)]) (simp add: that(1))
      show Q if "j \<in> set is" "P t" "body j t = Crash e" for j t
        by (rule Cons.prems(4) [OF _ that(2,3)]) (simp add: that(1))
    qed
  qed
qed

lemma map_out_bind: "map_outcome f (bind_out m g) = bind_out m (\<lambda>x. map_outcome f (g x))"
  by (cases m) auto

lemma for_each_append: "for_each body (xs @ ys) s = bind_out (for_each body xs s) (for_each body ys)"
  by (induction xs arbitrary: s) (auto simp: bind_out_assoc intro!: bind_out_cong)

text \<open>Two loops whose bodies correspond under \<open>f\<close>.\<close>

lemma for_each_sim:
  assumes "P s" "\<And>i s. i \<in> set is \<Longrightarrow> P s \<Longrightarrow> map_outcome f (body i s) = body' i (f s)"
    and "\<And>i s. i \<in> set is \<Longrightarrow> P s \<Longrightarrow> out_all P (body i s)"
  shows "map_outcome f (for_each body is s) = for_each body' is (f s)"
  using assms
proof (induction "is" arbitrary: s)
  case Nil
  then show ?case by simp
next
  case (Cons i "is")
  have "body' i (f s) = map_outcome f (body i s)" "out_all P (body i s)"
    using Cons.prems(2) [OF _ Cons.prems(1), of i] Cons.prems(3) [OF _ Cons.prems(1), of i] by simp_all
  moreover have "map_outcome f (for_each body is s1) = for_each body' is (f s1)" if "P s1" for s1
    using that by (rule Cons.IH) (simp_all add: Cons.prems(2,3))
  ultimately show ?case by (cases "body i s") simp_all
qed

text \<open>A loop ends with a fault exactly if some iteration does.\<close>

lemma for_each_Crash_iff:
  "for_each body is s = Crash e \<longleftrightarrow>
   (\<exists>xs i ys s1. is = xs @ i # ys \<and> for_each body xs s = Done s1 \<and> body i s1 = Crash e)"
proof (induction "is" arbitrary: s)
  case Nil
  then show ?case by simp
next
  case (Cons j "is")
  show ?case
  proof
    assume c: "for_each body (j # is) s = Crash e"
    show "\<exists>xs i ys s1. j # is = xs @ i # ys \<and> for_each body xs s = Done s1 \<and> body i s1 = Crash e"
    proof (cases "body j s")
      case (Done s1)
      with c Cons.IH [of s1] obtain xs i ys s2
        where "is = xs @ i # ys" "for_each body xs s1 = Done s2" "body i s2 = Crash e" by auto
      with Done show ?thesis by (intro exI [of _ "j # xs"]) auto
    next
      case (Crash e')
      with c show ?thesis by (intro exI [of _ "[]"]) auto
    next
      case Blocked
      with c show ?thesis by simp
    qed
  next
    assume "\<exists>xs i ys s1. j # is = xs @ i # ys \<and> for_each body xs s = Done s1 \<and> body i s1 = Crash e"
    then obtain xs i ys s1 where h: "j # is = xs @ i # ys" "for_each body xs s = Done s1" "body i s1 = Crash e"
      by blast
    show "for_each body (j # is) s = Crash e" unfolding h(1) for_each_append using h(2,3) by simp
  qed
qed

section \<open>Streams cut in two ways\<close>

lemma append_eq_long:
  assumes "xs @ ys = u @ v" "length u \<le> length xs"
  shows "xs = u @ drop (length u) xs" "drop (length u) xs @ ys = v"
proof -
  obtain t where "xs = u @ t" "t @ ys = v"
    using assms by (metis append_eq_append_conv2 append_Nil2 append_eq_conv_conj le_antisym length_append le_add1 take_all)
  then show "xs = u @ drop (length u) xs" "drop (length u) xs @ ys = v" by simp_all
qed

lemma append_eq_short:
  assumes "xs @ ys = u @ v" "length xs < length u"
  shows "\<exists>t. u = xs @ t \<and> t \<noteq> []"
proof -
  have "xs = take (length xs) u" using assms by (metis append_eq_conv_conj less_or_eq_imp_le take_append take_all diff_is_0_eq' take0 append_Nil2)
  then have "u = xs @ drop (length xs) u" by (metis append_take_drop_id)
  then show ?thesis using assms(2) by (intro exI [of _ "drop (length xs) u"]) auto
qed

section \<open>Machine integers\<close>

text \<open>
  Values are mathematical integers; a conversion to a narrower type is written where the
  code performs it. \<open>int32\<close> is a conversion to \<open>int\<close>, \<open>size64\<close> to \<open>size_t\<close>, \<open>uint16\<close> to
  \<open>uint16_t\<close>; all three go through the words of HOL-Library.
\<close>

definition int32 :: "int \<Rightarrow> int" where
  "int32 k = sint (word_of_int k :: 32 word)"

definition size64 :: "int \<Rightarrow> int" where
  "size64 k = uint (word_of_int k :: 64 word)"

definition uint16 :: "int \<Rightarrow> int" where
  "uint16 k = uint (word_of_int k :: 16 word)"

definition fits_int :: "int \<Rightarrow> bool" where
  "fits_int k \<longleftrightarrow> - (2 ^ 31) \<le> k \<and> k < 2 ^ 31"

lemma int32_signed_take_bit: "int32 k = signed_take_bit 31 k"
  by (simp add: int32_def sint_sbintrunc')

lemma size64_mod: "size64 k = k mod 2 ^ 64"
  by (simp add: size64_def uint_word_of_int)

lemma uint16_mod: "uint16 k = k mod 2 ^ 16"
  by (simp add: uint16_def uint_word_of_int)

lemma int32_id: "fits_int k \<Longrightarrow> int32 k = k"
  by (simp add: fits_int_def int32_signed_take_bit signed_take_bit_int_eq_self_iff)

lemma fits_int32 [simp]: "fits_int (int32 k)"
  using signed_take_bit_int_less_exp [of 31 k]
    signed_take_bit_int_greater_eq_minus_exp [of 31 k]
  by (simp add: fits_int_def int32_signed_take_bit)

lemma size64_id: "0 \<le> k \<Longrightarrow> k < 2 ^ 64 \<Longrightarrow> size64 k = k"
  by (simp add: size64_mod)

lemma size64_nonneg [simp]: "0 \<le> size64 k"
  by (simp add: size64_mod)

lemma size64_neg: "k < 0 \<Longrightarrow> fits_int k \<Longrightarrow> size64 k = k + 2 ^ 64"
proof -
  assume "k < 0" "fits_int k"
  then have "(k + 2 ^ 64) mod 2 ^ 64 = k + 2 ^ 64"
    by (intro mod_pos_pos_trivial) (auto simp: fits_int_def)
  then show ?thesis by (simp add: size64_mod)
qed

section \<open>Character arrays\<close>

text \<open>
  A \<open>char buffer[N]\<close> is the list of its \<open>N\<close> bytes. A write outside it and the use of an
  array without a terminating zero as a C string are faults.
\<close>

definition NUL :: char where "NUL = CHR 0x00"

definition c_str :: "string \<Rightarrow> string" where
  "c_str s = takeWhile (\<lambda>c. c \<noteq> NUL) s"

definition buf_set :: "string \<Rightarrow> int \<Rightarrow> char \<Rightarrow> string outcome" where
  "buf_set buf i c =
     (if 0 \<le> i \<and> i < int (length buf) then Done (buf[nat i := c]) else Crash OutOfBounds)"

definition c_string :: "string \<Rightarrow> string outcome" where
  "c_string buf = (if NUL \<in> set buf then Done (c_str buf) else Crash OutOfBounds)"

text \<open>\<open>read\<close> and \<open>recv\<close> overwrite the front of the array and leave its rest.\<close>

definition recv_into :: "string \<Rightarrow> string \<Rightarrow> string" where
  "recv_into buf data = data @ drop (length data) buf"

lemma length_recv_into [simp]:
  "length data \<le> length buf \<Longrightarrow> length (recv_into buf data) = length buf"
  by (simp add: recv_into_def)

lemma takeWhile_append_stop: "\<not> P x \<Longrightarrow> takeWhile P (xs @ x # ys) = takeWhile P xs"
  by (induction xs) auto

lemma c_str_stop [text_simps]: "c_str (s @ NUL # t) = c_str s"
  by (simp add: c_str_def takeWhile_append_stop)

lemma c_str_id [text_simps]: "NUL \<notin> set s \<Longrightarrow> c_str s = s"
  by (auto simp: c_str_def takeWhile_eq_all_conv)

lemma NUL_notin_c_str [simp]: "NUL \<notin> set (c_str s)"
  by (auto simp: c_str_def dest: set_takeWhileD)

lemma terminated_recv:
  assumes "length data < length buf"
  shows "buf_set (recv_into buf data) (int (length data)) NUL
     = Done (data @ NUL # drop (Suc (length data)) buf)"
proof -
  from assms have "drop (length data) buf = buf ! length data # drop (Suc (length data)) buf"
    by (simp add: Cons_nth_drop_Suc)
  with assms show ?thesis by (simp add: buf_set_def recv_into_def)
qed

lemma terminated_recv_c_string:
  "length data < length buf \<Longrightarrow>
   bind_out (buf_set (recv_into buf data) (int (length data)) NUL) c_string = Done (c_str data)"
  by (simp only: terminated_recv) (simp add: c_string_def c_str_stop)

lemma full_recv_overflow:
  "length data = length buf \<Longrightarrow>
   buf_set (recv_into buf data) (int (length data)) NUL = Crash OutOfBounds"
  by (simp add: buf_set_def recv_into_def)

section \<open>Counting threads\<close>

text \<open>
  The concurrent components keep a program counter per thread. Their invariants count the
  threads at some program points; one thread moves at a time.
\<close>

definition at_pc :: "('t \<Rightarrow> 'p) \<Rightarrow> ('p \<Rightarrow> bool) \<Rightarrow> nat" where
  "at_pc f P = card {t. P (f t)}"

lemma at_pc_update:
  assumes "finite {t. P (f t)}"
  shows "at_pc (f(t := v)) P + (if P (f t) then 1 else 0) = at_pc f P + (if P v then 1 else 0)"
proof -
  have eq: "{u. P ((f(t := v)) u)} = (if P v then insert t ({u. P (f u)} - {t}) else {u. P (f u)} - {t})"
    by auto
  have "P (f t) \<Longrightarrow> 0 < card {u. P (f u)}"
    using assms by (auto simp: card_gt_0_iff)
  then have "card ({u. P (f u)} - {t}) + (if P (f t) then 1 else 0) = card {u. P (f u)}"
    by (cases "P (f t)") auto
  moreover have "card {u. P ((f(t := v)) u)} = card ({u. P (f u)} - {t}) + (if P v then 1 else 0)"
    unfolding eq using assms by (cases "P v") (simp_all add: card.insert_remove del: insert_Diff_single)
  ultimately show ?thesis by (simp add: at_pc_def)
qed

lemma finite_pc_update:
  "finite {t. P (f t)} \<Longrightarrow> finite {u. P ((f(t := v)) u)}"
  by (rule finite_subset [of _ "insert t {t. P (f t)}"]) auto

lemma at_pc_pos: "finite {t. P (f t)} \<Longrightarrow> P (f t) \<Longrightarrow> 0 < at_pc f P"
  by (auto simp: at_pc_def card_gt_0_iff)

lemma at_pc_move:
  "finite {t. P (f t)} \<Longrightarrow>
   at_pc (f(t := v)) P = at_pc f P + (if P v then 1 else 0) - (if P (f t) then 1 else 0)"
  using at_pc_update [of P f t v] by simp

lemma at_pc_zero: "(\<And>t. \<not> P (f t)) \<Longrightarrow> at_pc f P = 0"
  by (simp add: at_pc_def)

end
