(* ===== verification/CppString.thy ===== *)
theory CppString
  imports Prelude "HOL-Library.Sublist"
begin

text \<open>
  The operations of \<open>std::string\<close> and of the C library on strings that the programs use:
  \<open>find\<close>, \<open>rfind\<close>, \<open>substr\<close>, \<open>erase\<close>, \<open>std::to_string\<close>, \<open>atoi\<close>, with the facts about
  decimal numbers and separators that the protocols rest on. A string is a list of bytes.
\<close>

section \<open>Searching\<close>

text \<open>\<open>find_sub pat s\<close> is the first index at which \<open>pat\<close> occurs in \<open>s\<close>.\<close>

fun find_sub :: "string \<Rightarrow> string \<Rightarrow> nat option" where
  "find_sub pat [] = (if pat = [] then Some 0 else None)"
| "find_sub pat (c # s) =
     (if prefix pat (c # s) then Some 0 else map_option Suc (find_sub pat s))"

text \<open>\<open>s.find(pat, start)\<close>; \<open>None\<close> is \<open>npos\<close>.\<close>

definition str_find :: "string \<Rightarrow> string \<Rightarrow> nat \<Rightarrow> nat option" where
  "str_find s pat start =
     (if start \<le> length s then map_option ((+) start) (find_sub pat (drop start s)) else None)"

text \<open>\<open>s.rfind(c)\<close> for a single character: the last index of \<open>c\<close>.\<close>

definition str_rfind :: "string \<Rightarrow> char \<Rightarrow> nat option" where
  "str_rfind s c =
     (if c \<in> set s then Some (length s - Suc (length (takeWhile (\<lambda>d. d \<noteq> c) (rev s)))) else None)"

text \<open>\<open>s.substr(pos, len)\<close> throws when \<open>pos\<close> is past the end and clips \<open>len\<close>.\<close>

definition substr :: "string \<Rightarrow> int \<Rightarrow> int \<Rightarrow> string outcome" where
  "substr s pos len =
     (if int (length s) < size64 pos then Crash OutOfRange
      else Done (take (nat (size64 len)) (drop (nat (size64 pos)) s)))"

lemma find_sub_SomeD:
  "find_sub pat s = Some i \<Longrightarrow> i + length pat \<le> length s \<and> take (length pat) (drop i s) = pat"
proof (induction pat s arbitrary: i rule: find_sub.induct)
  case (1 pat)
  then show ?case by (auto split: if_splits)
next
  case (2 pat c s)
  show ?case
  proof (cases "prefix pat (c # s)")
    case True
    with "2.prems" have "i = 0" by (simp split: if_splits)
    moreover from True obtain t where "c # s = pat @ t" by (auto simp: prefix_def)
    then have "length pat \<le> length (c # s) \<and> take (length pat) (c # s) = pat" by simp
    ultimately show ?thesis by simp
  next
    case False
    with 2 show ?thesis by auto
  qed
qed

lemma find_sub_bound: "find_sub pat s = Some i \<Longrightarrow> i + length pat \<le> length s"
  by (simp add: find_sub_SomeD)

lemma prefix_append_short:
  "length pat \<le> length s \<Longrightarrow> prefix pat (s @ t) \<longleftrightarrow> prefix pat s"
  by (metis length_append_singleton linorder_not_less prefix_append prefix_length_le
      append_prefixD prefix_length_prefix prefixI order_trans)

lemma find_sub_append:
  "find_sub pat s = Some i \<Longrightarrow> find_sub pat (s @ t) = Some i"
proof (induction s arbitrary: i)
  case Nil
  then show ?case by (cases t) (auto split: if_splits)
next
  case (Cons c s)
  show ?case
  proof (cases "prefix pat (c # s)")
    case True
    with Cons.prems have "i = 0" by (simp split: if_splits)
    moreover have "prefix pat ((c # s) @ t)" using True by (rule prefix_prefix)
    ultimately show ?thesis by simp
  next
    case False
    with Cons.prems obtain j where j: "find_sub pat s = Some j" "i = Suc j" by auto
    from find_sub_bound [OF j(1)] have "length pat \<le> length (c # s)" by simp
    with False have "\<not> prefix pat ((c # s) @ t)" by (subst prefix_append_short) auto
    with j Cons.IH show ?thesis by simp
  qed
qed

text \<open>A separator is found right after a text that does not hold its first character.\<close>

lemma find_sub_skip:
  assumes "c \<notin> set ds"
  shows "find_sub (c # p) (ds @ (c # p) @ t) = Some (length ds)"
  using assms
proof (induction ds)
  case Nil
  then show ?case by (simp add: prefixI)
next
  case (Cons d ds)
  then show ?case by auto
qed

lemma find_sub_None_notin: "c \<notin> set s \<Longrightarrow> find_sub (c # p) s = None"
  by (induction s) auto

lemma str_find_0: "str_find s pat 0 = find_sub pat s"
  by (simp add: str_find_def option.map_ident_strong)

lemma str_find_SomeD:
  assumes "str_find s pat start = Some i"
  shows "start \<le> i \<and> i + length pat \<le> length s \<and> take (length pat) (drop i s) = pat"
proof -
  from assms obtain j where j: "start \<le> length s" "find_sub pat (drop start s) = Some j" "i = start + j"
    by (auto simp: str_find_def split: if_splits)
  from find_sub_SomeD [OF j(2)] have "j + length pat \<le> length s - start"
    "take (length pat) (drop (start + j) s) = pat" by (simp_all add: add.commute)
  with j(1,3) show ?thesis by simp
qed

lemma substr_ok:
  "0 \<le> pos \<Longrightarrow> pos \<le> int (length s) \<Longrightarrow> pos < 2 ^ 64 \<Longrightarrow> 0 \<le> len \<Longrightarrow> len < 2 ^ 64 \<Longrightarrow>
   substr s pos len = Done (take (nat len) (drop (nat pos) s))"
  by (simp add: substr_def size64_id)

section \<open>Decimal numbers\<close>

definition is_digit :: "char \<Rightarrow> bool" where
  "is_digit c \<longleftrightarrow> 48 \<le> (of_char c :: nat) \<and> (of_char c :: nat) \<le> 57"

definition digit_val :: "char \<Rightarrow> nat" where
  "digit_val c = of_char c - 48"

definition digit_char :: "nat \<Rightarrow> char" where
  "digit_char d = char_of (48 + d)"

definition is_space :: "char \<Rightarrow> bool" where
  "is_space c \<longleftrightarrow> (of_char c :: nat) = 32 \<or> 9 \<le> (of_char c :: nat) \<and> (of_char c :: nat) \<le> 13"

fun digits_of :: "nat \<Rightarrow> string" where
  "digits_of n = (if n < 10 then [digit_char n] else digits_of (n div 10) @ [digit_char (n mod 10)])"

declare digits_of.simps [simp del]

text \<open>\<open>std::to_string(int)\<close>.\<close>

definition to_string :: "int \<Rightarrow> string" where
  "to_string i = (if i < 0 then CHR ''-'' # digits_of (nat (- i)) else digits_of (nat i))"

fun read_digits :: "nat \<Rightarrow> string \<Rightarrow> nat" where
  "read_digits acc [] = acc"
| "read_digits acc (c # s) = (if is_digit c then read_digits (10 * acc + digit_val c) s else acc)"

text \<open>
  \<open>atoi\<close> as the C library computes it: white space is skipped, a sign read, the digits
  converted by \<open>strtol\<close> (which saturates at the range of \<open>long\<close>) and the result converted to
  \<open>int\<close>.
\<close>

definition strtol :: "string \<Rightarrow> int" where
  "strtol s =
     (let s' = dropWhile is_space s;
          v = (case s' of [] \<Rightarrow> 0
               | c # ds \<Rightarrow> if c = CHR ''-'' then - int (read_digits 0 ds)
                         else if c = CHR ''+'' then int (read_digits 0 ds)
                         else int (read_digits 0 s'))
      in max (- (2 ^ 63)) (min (2 ^ 63 - 1) v))"

definition atoi :: "string \<Rightarrow> int" where
  "atoi s = int32 (strtol (c_str s))"

lemma of_char_digit_char [simp]: "d < 10 \<Longrightarrow> of_char (digit_char d) = 48 + d"
  by (simp add: digit_char_def)

lemma is_digit_digit_char [simp]: "d < 10 \<Longrightarrow> is_digit (digit_char d)"
  by (simp add: is_digit_def)

lemma digit_val_digit_char [simp]: "d < 10 \<Longrightarrow> digit_val (digit_char d) = d"
  by (simp add: digit_val_def)

lemma digits_of_digits: "c \<in> set (digits_of n) \<Longrightarrow> is_digit c"
proof (induction n rule: digits_of.induct)
  case (1 n)
  show ?case
  proof (cases "n < 10")
    case True
    with "1.prems" show ?thesis by (simp add: digits_of.simps [of n])
  next
    case False
    with 1 show ?thesis by (auto simp: digits_of.simps [of n])
  qed
qed

lemma digits_of_ne [simp]: "digits_of n \<noteq> []"
  by (subst digits_of.simps) simp

lemma read_digits_append:
  "(\<And>c. c \<in> set ds \<Longrightarrow> is_digit c) \<Longrightarrow>
   read_digits acc (ds @ rest) = read_digits (read_digits acc ds) rest"
  by (induction ds arbitrary: acc) auto

lemma read_digits_of: "read_digits 0 (digits_of n) = n"
proof (induction n rule: digits_of.induct)
  case (1 n)
  show ?case
  proof (cases "n < 10")
    case True
    then show ?thesis by (simp add: digits_of.simps [of n])
  next
    case False
    have "read_digits 0 (digits_of (n div 10) @ [digit_char (n mod 10)])
        = read_digits (read_digits 0 (digits_of (n div 10))) [digit_char (n mod 10)]"
      by (rule read_digits_append) (rule digits_of_digits)
    also have "\<dots> = n" using False 1 by simp
    finally show ?thesis using False by (simp add: digits_of.simps [of n])
  qed
qed

lemma read_digits_stop:
  "(rest = [] \<or> \<not> is_digit (hd rest)) \<Longrightarrow> read_digits acc rest = acc"
  by (cases rest) auto

lemma is_digit_not [simp]:
  "is_digit c \<Longrightarrow> \<not> is_space c" "is_digit c \<Longrightarrow> c \<noteq> CHR ''-''" "is_digit c \<Longrightarrow> c \<noteq> CHR ''+''"
  "is_digit c \<Longrightarrow> c \<noteq> NUL" "is_digit c \<Longrightarrow> c \<noteq> CHR 0x0D" "is_digit c \<Longrightarrow> c \<noteq> CHR 0x20"
  by (auto simp: is_digit_def is_space_def NUL_def)

lemma is_digit_special [simp]:
  "\<not> is_digit NUL" "\<not> is_digit (CHR 0x0D)" "\<not> is_digit (CHR 0x20)" "\<not> is_digit (CHR ''-'')"
  by (simp_all add: is_digit_def NUL_def)

lemma digits_of_no_NUL [simp]: "NUL \<notin> set (digits_of n)"
  using digits_of_digits [of NUL n] by auto

lemma digits_of_Cons: obtains c ds where "digits_of n = c # ds" "is_digit c"
  using digits_of_ne [of n] digits_of_digits [of _ n]
  by (metis list.exhaust list.set_intros(1))

lemma strtol_digits:
  assumes "int n < 2 ^ 63" and stop: "rest = [] \<or> \<not> is_digit (hd rest)"
  shows "strtol (digits_of n @ rest) = int n"
    and "strtol (CHR ''-'' # digits_of n @ rest) = - int n"
proof -
  have rd: "read_digits 0 (digits_of n @ rest) = n"
    using stop by (simp add: read_digits_append digits_of_digits read_digits_of read_digits_stop)
  obtain c ds where c: "digits_of n = c # ds" "is_digit c" by (rule digits_of_Cons)
  from c rd assms(1) show "strtol (digits_of n @ rest) = int n"
    by (simp add: strtol_def Let_def)
  have "\<not> is_space (CHR ''-'')" by (simp add: is_space_def)
  with rd assms(1) show "strtol (CHR ''-'' # digits_of n @ rest) = - int n"
    by (simp add: strtol_def Let_def)
qed

lemma digits_of_c_str [simp]: "c_str (digits_of n) = digits_of n"
  by (rule c_str_id) simp

lemma c_str_append [text_simps]: "NUL \<notin> set s \<Longrightarrow> c_str (s @ t) = s @ c_str t"
  by (auto simp: c_str_def takeWhile_append)

lemma to_string_no_NUL [simp]: "NUL \<notin> set (to_string i)"
  by (auto simp: to_string_def NUL_def digits_of_no_NUL [unfolded NUL_def])

lemma atoi_digits_of: "int n < 2 ^ 31 \<Longrightarrow> atoi (digits_of n) = int n"
  using strtol_digits(1) [of n "[]"] by (simp add: atoi_def int32_id fits_int_def)

text \<open>\<open>atoi\<close> reads back what \<open>to_string\<close> writes.\<close>

lemma atoi_to_string:
  assumes "fits_int i"
  shows "atoi (to_string i) = i"
proof (cases "i < 0")
  case True
  have "c_str (CHR ''-'' # digits_of (nat (- i))) = CHR ''-'' # digits_of (nat (- i))"
    by (rule c_str_id) (auto simp: NUL_def digits_of_no_NUL [unfolded NUL_def])
  with True assms strtol_digits(2) [of "nat (- i)" "[]"] show ?thesis
    by (simp add: atoi_def to_string_def int32_id fits_int_def)
next
  case False
  with assms show ?thesis
    using atoi_digits_of [of "nat i"] by (simp add: to_string_def fits_int_def)
qed

lemma to_string_ne [simp]: "to_string i \<noteq> []"
  by (simp add: to_string_def)

lemma to_string_chars: "c \<in> set (to_string i) \<Longrightarrow> is_digit c \<or> c = CHR ''-''"
  by (auto simp: to_string_def dest: digits_of_digits split: if_splits)

lemma to_string_no_space [simp]: "CHR 0x20 \<notin> set (to_string i)"
  using to_string_chars [of "CHR 0x20" i] by auto

lemma digits_of_no_CR [simp]: "CHR 0x0D \<notin> set (digits_of n)"
  using digits_of_digits [of "CHR 0x0D" n] by auto

lemma length_digits_of_bound: "length (digits_of n) \<le> Suc n"
proof (induction n rule: digits_of.induct)
  case (1 n)
  show ?case
  proof (cases "n < 10")
    case True
    then show ?thesis by (simp add: digits_of.simps [of n])
  next
    case False
    with 1 have "length (digits_of (n div 10)) \<le> Suc (n div 10)" by simp
    with False show ?thesis by (simp add: digits_of.simps [of n])
  qed
qed

lemma length_digits_of: "n < 10 ^ k \<Longrightarrow> 0 < k \<Longrightarrow> length (digits_of n) \<le> k"
proof (induction k arbitrary: n)
  case 0
  then show ?case by simp
next
  case (Suc k)
  show ?case
  proof (cases "n < 10")
    case True
    then show ?thesis by (simp add: digits_of.simps [of n])
  next
    case False
    with Suc.prems have "n div 10 < 10 ^ k" by (simp add: less_mult_imp_div_less mult.commute)
    moreover have "0 < k" using False Suc.prems by (cases k) auto
    ultimately have "length (digits_of (n div 10)) \<le> k" by (rule Suc.IH)
    with False show ?thesis by (simp add: digits_of.simps [of n])
  qed
qed

end
