(* ===== verification/Framing.thy ===== *)
theory Framing
  imports Prelude
begin

text \<open>
  The interface between a byte stream and the requests in it: a decoder takes one frame off
  the front of a receive buffer or reports that none is complete. \<open>drain\<close> is the loop every
  server of the repository wraps around its decoder, \<open>feed\<close> runs it after every chunk that
  arrives. The locale states what a frame format promises; the two protocol headers provide it.
\<close>

text \<open>
  A decoder returns the payload, if a frame is complete, and the buffer it leaves. The loop
  returns the payloads it took and the buffer that is left; it need not end.
\<close>

partial_function (option) drain ::
  "('a list \<Rightarrow> 'p option \<times> 'a list) \<Rightarrow> 'a list \<Rightarrow> ('p list \<times> 'a list) option" where
  "drain dec buf =
     (case dec buf of
        (None, r) \<Rightarrow> Some ([], r)
      | (Some p, r) \<Rightarrow>
          Option.bind (drain dec r) (\<lambda>(ps, r'). Some (p # ps, r')))"

fun feed ::
  "('a list \<Rightarrow> 'p option \<times> 'a list) \<Rightarrow> 'a list \<Rightarrow> 'a list list \<Rightarrow> ('p list \<times> 'a list) option" where
  "feed dec buf [] = Some ([], buf)"
| "feed dec buf (c # cs) =
     (case drain dec (buf @ c) of
        None \<Rightarrow> None
      | Some (ps, r) \<Rightarrow>
          (case feed dec r cs of None \<Rightarrow> None | Some (qs, r') \<Rightarrow> Some (ps @ qs, r')))"

text \<open>
  The contract: an encoded payload at the front of the buffer is taken off exactly, and a
  proper part of one is left alone until the rest of it arrives. \<open>ok\<close> says which payloads the
  format can carry.
\<close>

locale framing =
  fixes enc :: "'p \<Rightarrow> 'a list"
    and dec :: "'a list \<Rightarrow> 'p option \<times> 'a list"
    and ok :: "'p \<Rightarrow> bool"
  assumes enc_nonempty: "ok p \<Longrightarrow> enc p \<noteq> []"
    and dec_enc: "ok p \<Longrightarrow> dec (enc p @ rest) = (Some p, rest)"
    and dec_part: "ok p \<Longrightarrow> enc p = b @ c \<Longrightarrow> c \<noteq> [] \<Longrightarrow> dec b = (None, b)"
    and dec_nil: "dec [] = (None, [])"
begin

lemma drain_frames:
  assumes "list_all ok ps" and tail: "drain dec b = Some (qs, r)"
  shows "drain dec (concat (map enc ps) @ b) = Some (ps @ qs, r)"
  using assms(1)
proof (induction ps)
  case Nil
  then show ?case by (simp add: tail)
next
  case (Cons p ps)
  then show ?case
    by (simp add: drain.simps [of dec "enc p @ _"] dec_enc)
qed

text \<open>What is left of the stream starts inside the first frame that is not yet complete.\<close>

lemma split_stream:
  assumes "list_all ok ps" "x @ y = concat (map enc ps)"
  obtains ps1 ps2 b where "ps = ps1 @ ps2" "x = concat (map enc ps1) @ b"
    "b @ y = concat (map enc ps2)"
    "(ps2 = [] \<and> b = []) \<or> (\<exists>p ps3 c. ps2 = p # ps3 \<and> enc p = b @ c \<and> c \<noteq> [])"
  using assms
proof (induction ps arbitrary: x thesis)
  case Nil
  then show ?case by simp
next
  case (Cons p ps)
  show ?case
  proof (cases "\<exists>c. c \<noteq> [] \<and> enc p = x @ c")
    case True
    with Cons.prems(1) [of "[]" "p # ps" x] Cons.prems(3) show ?thesis by auto
  next
    case False
    from Cons.prems(3) have "x @ y = enc p @ concat (map enc ps)" by simp
    then obtain us where us: "x = enc p @ us \<and> us @ y = concat (map enc ps) \<or> x @ us = enc p \<and> y = us @ concat (map enc ps)"
      by (auto simp: append_eq_append_conv2)
    with False have "\<exists>x'. x = enc p @ x' \<and> x' @ y = concat (map enc ps)"
      by (cases "us = []") auto
    then obtain x' where x: "x = enc p @ x'" and rest: "x' @ y = concat (map enc ps)" by blast
    from Cons.prems(2) have ok: "list_all ok ps" by simp
    from Cons.IH [OF _ ok rest] obtain ps1 ps2 b where
      "ps = ps1 @ ps2" "x' = concat (map enc ps1) @ b" "b @ y = concat (map enc ps2)"
      "(ps2 = [] \<and> b = []) \<or> (\<exists>p ps3 c. ps2 = p # ps3 \<and> enc p = b @ c \<and> c \<noteq> [])"
      by blast
    with Cons.prems(1) [of "p # ps1" ps2 b] x show ?thesis by simp
  qed
qed

lemma drain_prefix:
  assumes "list_all ok (p # ps3)" "enc p = b @ c" "c \<noteq> []"
  shows "drain dec b = Some ([], b)"
  using assms dec_part [of p b c] by (simp add: drain.simps [of dec b])

lemma drain_nil: "drain dec [] = Some ([], [])"
  by (simp add: drain.simps [of dec "[]"] dec_nil)

lemma feed_rest:
  assumes "list_all ok ps" "b @ concat cs = concat (map enc ps)"
    and "(ps = [] \<and> b = []) \<or> (\<exists>p ps' c. ps = p # ps' \<and> enc p = b @ c \<and> c \<noteq> [])"
  shows "feed dec b cs = Some (ps, [])"
  using assms
proof (induction cs arbitrary: b ps)
  case Nil
  have False if "ps = p # ps'" "enc p = b @ c" "c \<noteq> []" for p ps' c
  proof -
    from that Nil.prems(2) have "length b = length b + length c + length (concat (map enc ps'))"
      by (metis append_Nil2 concat.simps(1) concat.simps(2) length_append list.simps(9))
    with that(3) show False by simp
  qed
  with Nil.prems(3) have "ps = []" "b = []" by blast+
  then show ?case by simp
next
  case (Cons ch cs)
  from Cons.prems(2) have "(b @ ch) @ concat cs = concat (map enc ps)" by simp
  with Cons.prems(1) obtain ps1 ps2 b' where s:
    "ps = ps1 @ ps2" "b @ ch = concat (map enc ps1) @ b'" "b' @ concat cs = concat (map enc ps2)"
    "(ps2 = [] \<and> b' = []) \<or> (\<exists>p ps3 c. ps2 = p # ps3 \<and> enc p = b' @ c \<and> c \<noteq> [])"
    by (rule split_stream)
  from Cons.prems(1) s(1) have oks: "list_all ok ps1" "list_all ok ps2" by simp_all
  from s(4) oks(2) have "drain dec b' = Some ([], b')"
    by (auto simp: drain_nil intro: drain_prefix)
  with oks(1) have "drain dec (b @ ch) = Some (ps1, b')"
    using drain_frames [of ps1 b' "[]" b'] by (simp add: s(2))
  moreover have "feed dec b' cs = Some (ps2, [])"
    using oks(2) s(3,4) by (rule Cons.IH)
  ultimately show ?case by (simp add: s(1))
qed

text \<open>
  However the network cuts the stream of frames into chunks, the loop takes exactly the
  payloads that were sent, in order, and leaves nothing in the buffer.
\<close>

lemma feed_segmentation:
  assumes "list_all ok ps" "concat cs = concat (map enc ps)"
  shows "feed dec [] cs = Some (ps, [])"
proof (rule feed_rest)
  show "(ps = [] \<and> [] = []) \<or> (\<exists>p ps' c. ps = p # ps' \<and> enc p = [] @ c \<and> c \<noteq> [])"
    using assms(1) enc_nonempty by (cases ps) auto
qed (use assms in auto)

end

end
