(* ===== verification/Protocol.thy ===== *)
theory Protocol
  imports CppString Framing
begin

text \<open>
  The message protocol of the calculator services: \<open>protocol.hpp\<close> of \<open>7.20/netCalculator\<close> and
  of \<open>8.11/epollServer.2\<close>, with \<open>functionSet.hpp\<close> and \<open>utility.hpp\<close>. A message is a decimal
  length, CRLF, the payload and CRLF. The payload of a request or response is JSON, written
  and read by jsoncpp, which is a parameter (\<open>json_lib\<close>), or, under \<open>MYPROTOCOL\<close>, text with
  the fields separated by a space.
\<close>

section \<open>Splitting and numbers\<close>

definition SEP :: string where "SEP = [CHR 0x20]"
definition HEAD_SEP :: string where "HEAD_SEP = [CHR 0x0D, CHR 0x0A]"
definition HEAD_LEN :: int where "HEAD_LEN = 2"

definition toInt :: "string \<Rightarrow> int" where
  "toInt str = atoi str"

text \<open>
  The loop of \<open>splitstrings\<close>; an empty separator makes it run forever, so it need not return.
\<close>

partial_function (option) split_loop ::
  "string \<Rightarrow> string \<Rightarrow> nat \<Rightarrow> string list \<Rightarrow> string list option" where
  "split_loop str sep start result =
     (if start < length str then
        (case str_find str sep start of
           None \<Rightarrow> Some (result @ [drop start str])
         | Some pos \<Rightarrow>
             split_loop str sep (pos + length sep) (result @ [take (pos - start) (drop start str)]))
      else Some result)"

definition splitstrings :: "string \<Rightarrow> string \<Rightarrow> string list \<Rightarrow> string list option" where
  "splitstrings str sep result = split_loop str sep 0 result"

section \<open>Frames\<close>

text \<open>
  \<open>readPackage\<close> of the epoll server: the return value, the package and the buffer that is left.
  The return value is the payload length; 0 and below mean "nothing taken" to the caller.
\<close>

definition readPackage :: "string \<Rightarrow> int \<times> string \<times> string" where
  "readPackage inbuffer =
     (case str_find inbuffer HEAD_SEP 0 of
        None \<Rightarrow> (0, [], inbuffer)
      | Some pos \<Rightarrow>
          (let len_str = take pos inbuffer;
               len_payload = toInt len_str;
               len_targetPackage =
                 int32 (size64 (size64 len_payload + int (length len_str) + HEAD_LEN * 2))
           in if size64 len_targetPackage > int (length inbuffer) then (0, [], inbuffer)
              else (len_payload,
                    take (nat (size64 len_targetPackage)) inbuffer,
                    drop (nat (size64 len_targetPackage)) inbuffer)))"

definition removeHeader :: "string \<Rightarrow> int \<Rightarrow> string outcome" where
  "removeHeader package len =
     (let n = int32 (int (length package))
      in if fits_int (n - len) then substr package (size64 (n - len) - HEAD_LEN) len
         else Crash SignedOverflow)"

definition addHeader :: "string \<Rightarrow> string" where
  "addHeader str = digits_of (length str) @ HEAD_SEP @ str @ HEAD_SEP"

section \<open>Requests and responses\<close>

record request =
  req_x :: int
  req_y :: int
  req_op :: char

record response =
  resp_result :: int
  resp_code :: int

text \<open>
  jsoncpp: \<open>jwrite\<close> is the styled writer on an object with integer members, \<open>jget text key\<close>
  parses a text and reads a member with \<open>asInt\<close>, which throws on a value that is no integer.
\<close>

record json_lib =
  jwrite :: "(string \<times> int) list \<Rightarrow> string"
  jget :: "string \<Rightarrow> string \<Rightarrow> int outcome"

text \<open>\<open>char\<close> is signed; a \<open>Json::Value\<close> made from it holds its \<open>int\<close> value.\<close>

definition op_int :: "char \<Rightarrow> int" where
  "op_int c = (let n = int (of_char c) in if 128 \<le> n then n - 256 else n)"

definition op_of_int :: "int \<Rightarrow> char" where
  "op_of_int i = char_of (nat (i mod 256))"

definition Request_serialize :: "json_lib \<Rightarrow> request \<Rightarrow> string" where
  "Request_serialize J r =
     jwrite J [(''x'', req_x r), (''y'', req_y r), (''op'', op_int (req_op r))]"

definition Request_deserialize :: "json_lib \<Rightarrow> string \<Rightarrow> request outcome" where
  "Request_deserialize J instr =
     bind_out (jget J instr ''x'') (\<lambda>x.
     bind_out (jget J instr ''y'') (\<lambda>y.
     bind_out (jget J instr ''op'') (\<lambda>op.
       Done \<lparr>req_x = x, req_y = y, req_op = op_of_int op\<rparr>)))"

definition Response_serialize :: "json_lib \<Rightarrow> response \<Rightarrow> string" where
  "Response_serialize J r = jwrite J [(''res'', resp_result r), (''code'', resp_code r)]"

definition Response_deserialize :: "json_lib \<Rightarrow> string \<Rightarrow> response outcome" where
  "Response_deserialize J instr =
     bind_out (jget J instr ''res'') (\<lambda>res.
     bind_out (jget J instr ''code'') (\<lambda>code.
       Done \<lparr>resp_result = res, resp_code = code\<rparr>))"

text \<open>
  The \<open>MYPROTOCOL\<close> branches. \<open>deserialize\<close> returns whether it succeeded and leaves the object
  as it was when it did not; the object is a parameter.
\<close>

definition Request_serialize_text :: "request \<Rightarrow> string" where
  "Request_serialize_text r =
     to_string (req_x r) @ SEP @ [req_op r] @ SEP @ to_string (req_y r)"

definition Request_deserialize_text :: "string \<Rightarrow> request \<Rightarrow> (bool \<times> request) option" where
  "Request_deserialize_text instr r =
     (case splitstrings instr SEP [] of
        None \<Rightarrow> None
      | Some v \<Rightarrow>
          (if length v \<noteq> 3 then Some (False, r)
           else if length (v ! 1) \<noteq> 1 then Some (False, r)
           else Some (True, r\<lparr>req_x := toInt (v ! 0), req_y := toInt (v ! 2), req_op := (v ! 1) ! 0\<rparr>)))"

definition Response_serialize_text :: "response \<Rightarrow> string" where
  "Response_serialize_text r = to_string (resp_result r) @ SEP @ to_string (resp_code r)"

definition Response_deserialize_text :: "string \<Rightarrow> response \<Rightarrow> (bool \<times> response) option" where
  "Response_deserialize_text instr r =
     (case splitstrings instr SEP [] of
        None \<Rightarrow> None
      | Some v \<Rightarrow>
          (if length v \<noteq> 2 then Some (False, r)
           else Some (True, r\<lparr>resp_result := toInt (v ! 0), resp_code := toInt (v ! 1)\<rparr>)))"

section \<open>Facts about splitting\<close>

fun join :: "string \<Rightarrow> string list \<Rightarrow> string" where
  "join sep [] = []"
| "join sep [s] = s"
| "join sep (s # t # ss) = s @ sep @ join sep (t # ss)"

lemma join_snoc: "ss \<noteq> [] \<Longrightarrow> join sep (ss @ [t]) = join sep ss @ sep @ t"
  by (induction sep ss rule: join.induct) (auto simp: neq_Nil_conv)

text \<open>With a separator the loop advances, so it returns.\<close>

lemma split_loop_terminates:
  assumes "sep \<noteq> []"
  shows "\<exists>ps. split_loop str sep start result = Some ps"
proof (induction "length str - start" arbitrary: start result rule: less_induct)
  case less
  show ?case
  proof (cases "start < length str")
    case False
    then show ?thesis by (simp add: split_loop.simps [of str sep start])
  next
    case True
    show ?thesis
    proof (cases "str_find str sep start")
      case None
      with True show ?thesis by (simp add: split_loop.simps [of str sep start])
    next
      case (Some pos)
      from str_find_SomeD [OF Some] assms have "length str - (pos + length sep) < length str - start"
        using True by (cases sep) auto
      from less [OF this] True Some show ?thesis
        by (simp add: split_loop.simps [of str sep start])
    qed
  qed
qed

lemma split_loop_empty_sep:
  assumes "split_loop str sep start result = Some ps" "sep = []" "start < length str"
  shows False
proof -
  have "sep = [] \<longrightarrow> \<not> start < length str"
  proof (rule split_loop.raw_induct [where P = "\<lambda>str sep start r ps. sep = [] \<longrightarrow> \<not> start < length str",
        OF _ assms(1)])
    fix f :: "string \<Rightarrow> string \<Rightarrow> nat \<Rightarrow> string list \<Rightarrow> string list option"
      and str sep :: string and start :: nat and result ps :: "string list"
    assume IH: "\<And>str sep start r ps. f str sep start r = Some ps \<Longrightarrow> sep = [] \<longrightarrow> \<not> start < length str"
      and eq: "(if start < length str then
        (case str_find str sep start of
           None \<Rightarrow> Some (result @ [drop start str])
         | Some pos \<Rightarrow> f str sep (pos + length sep) (result @ [take (pos - start) (drop start str)]))
      else Some result) = Some ps"
    show "sep = [] \<longrightarrow> \<not> start < length str"
    proof (intro impI notI)
      assume sep: "sep = []" and lt: "start < length str"
      then have "str_find str sep start = Some start"
        by (cases "drop start str") (auto simp: str_find_def)
      with eq lt sep have "f str [] start (result @ [[]]) = Some ps" by simp
      from IH [OF this] lt show False by simp
    qed
  qed
  with assms(2,3) show False by blast
qed

lemma split_loop_join:
  assumes "split_loop str sep start result = Some ps" "start \<le> length str"
  shows "\<exists>qs. ps = result @ qs \<and>
    (join sep qs = drop start str \<or> join sep qs @ sep = drop start str \<and> qs \<noteq> [])"
proof -
  have "start \<le> length str \<longrightarrow> (\<exists>qs. ps = result @ qs \<and>
    (join sep qs = drop start str \<or> join sep qs @ sep = drop start str \<and> qs \<noteq> []))"
  proof (rule split_loop.raw_induct [where P = "\<lambda>str sep start result ps. start \<le> length str \<longrightarrow>
      (\<exists>qs. ps = result @ qs \<and>
        (join sep qs = drop start str \<or> join sep qs @ sep = drop start str \<and> qs \<noteq> []))",
        OF _ assms(1)])
    fix f :: "string \<Rightarrow> string \<Rightarrow> nat \<Rightarrow> string list \<Rightarrow> string list option"
      and str sep :: string and start :: nat and result ps :: "string list"
    assume IH: "\<And>str sep start result ps. f str sep start result = Some ps \<Longrightarrow> start \<le> length str \<longrightarrow>
      (\<exists>qs. ps = result @ qs \<and>
        (join sep qs = drop start str \<or> join sep qs @ sep = drop start str \<and> qs \<noteq> []))"
      and eq: "(if start < length str then
        (case str_find str sep start of
           None \<Rightarrow> Some (result @ [drop start str])
         | Some pos \<Rightarrow> f str sep (pos + length sep) (result @ [take (pos - start) (drop start str)]))
      else Some result) = Some ps"
    show "start \<le> length str \<longrightarrow> (\<exists>qs. ps = result @ qs \<and>
        (join sep qs = drop start str \<or> join sep qs @ sep = drop start str \<and> qs \<noteq> []))"
    proof (cases "start < length str")
      case False
      with eq show ?thesis by (auto intro: exI [of _ "[]"])
    next
      case lt: True
      show ?thesis
      proof (cases "str_find str sep start")
        case None
        with eq lt show ?thesis by (auto intro: exI [of _ "[drop start str]"])
      next
        case (Some pos)
        define piece where "piece = take (pos - start) (drop start str)"
        from str_find_SomeD [OF Some] have b: "start \<le> pos" "pos + length sep \<le> length str"
          and at: "take (length sep) (drop pos str) = sep" by auto
        have split: "drop start str = piece @ sep @ drop (pos + length sep) str"
        proof -
          have "drop start str = piece @ drop pos str"
            using b(1) append_take_drop_id [of "pos - start" "drop start str"]
            by (simp add: piece_def)
          also have "drop pos str = sep @ drop (pos + length sep) str"
            using append_take_drop_id [of "length sep" "drop pos str"] at by (simp add: add.commute)
          finally show ?thesis .
        qed
        from eq lt Some have "f str sep (pos + length sep) (result @ [piece]) = Some ps"
          by (simp add: piece_def)
        from IH [OF this] b obtain qs where qs: "ps = result @ piece # qs"
          "join sep qs = drop (pos + length sep) str
            \<or> join sep qs @ sep = drop (pos + length sep) str \<and> qs \<noteq> []" by auto
        show ?thesis
        proof (cases qs)
          case Nil
          with qs split show ?thesis by (auto intro!: exI [of _ "[piece]"])
        next
          case (Cons q qs')
          with qs split show ?thesis by (auto intro!: exI [of _ "piece # qs"])
        qed
      qed
    qed
  qed
  with assms(2) show ?thesis by blast
qed


text \<open>The result of splitting at a one-character separator, without indices.\<close>

fun split_on :: "char \<Rightarrow> string \<Rightarrow> string list" where
  "split_on c [] = []"
| "split_on c (d # s) =
     takeWhile (\<lambda>e. e \<noteq> c) (d # s) #
     split_on c (drop (Suc (length (takeWhile (\<lambda>e. e \<noteq> c) (d # s)))) (d # s))"

lemma split_on_piece: "c \<notin> set p \<Longrightarrow> split_on c (p @ c # s) = p # split_on c s"
proof (cases p)
  case (Cons d p')
  assume "c \<notin> set p"
  with Cons have "takeWhile (\<lambda>e. e \<noteq> c) (d # p' @ c # s) = d # p'"
    by (simp add: takeWhile_append_stop takeWhile_eq_all_conv) auto
  with Cons show ?thesis by simp
qed simp

lemma split_on_last: "c \<notin> set p \<Longrightarrow> p \<noteq> [] \<Longrightarrow> split_on c p = [p]"
proof (cases p)
  case (Cons d p')
  assume "c \<notin> set p"
  with Cons have "takeWhile (\<lambda>e. e \<noteq> c) (d # p') = d # p'"
    by (simp add: takeWhile_eq_all_conv) auto
  with Cons show ?thesis by simp
qed simp

lemma find_sub_char:
  "find_sub [c] s = (if c \<in> set s then Some (length (takeWhile (\<lambda>e. e \<noteq> c) s)) else None)"
  by (induction s) auto

lemma split_loop_split_on:
  "start \<le> length str \<Longrightarrow>
   split_loop str [c] start result = Some (result @ split_on c (drop start str))"
proof (induction "length str - start" arbitrary: start result rule: less_induct)
  case less
  show ?case
  proof (cases "start < length str")
    case False
    with less.prems show ?thesis by (subst split_loop.simps) simp
  next
    case lt: True
    define s where "s = drop start str"
    with lt have ne: "s \<noteq> []" by simp
    show ?thesis
    proof (cases "c \<in> set s")
      case False
      with lt ne show ?thesis
        by (simp add: split_loop.simps [of str _ start] str_find_def find_sub_char
            s_def [symmetric] split_on_last)
    next
      case True
      then obtain p t where s: "s = p @ c # t" "c \<notin> set p" by (meson split_list_first)
      then have tw: "takeWhile (\<lambda>e. e \<noteq> c) s = p"
        by (simp add: takeWhile_append_stop takeWhile_eq_all_conv) auto
      have len: "length str = start + length p + 1 + length t"
        using arg_cong [OF s_def, of length] lt s by simp
      have "drop (start + length p + 1) str = drop (length p + 1) s"
        by (simp add: s_def add.commute add.left_commute)
      then have t: "drop (start + length p + 1) str = t" by (simp add: s(1))
      have "split_loop str [c] start result
          = split_loop str [c] (start + length p + 1) (result @ [p])"
        using lt True by (simp add: split_loop.simps [of str _ start] str_find_def find_sub_char
            s_def [symmetric] tw) (simp add: s(1))
      also have "\<dots> = Some ((result @ [p]) @ split_on c (drop (start + length p + 1) str))"
        by (rule less.hyps) (simp_all add: len)
      finally show ?thesis
        using s by (simp only: t s_def [symmetric]) (simp add: split_on_piece)
    qed
  qed
qed

section \<open>Facts about frames\<close>

lemma HEAD_SEP_simps: "length HEAD_SEP = 2" "HEAD_SEP \<noteq> []"
  by (simp_all add: HEAD_SEP_def)

lemma length_addHeader: "length (addHeader s) = length (digits_of (length s)) + length s + 4"
  by (simp add: addHeader_def HEAD_SEP_simps)

lemma find_HEAD_SEP_addHeader:
  "str_find (addHeader s @ rest) HEAD_SEP 0 = Some (length (digits_of (length s)))"
proof -
  have "find_sub HEAD_SEP (digits_of (length s) @ HEAD_SEP @ s @ HEAD_SEP @ rest)
      = Some (length (digits_of (length s)))"
    unfolding HEAD_SEP_def by (rule find_sub_skip) simp
  then show ?thesis by (simp add: str_find_0 addHeader_def)
qed

text \<open>
  A payload fits when its length and that of its frame are far from the range of \<open>int\<close>.
\<close>

definition payload_ok :: "string \<Rightarrow> bool" where
  "payload_ok s \<longleftrightarrow> s \<noteq> [] \<and> length s < 2 ^ 30"

lemma header_length:
  assumes "n < 2 ^ 30"
  shows "length (digits_of n) \<le> 10"
proof -
  from assms have "n < 10 ^ 10" by simp
  then show ?thesis by (rule length_digits_of) simp
qed

lemma target_length:
  assumes "n < 2 ^ 30"
  shows "int32 (size64 (size64 (int n) + int (length (digits_of n)) + HEAD_LEN * 2))
     = int (n + length (digits_of n) + 4)"
  using assms header_length [OF assms]
  by (simp add: size64_id int32_id fits_int_def HEAD_LEN_def)

text \<open>What \<open>readPackage\<close> does with a buffer that starts with a valid length line.\<close>

lemma readPackage_header:
  assumes "str_find b HEAD_SEP 0 = Some pos" "take pos b = digits_of n" "n < 2 ^ 30"
    and "pos = length (digits_of n)"
  shows "readPackage b =
    (if length b < n + pos + 4 then (0, [], b)
     else (int n, take (n + pos + 4) b, drop (n + pos + 4) b))"
proof -
  have ti: "toInt (digits_of n) = int n"
    using assms(3) by (simp add: toInt_def atoi_digits_of)
  have "size64 (int (n + pos + 4)) = int (n + pos + 4)"
    using assms(3,4) header_length [OF assms(3)] by (intro size64_id) auto
  then show ?thesis
    using assms by (simp add: readPackage_def Let_def ti target_length nat_add_distrib)
qed

lemma readPackage_frame:
  assumes "length s < 2 ^ 30"
  shows "readPackage (addHeader s @ rest) = (int (length s), addHeader s, rest)"
proof -
  let ?d = "length (digits_of (length s))"
  have tk: "take ?d (addHeader s @ rest) = digits_of (length s)"
    by (simp add: addHeader_def)
  have "length s + ?d + 4 = length (addHeader s)"
    by (simp add: length_addHeader)
  with readPackage_header [OF find_HEAD_SEP_addHeader tk assms refl] show ?thesis by simp
qed

lemma readPackage_partial:
  assumes "length s < 2 ^ 30" "addHeader s = b @ c" "c \<noteq> []"
  shows "readPackage b = (0, [], b)"
proof (cases "str_find b HEAD_SEP 0")
  case None
  then show ?thesis by (simp add: readPackage_def)
next
  case (Some pos)
  let ?d = "length (digits_of (length s))"
  have "find_sub HEAD_SEP (b @ c) = Some pos"
    using Some by (simp add: str_find_0 find_sub_append)
  then have pos: "pos = ?d"
    using find_HEAD_SEP_addHeader [of s "[]"] assms(2) by (simp add: str_find_0)
  have "pos \<le> length b" using str_find_SomeD [OF Some] by simp
  then have "take pos b = take pos (addHeader s)" by (simp add: assms(2))
  then have tk: "take pos b = digits_of (length s)" by (simp add: addHeader_def pos)
  have "length b < length (addHeader s)" using assms(2,3) by (cases c) auto
  then have "length b < length s + pos + 4" by (simp add: length_addHeader pos)
  with readPackage_header [OF Some tk assms(1) pos] show ?thesis by simp
qed

lemma removeHeader_frame:
  assumes "length s < 2 ^ 30"
  shows "removeHeader (addHeader s) (int (length s)) = Done s"
proof -
  let ?d = "length (digits_of (length s))"
  have d: "?d \<le> 10" by (rule header_length) fact
  have n: "int32 (int (length (addHeader s))) = int (length s + ?d + 4)"
    using assms d by (simp add: length_addHeader int32_id fits_int_def)
  have p: "size64 (int (?d + 4)) - HEAD_LEN = int (?d + 2)"
    using d by (simp add: size64_id HEAD_LEN_def)
  have "take (length s) (drop (?d + 2) (addHeader s)) = s"
    by (simp add: addHeader_def HEAD_SEP_def)
  moreover have "substr (addHeader s) (int (?d + 2)) (int (length s))
      = Done (take (length s) (drop (?d + 2) (addHeader s)))"
    using assms d by (subst substr_ok) (auto simp: length_addHeader nat_add_distrib)
  moreover have "fits_int (int (?d + 4))" using d by (simp add: fits_int_def)
  ultimately show ?thesis
    using p by (simp add: removeHeader_def n Let_def)
qed

text \<open>No byte of the buffer is lost or invented, whatever it holds.\<close>

lemma readPackage_split: "readPackage b = (n, p, r) \<Longrightarrow> p @ r = b"
  by (auto simp: readPackage_def Let_def split: option.splits if_splits)

lemma removeHeader_nil: "0 < len \<Longrightarrow> fits_int len \<Longrightarrow> removeHeader [] len \<noteq> Done p"
proof -
  assume "0 < len" "fits_int len"
  then have "size64 (- len) - HEAD_LEN = 2 ^ 64 - len - 2"
    by (subst size64_neg) (auto simp: fits_int_def HEAD_LEN_def)
  moreover have "size64 (2 ^ 64 - len - 2) = 2 ^ 64 - len - 2"
    using \<open>0 < len\<close> \<open>fits_int len\<close> by (intro size64_id) (auto simp: fits_int_def)
  ultimately show ?thesis
    using \<open>0 < len\<close> \<open>fits_int len\<close>
    by (auto simp: removeHeader_def Let_def int32_id substr_def fits_int_def)
qed

lemma fits_int_readPackage: "fits_int (fst (readPackage b))"
  by (auto simp: readPackage_def Let_def toInt_def atoi_def fits_int_def split: option.splits)
    (use fits_int32 in \<open>auto simp: fits_int_def\<close>)

lemma readPackage_progress:
  assumes "readPackage b = (n, p, r)" "0 < n" "removeHeader p n = Done q"
  shows "length r < length b"
proof -
  have "fits_int n" using fits_int_readPackage [of b] assms(1) by simp
  with assms(2,3) removeHeader_nil have "p \<noteq> []" by blast
  with readPackage_split [OF assms(1)] show ?thesis by (cases p) auto
qed


text \<open>The length line decides how a package is cut, for negative lengths too.\<close>

lemma int32_mod: "a mod 2 ^ 32 = b mod 2 ^ 32 \<Longrightarrow> int32 a = int32 b"
proof -
  assume "a mod 2 ^ 32 = b mod 2 ^ 32"
  then have "(word_of_int a :: 32 word) = word_of_int b" by (simp add: word_of_int_eq_iff take_bit_eq_mod)
  then show ?thesis by (simp add: int32_def)
qed

lemma size64_mod32: "size64 a mod 2 ^ 32 = a mod 2 ^ 32"
  unfolding size64_mod by (rule mod_mod_cancel) simp

lemma int32_target: "int32 (size64 (size64 n + x + y)) = int32 (n + x + y)"
proof (rule int32_mod)
  have "size64 (size64 n + x + y) mod 2 ^ 32 = (size64 n + (x + y)) mod 2 ^ 32"
    by (simp only: size64_mod32 add.assoc)
  also have "\<dots> = (n + (x + y)) mod 2 ^ 32" by (metis mod_add_left_eq size64_mod32)
  finally show "size64 (size64 n + x + y) mod 2 ^ 32 = (n + x + y) mod 2 ^ 32" by (simp only: add.assoc)
qed

lemma int32_nonneg_id:
  assumes "0 \<le> int32 k" "- (2 ^ 31) \<le> k" "k < 2 ^ 32"
  shows "int32 k = k"
proof (cases "k < 2 ^ 31")
  case True
  with assms(2) show ?thesis by (simp add: int32_id fits_int_def)
next
  case False
  have "int32 k = int32 (k - 2 ^ 32)" by (rule int32_mod) (simp add: mod_diff_eq)
  also have "\<dots> = k - 2 ^ 32" using assms(3) False by (intro int32_id) (simp add: fits_int_def)
  finally show ?thesis using assms(1,3) by simp
qed

lemma readPackage_shape:
  assumes "readPackage b = (n, p, r)" "n \<noteq> 0" "length b < 2 ^ 30"
  shows "\<exists>pos. int (length p) = n + int pos + 4 \<and> int pos + 2 \<le> int (length b)"
proof -
  from assms(1,2) obtain pos where pos: "str_find b HEAD_SEP 0 = Some pos"
    by (auto simp: readPackage_def split: option.splits)
  define T where "T = int32 (size64 (size64 n + int pos + HEAD_LEN * 2))"
  have le: "pos + 2 \<le> length b" using str_find_SomeD [OF pos] by (simp add: HEAD_SEP_simps)
  then have n: "n = toInt (take pos b)" "\<not> size64 T > int (length b)" "p = take (nat (size64 T)) b"
    using assms(1,2) pos by (auto simp: readPackage_def Let_def T_def split: if_splits)
  have fn: "fits_int n" using fits_int_readPackage [of b] assms(1) by simp
  have "0 \<le> T"
  proof (rule ccontr)
    assume "\<not> 0 \<le> T"
    then have "size64 T = T + 2 ^ 64" by (intro size64_neg) (simp_all add: T_def)
    moreover have "- (2 ^ 31) \<le> T" using fits_int32 by (simp add: T_def fits_int_def)
    ultimately show False using n(2) assms(3) by simp
  qed
  moreover have T: "T = int32 (n + int pos + 4)" by (simp add: T_def int32_target HEAD_LEN_def)
  ultimately have "T = n + int pos + 4"
    unfolding T using fn le assms(3) by (intro int32_nonneg_id) (auto simp: fits_int_def)
  moreover have "size64 T = T"
    using \<open>0 \<le> T\<close> fits_int32 [of "size64 (size64 n + int pos + HEAD_LEN * 2)"]
    by (intro size64_id) (simp_all add: T_def fits_int_def)
  ultimately show ?thesis using n(2,3) le \<open>0 \<le> T\<close> by (intro exI [of _ pos]) auto
qed

lemma removeHeader_crash_iff:
  assumes "readPackage b = (n, p, r)" "n \<noteq> 0" "length b < 2 ^ 30"
  shows "removeHeader p n = Crash e \<longleftrightarrow> n < - 2 \<and> e = OutOfRange" "removeHeader p n \<noteq> Blocked"
proof -
  from readPackage_shape [OF assms] obtain pos where pos: "int (length p) = n + int pos + 4" "int pos + 2 \<le> int (length b)"
    by blast
  have fn: "fits_int n" using fits_int_readPackage [of b] assms(1) by simp
  have "length p \<le> length b" using readPackage_split [OF assms(1)] by auto
  then have "int32 (int (length p)) = n + int pos + 4"
    using pos assms(3) by (subst int32_id) (auto simp: fits_int_def)
  moreover have "fits_int (int pos + 4)" "size64 (int pos + 4) - HEAD_LEN = int pos + 2"
    using pos(2) assms(3) by (auto simp: fits_int_def size64_id HEAD_LEN_def)
  moreover have "size64 (int pos + 2) = int pos + 2" using pos(2) assms(3) by (intro size64_id) auto
  ultimately have "removeHeader p n = (if int pos + 2 > int (length p) then Crash OutOfRange else substr p (int pos + 2) n)"
    by (simp add: removeHeader_def Let_def substr_def)
  then show "removeHeader p n = Crash e \<longleftrightarrow> n < - 2 \<and> e = OutOfRange" "removeHeader p n \<noteq> Blocked"
    using pos \<open>size64 (int pos + 2) = int pos + 2\<close> by (auto simp: substr_def)
qed

section \<open>The frame format as a framing\<close>

text \<open>One round of the loop around \<open>readPackage\<close>: the payload taken, if any, and the rest.\<close>

definition take_frame :: "string \<Rightarrow> string option \<times> string" where
  "take_frame b =
     (case readPackage b of
        (n, p, r) \<Rightarrow> (if 0 < n then (case removeHeader p n of Done q \<Rightarrow> (Some q, r) | _ \<Rightarrow> (None, r))
                   else (None, r)))"

interpretation frames: framing addHeader take_frame payload_ok
proof unfold_locales
  fix p rest b c :: string
  assume ok: "payload_ok p"
  then have len: "length p < 2 ^ 30" "p \<noteq> []" by (simp_all add: payload_ok_def)
  show "addHeader p \<noteq> []" by (simp add: addHeader_def)
  show "take_frame (addHeader p @ rest) = (Some p, rest)"
    using len by (simp add: take_frame_def readPackage_frame removeHeader_frame)
  show "addHeader p = b @ c \<Longrightarrow> c \<noteq> [] \<Longrightarrow> take_frame b = (None, b)"
    using len by (simp add: take_frame_def readPackage_partial)
next
  show "take_frame [] = (None, [])"
    by (simp add: take_frame_def readPackage_def str_find_0 HEAD_SEP_def)
qed

section \<open>Properties\<close>

text \<open>C1. A framed payload at the front of the buffer is taken off exactly: \<open>readPackage\<close> returns
  its length and the frame and leaves what follows, and \<open>removeHeader\<close> gives the payload back.\<close>

theorem frame_roundtrip:
  assumes "length s < 2 ^ 30"
  shows "readPackage (addHeader s @ rest) = (int (length s), addHeader s, rest)
    \<and> removeHeader (addHeader s) (int (length s)) = Done s"
  using assms by (simp add: readPackage_frame removeHeader_frame)

lemma frame_roundtrip_witness:
  "readPackage (addHeader ''1 + 2'' @ ''7'') = (5, addHeader ''1 + 2'', ''7'')
    \<and> removeHeader (addHeader ''1 + 2'') 5 = Done ''1 + 2''"
  using frame_roundtrip [of "''1 + 2''" "''7''"] by simp

text \<open>C2. However TCP cuts a stream of framed payloads into chunks, running the server's read loop
  after every chunk takes exactly the payloads, in order, and leaves nothing behind.\<close>

theorem frames_segmentation:
  assumes "list_all payload_ok ss" "concat chunks = concat (map addHeader ss)"
  shows "feed take_frame [] chunks = Some (ss, [])"
  using assms by (rule frames.feed_segmentation)

lemma frames_segmentation_witness:
  "feed take_frame [] [take 4 (addHeader ''ab'' @ addHeader ''c''), [], drop 4 (addHeader ''ab'' @ addHeader ''c'')]
     = Some ([''ab'', ''c''], [])"
  by (rule frames_segmentation) (simp add: payload_ok_def, simp del: take_append drop_append)

text \<open>\<open>readPackage\<close> conserves the stream on every input, also a malformed one: the package and
  the buffer it leaves are the old buffer, and what the loop takes always shortens it.\<close>

theorem readPackage_conserves:
  "case readPackage b of (n, p, r) \<Rightarrow>
     p @ r = b \<and> (length r < length b \<or> n \<le> 0 \<or> (\<forall>q. removeHeader p n \<noteq> Done q))"
  using readPackage_split [of b] readPackage_progress [of b] by (cases "readPackage b") force

text \<open>\<open>splitstrings\<close> at a one-character separator is the plain split of the text. For any separator
  that is not empty it returns, and joining the pieces gives the text back, up to one separator at
  its end; with an empty separator it returns only on the empty text.\<close>

theorem splitstrings_correct:
  assumes "sep \<noteq> []"
  shows "splitstrings str [c] [] = Some (split_on c str) \<and>
    (\<exists>ps. splitstrings str sep [] = Some ps \<and> (join sep ps = str \<or> join sep ps @ sep = str)) \<and>
    (splitstrings str [] [] \<noteq> None \<longleftrightarrow> str = [])"
proof (intro conjI)
  show "splitstrings str [c] [] = Some (split_on c str)"
    using split_loop_split_on [of 0 str c "[]"] by (simp add: splitstrings_def)
  show "splitstrings str [] [] \<noteq> None \<longleftrightarrow> str = []"
    using split_loop_empty_sep [of str "[]" 0 "[]"]
    by (auto simp: splitstrings_def split_loop.simps [of "[]" _ 0])
  obtain ps where ps: "split_loop str sep 0 [] = Some ps"
    using split_loop_terminates [OF assms] by blast
  with split_loop_join [OF ps]
  show "\<exists>ps. splitstrings str sep [] = Some ps \<and> (join sep ps = str \<or> join sep ps @ sep = str)"
    by (auto simp: splitstrings_def)
qed

lemma splitstrings_correct_witness:
  "\<exists>ps. splitstrings ''a, b, '' '', '' [] = Some ps
     \<and> (join '', '' ps = ''a, b, '' \<or> join '', '' ps @ '', '' = ''a, b, '')"
proof -
  have "'', '' \<noteq> ([] :: string)" by simp
  from splitstrings_correct [OF this] show ?thesis by blast
qed

text \<open>The pieces of the two text messages.\<close>

lemma split_request_text:
  "split_on (CHR 0x20) (Request_serialize_text r) =
     (if req_op r = CHR 0x20 then [to_string (req_x r), [], [], to_string (req_y r)]
      else [to_string (req_x r), [req_op r], to_string (req_y r)])"
proof -
  have y: "split_on (CHR 0x20) (to_string (req_y r)) = [to_string (req_y r)]"
    by (rule split_on_last) simp_all
  have op: "split_on (CHR 0x20) (req_op r # CHR 0x20 # to_string (req_y r)) =
     (if req_op r = CHR 0x20 then [[], [], to_string (req_y r)]
      else [[req_op r], to_string (req_y r)])"
    using split_on_piece [of "CHR 0x20" "[req_op r]"] y by auto
  show ?thesis
    using split_on_piece [of "CHR 0x20" "to_string (req_x r)"
        "req_op r # CHR 0x20 # to_string (req_y r)"] op
    by (simp add: Request_serialize_text_def SEP_def)
qed

lemma split_response_text:
  "split_on (CHR 0x20) (Response_serialize_text r)
     = [to_string (resp_result r), to_string (resp_code r)]"
  using split_on_piece [of "CHR 0x20" "to_string (resp_result r)" "to_string (resp_code r)"]
    split_on_last [of "CHR 0x20" "to_string (resp_code r)"]
  by (simp add: Response_serialize_text_def SEP_def)

lemma splitstrings_SEP: "splitstrings str SEP [] = Some (split_on (CHR 0x20) str)"
  using split_loop_split_on [of 0 str "CHR 0x20" "[]"] by (simp add: splitstrings_def SEP_def)

text \<open>C3. The text form of a request reads back as the request, unless its operator is the
  separator itself: then \<open>deserialize\<close> fails and leaves the object as it was. A response always
  reads back.\<close>

theorem text_roundtrip:
  assumes "fits_int (req_x r)" "fits_int (req_y r)"
    and "fits_int (resp_result q)" "fits_int (resp_code q)"
  shows "Request_deserialize_text (Request_serialize_text r) r0
      = Some (if req_op r = CHR 0x20 then (False, r0) else (True, r))
    \<and> Response_deserialize_text (Response_serialize_text q) q0 = Some (True, q)"
  using assms
  by (simp add: Request_deserialize_text_def Response_deserialize_text_def splitstrings_SEP
      split_request_text split_response_text toInt_def atoi_to_string numeral_2_eq_2)

lemma text_roundtrip_witness:
  "Request_deserialize_text
     (Request_serialize_text \<lparr>req_x = - 7, req_y = 30, req_op = CHR ''+''\<rparr>)
     \<lparr>req_x = 0, req_y = 0, req_op = NUL\<rparr>
   = Some (True, \<lparr>req_x = - 7, req_y = 30, req_op = CHR ''+''\<rparr>)"
  using text_roundtrip [of "\<lparr>req_x = - 7, req_y = 30, req_op = CHR ''+''\<rparr>"
      "\<lparr>resp_result = 23, resp_code = 0\<rparr>" "\<lparr>req_x = 0, req_y = 0, req_op = NUL\<rparr>"
      "\<lparr>resp_result = 0, resp_code = 0\<rparr>"]
  by (simp add: fits_int_def)

end
