(* ===== verification/Calculator.thy ===== *)
theory Calculator
  imports Protocol "HOL-Library.Signed_Division"
begin

text \<open>
  The arithmetic the services offer: \<open>calculate\<close> (\<open>7.20/netCalculator/server.cc\<close>),
  \<open>calculateHandler\<close> (\<open>8.11/epollServer.2/main.cc\<close>) and the \<open>Task\<close> object the queues and the
  thread pools carry (\<open>task.hpp\<close>). The operands are \<open>int\<close>s: an operation whose result does not
  fit, and the division of the least \<open>int\<close> by -1, is undefined behaviour (the division traps).
\<close>

section \<open>Integer arithmetic of the language\<close>

definition checked :: "int \<Rightarrow> int outcome" where
  "checked i = (if fits_int i then Done i else Crash SignedOverflow)"

definition int_div :: "int \<Rightarrow> int \<Rightarrow> int outcome" where
  "int_div a b = checked (a sdiv b)"

definition int_rem :: "int \<Rightarrow> int \<Rightarrow> int outcome" where
  "int_rem a b = (if fits_int (a sdiv b) then Done (a smod b) else Crash SignedOverflow)"

section \<open>The handlers of the two servers\<close>

definition calculate :: "request \<Rightarrow> response outcome" where
  "calculate req =
     (let resp = \<lparr>resp_result = 0, resp_code = 0\<rparr>
      in if req_op req = CHR ''+'' then
           bind_out (checked (req_x req + req_y req)) (\<lambda>v. Done (resp\<lparr>resp_result := v\<rparr>))
         else if req_op req = CHR ''-'' then
           bind_out (checked (req_x req - req_y req)) (\<lambda>v. Done (resp\<lparr>resp_result := v\<rparr>))
         else if req_op req = CHR ''*'' then
           bind_out (checked (req_x req * req_y req)) (\<lambda>v. Done (resp\<lparr>resp_result := v\<rparr>))
         else if req_op req = CHR ''/'' then
           (if req_y req = 0 then Done (resp\<lparr>resp_code := 1\<rparr>)
            else bind_out (int_div (req_x req) (req_y req)) (\<lambda>v. Done (resp\<lparr>resp_result := v\<rparr>)))
         else if req_op req = CHR ''%'' then
           (if req_y req = 0 then Done (resp\<lparr>resp_code := 2\<rparr>)
            else bind_out (int_rem (req_x req) (req_y req)) (\<lambda>v. Done (resp\<lparr>resp_result := v\<rparr>)))
         else Done (resp\<lparr>resp_code := 3\<rparr>))"

text \<open>The second server has its own copy of the function, a switch over the operator.\<close>

definition calculateHandler :: "request \<Rightarrow> response outcome" where
  "calculateHandler req =
     (let resp = \<lparr>resp_result = 0, resp_code = 0\<rparr>;
          x = req_x req; y = req_y req; op = req_op req;
          answer = (\<lambda>m. bind_out m (\<lambda>v. Done (resp\<lparr>resp_result := v\<rparr>)))
      in if op = CHR ''+'' then answer (checked (x + y))
         else if op = CHR ''-'' then answer (checked (x - y))
         else if op = CHR ''*'' then answer (checked (x * y))
         else if op = CHR ''/'' then
           (if y = 0 then Done (resp\<lparr>resp_code := 1\<rparr>) else answer (int_div x y))
         else if op = CHR ''%'' then
           (if y = 0 then Done (resp\<lparr>resp_code := 2\<rparr>) else answer (int_rem x y))
         else Done (resp\<lparr>resp_code := 3\<rparr>))"

section \<open>The task object\<close>

record task =
  task_num1 :: int
  task_num2 :: int
  task_operator :: char
  task_result :: int
  task_exitcode :: int

definition Task_new :: "int \<Rightarrow> int \<Rightarrow> char \<Rightarrow> task" where
  "Task_new num1 num2 op =
     \<lparr>task_num1 = num1, task_num2 = num2, task_operator = op, task_result = 0, task_exitcode = 0\<rparr>"

text \<open>\<open>operator()\<close> writes the members; the declared \<open>int\<close> result is never returned.\<close>

definition Task_call :: "task \<Rightarrow> task outcome" where
  "Task_call t =
     (if task_operator t = CHR ''+'' then
        bind_out (checked (task_num1 t + task_num2 t)) (\<lambda>v. Done (t\<lparr>task_result := v\<rparr>))
      else if task_operator t = CHR ''-'' then
        bind_out (checked (task_num1 t - task_num2 t)) (\<lambda>v. Done (t\<lparr>task_result := v\<rparr>))
      else if task_operator t = CHR ''*'' then
        bind_out (checked (task_num1 t * task_num2 t)) (\<lambda>v. Done (t\<lparr>task_result := v\<rparr>))
      else if task_operator t = CHR ''/'' then
        (if task_num2 t = 0 then Done (t\<lparr>task_exitcode := - 1\<rparr>)
         else bind_out (int_div (task_num1 t) (task_num2 t)) (\<lambda>v. Done (t\<lparr>task_result := v\<rparr>)))
      else if task_operator t = CHR ''%'' then
        (if task_num2 t = 0 then Done (t\<lparr>task_exitcode := - 2\<rparr>)
         else bind_out (int_rem (task_num1 t) (task_num2 t)) (\<lambda>v. Done (t\<lparr>task_result := v\<rparr>)))
      else Done t)"

definition Task_formatArgs :: "task \<Rightarrow> string" where
  "Task_formatArgs t =
     to_string (task_num1 t) @ [task_operator t] @ to_string (task_num2 t) @ ''=''"

definition Task_formatResult :: "task \<Rightarrow> string" where
  "Task_formatResult t = to_string (task_result t) @ '' ('' @ to_string (task_exitcode t) @ '')''"

section \<open>Facts\<close>

lemma not_fits_int: "\<not> fits_int 2147483648"
  by (simp add: fits_int_def)

lemma sdiv_fits:
  assumes "fits_int a"
  shows "fits_int (a sdiv b) \<longleftrightarrow> \<not> (a = - (2 ^ 31) \<and> b = - 1)"
proof -
  have range: "- \<bar>a\<bar> \<le> a sdiv b" "a sdiv b \<le> \<bar>a\<bar>"
    using sdiv_int_range [of a b] by auto
  show ?thesis
  proof (cases "a = - (2 ^ 31)")
    case True
    with range have "fits_int (a sdiv b) \<longleftrightarrow> a sdiv b \<noteq> - a"
      by (auto simp: fits_int_def)
    with True show ?thesis using int_sdiv_negated_is_minus1 [of a b] by simp
  next
    case False
    with range assms show ?thesis by (auto simp: fits_int_def)
  qed
qed

lemma smod_fits:
  assumes "fits_int a" "fits_int b" "b \<noteq> 0"
  shows "fits_int (a smod b)"
  using smod_int_range [OF assms(3), of a] assms by (auto simp: fits_int_def)

lemmas calc_defs = calculate_def calculateHandler_def Task_call_def Let_def checked_def int_div_def
  int_rem_def

section \<open>Properties\<close>



text \<open>Division and remainder answers satisfy the law of C division: the quotient and remainder
  rebuild the dividend, the remainder is smaller than the divisor and has the dividend's sign;
  both are in range. Division by zero is answered with codes 1 and 2.\<close>

theorem calculate_division:
  assumes "fits_int x" "fits_int y" "x \<noteq> - (2 ^ 31) \<or> y \<noteq> - 1"
  shows "\<exists>q m cq cm.
    calculate \<lparr>req_x = x, req_y = y, req_op = CHR ''/''\<rparr> = Done \<lparr>resp_result = q, resp_code = cq\<rparr> \<and>
    calculate \<lparr>req_x = x, req_y = y, req_op = CHR ''%''\<rparr> = Done \<lparr>resp_result = m, resp_code = cm\<rparr> \<and>
    fits_int q \<and> fits_int m \<and>
    (if y = 0 then q = 0 \<and> m = 0 \<and> cq = 1 \<and> cm = 2
     else cq = 0 \<and> cm = 0 \<and> x = q * y + m \<and> \<bar>m\<bar> < \<bar>y\<bar> \<and> (m = 0 \<or> sgn m = sgn x))"
proof (cases "y = 0")
  case True
  then show ?thesis by (simp add: calc_defs fits_int_def)
next
  case False
  have "x = (x sdiv y) * y + x smod y" by (simp add: sdiv_mult_smod_eq)
  moreover have "\<bar>x smod y\<bar> < \<bar>y\<bar>" using smod_int_range [OF False, of x] by auto
  moreover have "x smod y = 0 \<or> sgn (x smod y) = sgn x"
  proof -
    have "0 \<le> \<bar>x\<bar> mod \<bar>y\<bar>" using False by simp
    then have "\<bar>x\<bar> mod \<bar>y\<bar> = 0 \<or> sgn (\<bar>x\<bar> mod \<bar>y\<bar>) = 1" by (auto simp: sgn_if)
    then show ?thesis by (auto simp: signed_modulo_int_def sgn_mult)
  qed
  moreover have "fits_int (x sdiv y)" using assms by (subst sdiv_fits) auto
  moreover have "fits_int (x smod y)" using assms(1,2) False by (rule smod_fits)
  ultimately show ?thesis using False by (simp add: calc_defs)
qed

lemma calculate_division_witness:
  "calculate \<lparr>req_x = - 7, req_y = 2, req_op = CHR ''/''\<rparr> = Done \<lparr>resp_result = - 3, resp_code = 0\<rparr>
   \<and> (\<exists>m. calculate \<lparr>req_x = - 7, req_y = 2, req_op = CHR ''%''\<rparr>
        = Done \<lparr>resp_result = m, resp_code = 0\<rparr> \<and> - 7 = - 3 * 2 + m)"
  using calculate_division [of "- 7" 2] by (auto simp: fits_int_def calc_defs)


end
