(* ===== verification/Kernel.thy ===== *)
theory Kernel
  imports Prelude
begin

text \<open>
  The operating system as the servers see it: a table of open descriptors, the listening and the
  epoll state, and scripts of what the calls \<open>accept\<close>, \<open>recv\<close> and \<open>send\<close> will answer. The
  scripts, the answers of the set-up calls and the watch limit are arbitrary; the rest is what
  POSIX and epoll(7) document: a new descriptor is the lowest one not in use, closing a
  descriptor drops it from the epoll set, a descriptor is watched at most once.
\<close>

datatype errno = EAGAIN | EINTR | EOther int   \<comment> \<open>\<open>EWOULDBLOCK\<close> is \<open>EAGAIN\<close> on Linux\<close>

datatype recv_res = RData string | REof | RErr errno

text \<open>A receiving call finds the array it writes to with some old contents.\<close>

type_synonym recv_call = "string \<times> recv_res"

text \<open>What \<open>send\<close> returns and the value of \<open>errno\<close> after it.\<close>

datatype send_res = SRet int errno

datatype accept_res = AOk string int | AErr errno

datatype syscall = Sys_socket | Sys_bind | Sys_listen | Sys_epoll_create | Sys_connect

record kernel =
  k_open :: "int list"
  k_ok :: "syscall \<Rightarrow> bool"
  k_bound :: "int \<Rightarrow> int option"
  k_listening :: "int \<Rightarrow> bool"
  k_nonblock :: "int \<Rightarrow> bool"
  k_epoll :: "int \<Rightarrow> 32 word option"
  k_watch :: "int \<Rightarrow> bool"
  k_accepts :: "accept_res list"
  k_recvs :: "int \<Rightarrow> recv_call list"
  k_sends :: "int \<Rightarrow> send_res list"
  k_sent :: "int \<Rightarrow> string"

section \<open>Descriptors\<close>

definition lowest_fd :: "int list \<Rightarrow> int" where
  "lowest_fd os = int (length (takeWhile (\<lambda>i. int i \<in> set os) [0..<length os]))"

lemma lowest_fd_fresh: "lowest_fd os \<notin> set os"
proof
  define n where "n = length (takeWhile (\<lambda>i. int i \<in> set os) [0..<length os])"
  have n: "n \<le> length os"
    using length_takeWhile_le [of "\<lambda>i. int i \<in> set os" "[0..<length os]"] by (simp add: n_def)
  assume "lowest_fd os \<in> set os"
  then have mem: "int n \<in> set os" by (simp add: lowest_fd_def n_def)
  have "\<not> n < length os"
  proof
    assume lt: "n < length os"
    then have "\<not> int ([0..<length os] ! n) \<in> set os"
      unfolding n_def by (intro nth_length_takeWhile) simp
    with lt mem show False by simp
  qed
  with n have eq: "n = length os" by simp
  then have "takeWhile (\<lambda>i. int i \<in> set os) [0..<length os] = [0..<length os]"
    unfolding n_def by (metis length_upt minus_nat.diff_0 takeWhile_eq_take take_all order_refl)
  then have "\<forall>i < length os. int i \<in> set os" by (simp add: takeWhile_eq_all_conv)
  with mem eq have "\<And>i. i \<le> length os \<Longrightarrow> int i \<in> set os"
    by (metis le_neq_implies_less)
  then have "int ` {0..length os} \<subseteq> set os" by auto
  then have "card (int ` {0..length os}) \<le> card (set os)" by (intro card_mono) auto
  also have "\<dots> \<le> length os" by (rule card_length)
  finally show False by (simp add: card_image inj_on_def)
qed

lemma lowest_fd_nonneg [simp]: "0 \<le> lowest_fd os"
  by (simp add: lowest_fd_def)

lemma lowest_fd_pos: "0 \<in> set os \<Longrightarrow> 0 < lowest_fd os"
  using lowest_fd_fresh [of os] lowest_fd_nonneg [of os]
  by (metis order_le_imp_less_or_eq)

definition k_new_fd :: "kernel \<Rightarrow> int \<times> kernel" where
  "k_new_fd k = (let fd = lowest_fd (k_open k) in (fd, k\<lparr>k_open := fd # k_open k\<rparr>))"

definition k_close :: "int \<Rightarrow> kernel \<Rightarrow> kernel" where
  "k_close fd k = k\<lparr>k_open := removeAll fd (k_open k), k_epoll := (k_epoll k)(fd := None),
     k_listening := (k_listening k)(fd := False), k_bound := (k_bound k)(fd := None)\<rparr>"

section \<open>epoll\<close>

definition k_ctl_add :: "int \<Rightarrow> 32 word \<Rightarrow> kernel \<Rightarrow> bool \<times> kernel" where
  "k_ctl_add fd ev k =
     (if fd \<in> set (k_open k) \<and> k_epoll k fd = None \<and> k_watch k fd
      then (True, k\<lparr>k_epoll := (k_epoll k)(fd \<mapsto> ev)\<rparr>) else (False, k))"

definition k_ctl_mod :: "int \<Rightarrow> 32 word \<Rightarrow> kernel \<Rightarrow> bool \<times> kernel" where
  "k_ctl_mod fd ev k =
     (if k_epoll k fd \<noteq> None then (True, k\<lparr>k_epoll := (k_epoll k)(fd \<mapsto> ev)\<rparr>) else (False, k))"

definition k_ctl_del :: "int \<Rightarrow> kernel \<Rightarrow> bool \<times> kernel" where
  "k_ctl_del fd k =
     (if k_epoll k fd \<noteq> None then (True, k\<lparr>k_epoll := (k_epoll k)(fd := None)\<rparr>) else (False, k))"

section \<open>accept\<close>

text \<open>The descriptor (or -1 and the error), the peer's address, and the new kernel state.\<close>

definition k_accept ::
  "kernel \<Rightarrow> ((int \<times> string \<times> int + errno) \<times> kernel) outcome" where
  "k_accept k =
     (case k_accepts k of
        [] \<Rightarrow> Blocked
      | AOk ip port # rest \<Rightarrow>
          (case k_new_fd (k\<lparr>k_accepts := rest\<rparr>) of (fd, k') \<Rightarrow> Done (Inl (fd, ip, port), k'))
      | AErr e # rest \<Rightarrow> Done (Inr e, k\<lparr>k_accepts := rest\<rparr>))"

lemma k_accept_Inl:
  assumes "k_accept k = Done (Inl (fd, ip, port), k')"
  shows "fd = lowest_fd (k_open k)" "k_open k' = fd # k_open k" "k_epoll k' = k_epoll k"
    "k_watch k' = k_watch k" "length (k_accepts k') < length (k_accepts k)"
  using assms by (auto simp: k_accept_def k_new_fd_def Let_def split: list.splits accept_res.splits)

lemma k_accept_Inr:
  assumes "k_accept k = Done (Inr e, k')"
  shows "k_open k' = k_open k" "k_epoll k' = k_epoll k" "k_watch k' = k_watch k"
    "length (k_accepts k') < length (k_accepts k)"
  using assms by (auto simp: k_accept_def k_new_fd_def Let_def split: list.splits accept_res.splits)


section \<open>recv and send\<close>

text \<open>One call of \<open>recv\<close>, and one call of \<open>send\<close> whose result is ignored.\<close>

definition k_recv :: "int \<Rightarrow> kernel \<Rightarrow> (recv_call \<times> kernel) outcome" where
  "k_recv fd k = (case k_recvs k fd of
      [] \<Rightarrow> Blocked
    | c # rest \<Rightarrow> Done (c, k\<lparr>k_recvs := (k_recvs k)(fd := rest)\<rparr>))"

definition k_send :: "int \<Rightarrow> string \<Rightarrow> kernel \<Rightarrow> kernel outcome" where
  "k_send fd str k = (case k_sends k fd of
      [] \<Rightarrow> Blocked
    | SRet n e # rest \<Rightarrow>
        Done (k\<lparr>k_sends := (k_sends k)(fd := rest),
                k_sent := (k_sent k)(fd := k_sent k fd @ (if n > 0 then take (nat n) str else []))\<rparr>))"

lemma k_recv_Done:
  assumes "k_recv fd k = Done (c, k')"
  shows "k_open k' = k_open k" "k_epoll k' = k_epoll k" "k_watch k' = k_watch k"
  using assms by (auto simp: k_recv_def split: list.splits)

lemma k_send_Done:
  assumes "k_send fd str k = Done k'"
  shows "k_open k' = k_open k" "k_epoll k' = k_epoll k" "k_watch k' = k_watch k"
  using assms by (auto simp: k_send_def split: list.splits send_res.splits)

lemma k_recv_iff:
  "k_recv fd k = Done (c, k') \<longleftrightarrow>
   (\<exists>rest. k_recvs k fd = c # rest \<and> k' = k\<lparr>k_recvs := (k_recvs k)(fd := rest)\<rparr>)"
  by (auto simp: k_recv_def split: list.splits)

lemma k_send_recvs: "k_send fd str k = Done k' \<Longrightarrow> k_recvs k' = k_recvs k"
  by (auto simp: k_send_def split: list.splits send_res.splits)

lemma k_recv_no_crash [simp]: "k_recv fd k \<noteq> Crash e"
  by (simp add: k_recv_def split: list.splits)

lemma k_send_no_crash [simp]: "k_send fd str k \<noteq> Crash e"
  by (simp add: k_send_def split: list.splits send_res.splits)

lemma k_accept_no_crash [simp]: "k_accept k \<noteq> Crash e"
  by (auto simp: k_accept_def k_new_fd_def Let_def split: list.splits accept_res.splits)

end
