(* ===== verification/Socket.thy ===== *)
theory Socket
  imports Kernel
begin

text \<open>
  The \<open>sock\<close> class (\<open>socket.hpp\<close>), the \<open>Epoll\<close> class (\<open>epoll.hpp\<close>) and the exit codes of
  \<open>error.hpp\<close>. A failing set-up call ends the process with its own code.
\<close>

section \<open>Exit codes\<close>

definition USAGE_ERR :: int where "USAGE_ERR = 1"
definition SOCKET_ERROR :: int where "SOCKET_ERROR = 2"
definition BIND_ERROR :: int where "BIND_ERROR = 3"
definition LISTEN_ERROR :: int where "LISTEN_ERROR = 4"
definition CONNECT_ERROR :: int where "CONNECT_ERROR = 5"
definition SETSID_ERROR :: int where "SETSID_ERROR = 6"
definition EPOLL_CREATE_ERROR :: int where "EPOLL_CREATE_ERROR = 7"
definition EPOLL_CTL_ERROR :: int where "EPOLL_CTL_ERROR = 8"
definition EPOLL_CTL_ADD_ERR :: int where "EPOLL_CTL_ADD_ERR = 9"

section \<open>The socket class\<close>

record sock = sock_fd :: int

definition defaultsock :: int where "defaultsock = - 1"

definition sock_new :: sock where "sock_new = \<lparr>sock_fd = defaultsock\<rparr>"

definition sock_Socket :: "sock \<Rightarrow> kernel \<Rightarrow> (sock \<times> kernel) outcome" where
  "sock_Socket s k =
     (if k_ok k Sys_socket then
        (case k_new_fd k of (fd, k') \<Rightarrow> Done (s\<lparr>sock_fd := fd\<rparr>, k'))
      else Crash (ExitWith SOCKET_ERROR))"

definition sock_Bind :: "int \<Rightarrow> sock \<Rightarrow> kernel \<Rightarrow> kernel outcome" where
  "sock_Bind port s k =
     (if k_ok k Sys_bind \<and> sock_fd s \<in> set (k_open k)
      then Done (k\<lparr>k_bound := (k_bound k)(sock_fd s \<mapsto> uint16 port)\<rparr>)
      else Crash (ExitWith BIND_ERROR))"

definition sock_Listen :: "sock \<Rightarrow> kernel \<Rightarrow> kernel outcome" where
  "sock_Listen s k =
     (if k_ok k Sys_listen \<and> sock_fd s \<in> set (k_open k)
      then Done (k\<lparr>k_listening := (k_listening k)(sock_fd s := True)\<rparr>)
      else Crash (ExitWith LISTEN_ERROR))"

text \<open>
  \<open>Accept\<close> of the epoll server: the returned descriptor (-1 on an error), the client's address
  if there is one, and the output parameter \<open>err\<close> (\<open>None\<close> is 0).
\<close>

definition sock_Accept ::
  "sock \<Rightarrow> kernel \<Rightarrow> ((int \<times> (string \<times> int) option \<times> errno option) \<times> kernel) outcome" where
  "sock_Accept s k =
     bind_out (k_accept k) (\<lambda>(r, k').
       case r of
         Inl (n, ip, port) \<Rightarrow> Done ((n, Some (ip, port), None), k')
       | Inr e \<Rightarrow> Done ((- 1, None, Some e), k'))"

text \<open>
  \<open>Accept\<close> of the earlier servers passes an uninitialised length \<open>len\<close> to \<open>accept\<close>: with a
  length below that of an address the address structure is not filled in before it is read.
\<close>

definition sock_Accept_uninit ::
  "int \<Rightarrow> sock \<Rightarrow> kernel \<Rightarrow> ((int \<times> (string \<times> int) option) \<times> kernel) outcome" where
  "sock_Accept_uninit len s k =
     bind_out (k_accept k) (\<lambda>(r, k').
       case r of
         Inl (n, ip, port) \<Rightarrow>
           (if len < 16 then Crash Uninitialised else Done ((n, Some (ip, port)), k'))
       | Inr e \<Rightarrow> Done ((- 1, None), k'))"

definition sock_Connect :: "string \<Rightarrow> int \<Rightarrow> sock \<Rightarrow> kernel \<Rightarrow> int" where
  "sock_Connect server_ip server_port s k = (if k_ok k Sys_connect then 0 else - 1)"

definition sock_Close :: "sock \<Rightarrow> kernel \<Rightarrow> kernel" where
  "sock_Close s k = (if sock_fd s \<noteq> defaultsock then k_close (sock_fd s) k else k)"

section \<open>The epoll class\<close>

record Epoll = epfd :: int

definition default_epfd :: int where "default_epfd = - 1"

definition Epoll_Create :: "kernel \<Rightarrow> (Epoll \<times> kernel) outcome" where
  "Epoll_Create k =
     (if k_ok k Sys_epoll_create then
        (case k_new_fd k of (fd, k') \<Rightarrow> Done (\<lparr>epfd = fd\<rparr>, k'))
      else Crash (ExitWith EPOLL_CREATE_ERROR))"

definition Epoll_AddEvent :: "int \<Rightarrow> 32 word \<Rightarrow> kernel \<Rightarrow> bool \<times> kernel" where
  "Epoll_AddEvent fd event k = k_ctl_add fd event k"

definition Epoll_ModEvent :: "int \<Rightarrow> 32 word \<Rightarrow> kernel \<Rightarrow> bool \<times> kernel" where
  "Epoll_ModEvent fd event k = k_ctl_mod fd event k"

definition Epoll_DelEvent :: "int \<Rightarrow> kernel \<Rightarrow> bool \<times> kernel" where
  "Epoll_DelEvent fd k = k_ctl_del fd k"

definition Epoll_Close :: "Epoll \<Rightarrow> kernel \<Rightarrow> kernel" where
  "Epoll_Close e k = (if epfd e = default_epfd then k else k_close (epfd e) k)"

section \<open>Starting a listening socket\<close>

text \<open>\<open>Socket(); Bind(port); Listen();\<close>, the opening of every \<open>init_server\<close>.\<close>

definition open_listener :: "int \<Rightarrow> kernel \<Rightarrow> (sock \<times> kernel) outcome" where
  "open_listener port k =
     bind_out (sock_Socket sock_new k) (\<lambda>(s, k1).
     bind_out (sock_Bind port s k1) (\<lambda>k2.
     bind_out (sock_Listen s k2) (\<lambda>k3. Done (s, k3))))"

lemma open_listener_Done:
  assumes "open_listener port k = Done (s, k')"
  shows "sock_fd s = lowest_fd (k_open k)" "k_open k' = sock_fd s # k_open k"
    "k_listening k' (sock_fd s)" "k_bound k' (sock_fd s) = Some (uint16 port)"
    "k_epoll k' = k_epoll k" "k_ok k' = k_ok k" "k_watch k' = k_watch k"
  using assms
  by (auto simp: open_listener_def sock_Socket_def sock_Bind_def sock_Listen_def k_new_fd_def
      Let_def split: if_splits)

end
