(* ===== verification/EpollServer2.thy ===== *)
theory EpollServer2
  imports Calculator Socket
begin

text \<open>
  The reactor of \<open>8.11/epollServer.2\<close> (\<open>epollServer.hpp\<close>, \<open>utility.hpp\<close>): one thread, edge
  triggered epoll, a \<open>connection\<close> object per descriptor with its buffers and its three
  callbacks, a table from descriptors to those objects, and handlers that accept, receive,
  answer, send and close. Connections live on a heap, because a handler can delete the object
  its caller still points to. \<open>J\<close> is jsoncpp, \<open>f\<close> the request handler the server is built with.
\<close>

unbundle bit_operations_syntax

section \<open>State\<close>

definition EPOLLIN :: "32 word" where "EPOLLIN = 0x1"
definition EPOLLOUT :: "32 word" where "EPOLLOUT = 0x4"
definition EPOLLERR :: "32 word" where "EPOLLERR = 0x8"
definition EPOLLHUP :: "32 word" where "EPOLLHUP = 0x10"
definition EPOLLET :: "32 word" where "EPOLLET = 0x80000000"

text \<open>What a \<open>callback_t\<close> slot holds: nothing, or the handler bound by \<open>Register\<close>.\<close>

datatype recv_cb = NoReciver | OnAccept | OnRecv
datatype send_cb = NoSender | OnSend
datatype exc_cb = NoExcepter | OnExcept

record connection =
  conn_fd :: int
  conn_inbuffer :: string
  conn_outbuffer :: string
  conn_reciver :: recv_cb
  conn_sender :: send_cb
  conn_excepter :: exc_cb
  conn_client_ip :: string
  conn_client_port :: int
  conn_events :: "32 word"

definition connection_new :: "int \<Rightarrow> string \<Rightarrow> int \<Rightarrow> connection" where
  "connection_new fd ip port =
     \<lparr>conn_fd = fd, conn_inbuffer = [], conn_outbuffer = [], conn_reciver = NoReciver,
      conn_sender = NoSender, conn_excepter = NoExcepter, conn_client_ip = ip,
      conn_client_port = port, conn_events = 0\<rparr>"

definition Register :: "recv_cb \<Rightarrow> send_cb \<Rightarrow> exc_cb \<Rightarrow> connection \<Rightarrow> connection" where
  "Register reciver sender excepter c =
     c\<lparr>conn_reciver := reciver, conn_sender := sender, conn_excepter := excepter\<rparr>"

record server =
  sv_heap :: "nat \<Rightarrow> connection option"
  sv_next :: nat
  sv_connections :: "int \<Rightarrow> nat option"
  sv_listensock :: sock
  sv_epoll :: Epoll
  sv_kern :: kernel

text \<open>Dereferencing and updating a connection through its pointer.\<close>

definition deref :: "server \<Rightarrow> nat \<Rightarrow> connection outcome" where
  "deref s p = (case sv_heap s p of None \<Rightarrow> Crash UseAfterFree | Some c \<Rightarrow> Done c)"

definition put_conn :: "nat \<Rightarrow> connection \<Rightarrow> server \<Rightarrow> server" where
  "put_conn p c s = s\<lparr>sv_heap := (sv_heap s)(p \<mapsto> c)\<rparr>"

definition put_kern :: "kernel \<Rightarrow> server \<Rightarrow> server" where
  "put_kern k s = s\<lparr>sv_kern := k\<rparr>"

definition SetNonBlock :: "int \<Rightarrow> kernel \<Rightarrow> kernel" where
  "SetNonBlock fd k = k\<lparr>k_nonblock := (k_nonblock k)(fd := True)\<rparr>"

section \<open>Connections\<close>

definition AddConnection ::
  "int \<Rightarrow> 32 word \<Rightarrow> string \<Rightarrow> int \<Rightarrow> server \<Rightarrow> server outcome" where
  "AddConnection fd event client_ip client_port s =
     (let k = (if event AND EPOLLET \<noteq> 0 then SetNonBlock fd (sv_kern s) else sv_kern s);
          conn = connection_new fd client_ip client_port;
          conn = (if conn_fd conn = sock_fd (sv_listensock s)
                  then Register OnAccept NoSender NoExcepter conn
                  else Register OnRecv OnSend OnExcept conn);
          conn = conn\<lparr>conn_events := event\<rparr>;
          p = sv_next s;
          table = (if sv_connections s fd = None then (sv_connections s)(fd \<mapsto> p)
                   else sv_connections s)
      in case Epoll_AddEvent fd (EPOLLIN OR EPOLLET) k of
           (ret, k') \<Rightarrow>
             (if ret then Done (s\<lparr>sv_heap := (sv_heap s)(p \<mapsto> conn), sv_next := Suc p,
                                 sv_connections := table, sv_kern := k'\<rparr>)
              else Crash AssertFailed))"

definition ConnectionIsExists :: "int \<Rightarrow> server \<Rightarrow> bool" where
  "ConnectionIsExists fd s \<longleftrightarrow> sv_connections s fd \<noteq> None"

definition EnableReadWrite :: "nat \<Rightarrow> bool \<Rightarrow> bool \<Rightarrow> server \<Rightarrow> (bool \<times> server) outcome" where
  "EnableReadWrite p readable writeable s =
     bind_out (deref s p) (\<lambda>c.
       let ev = ((if readable then EPOLLIN else 0) OR (if writeable then EPOLLOUT else 0)) OR EPOLLET
       in case Epoll_ModEvent (conn_fd c) ev (sv_kern s) of
            (ret, k) \<Rightarrow> Done (ret, put_kern k (put_conn p (c\<lparr>conn_events := ev\<rparr>) s)))"

text \<open>Closing a connection: out of epoll, out of the table, the descriptor, the object.\<close>

definition Excepter :: "nat \<Rightarrow> server \<Rightarrow> server outcome" where
  "Excepter p s =
     bind_out (deref s p) (\<lambda>c.
       let fd = conn_fd c
       in case Epoll_DelEvent fd (sv_kern s) of
            (ret, k) \<Rightarrow>
              Done (s\<lparr>sv_kern := k_close fd k, sv_connections := (sv_connections s)(fd := None),
                      sv_heap := (sv_heap s)(p := None)\<rparr>))"

definition call_excepter :: "nat \<Rightarrow> server \<Rightarrow> server outcome" where
  "call_excepter p s =
     bind_out (deref s p) (\<lambda>c.
       case conn_excepter c of NoExcepter \<Rightarrow> Crash BadFunctionCall | OnExcept \<Rightarrow> Excepter p s)"

section \<open>Receiving\<close>

text \<open>
  The loop of \<open>HandleRecive\<close>; the answers of \<open>recv\<close> on the descriptor come first. After a
  successful call the code compares \<open>buffer[n]\<close> with 0 instead of assigning it, so what is
  appended is the C string that starts in the array.
\<close>

fun recv_loop :: "recv_call list \<Rightarrow> nat \<Rightarrow> server \<Rightarrow> (bool \<times> server) outcome" where
  "recv_loop [] p s = Blocked"
| "recv_loop ((old, r) # rest) p s =
     bind_out (deref s p) (\<lambda>c.
       let k = sv_kern s;
           s1 = put_kern (k\<lparr>k_recvs := (k_recvs k)(conn_fd c := rest)\<rparr>) s;
           again = (\<lambda>s. bind_out (deref s p) (\<lambda>c.
             if conn_events c AND EPOLLET \<noteq> 0 then recv_loop rest p s else Done (True, s)))
       in case r of
            RData data \<Rightarrow>
              (if data = [] then bind_out (call_excepter p s1) (\<lambda>s. Done (False, s))
               else bind_out (c_string (recv_into old data)) (\<lambda>str.
                 again (put_conn p (c\<lparr>conn_inbuffer := conn_inbuffer c @ str\<rparr>) s1)))
          | REof \<Rightarrow> bind_out (call_excepter p s1) (\<lambda>s. Done (False, s))
          | RErr e \<Rightarrow>
              (case e of
                 EAGAIN \<Rightarrow> Done (True, s1)
               | EINTR \<Rightarrow> again s1
               | EOther _ \<Rightarrow> bind_out (call_excepter p s1) (\<lambda>s. Done (False, s))))"

definition HandleRecive :: "nat \<Rightarrow> server \<Rightarrow> (bool \<times> server) outcome" where
  "HandleRecive p s =
     bind_out (deref s p) (\<lambda>c. recv_loop (k_recvs (sv_kern s) (conn_fd c)) p s)"

section \<open>Answering\<close>

text \<open>One complete payload: read the request, compute, write and frame the response.\<close>

definition respond :: "json_lib \<Rightarrow> (request \<Rightarrow> response outcome) \<Rightarrow> string \<Rightarrow> string outcome" where
  "respond J f payload =
     bind_out (Request_deserialize J payload) (\<lambda>req.
     bind_out (f req) (\<lambda>resp. Done (addHeader (Response_serialize J resp))))"

function request_loop ::
  "json_lib \<Rightarrow> (request \<Rightarrow> response outcome) \<Rightarrow> string \<Rightarrow> string \<Rightarrow> (string \<times> string) outcome" where
  "request_loop J f inbuffer outbuffer =
     (case readPackage inbuffer of
        (len, requestStr, inbuffer') \<Rightarrow>
          (if len > 0 then
             bind_out (removeHeader requestStr len) (\<lambda>payload.
             bind_out (respond J f payload) (\<lambda>responseStr.
               request_loop J f inbuffer' (outbuffer @ responseStr)))
           else Done (inbuffer', outbuffer)))"
  by pat_completeness auto
termination
  by (relation "measure (\<lambda>(J, f, inb, outb). length inb)") (auto intro: readPackage_progress [OF sym])

declare request_loop.simps [simp del]

definition HandleRequest ::
  "json_lib \<Rightarrow> (request \<Rightarrow> response outcome) \<Rightarrow> nat \<Rightarrow> server \<Rightarrow> server outcome" where
  "HandleRequest J f p s =
     bind_out (deref s p) (\<lambda>c.
     bind_out (request_loop J f (conn_inbuffer c) (conn_outbuffer c)) (\<lambda>(inb, outb).
       Done (put_conn p (c\<lparr>conn_inbuffer := inb, conn_outbuffer := outb\<rparr>) s)))"

section \<open>Sending\<close>

fun send_loop :: "send_res list \<Rightarrow> nat \<Rightarrow> server \<Rightarrow> (bool \<times> server) outcome" where
  "send_loop [] p s = Blocked"
| "send_loop (SRet n e # rest) p s =
     bind_out (deref s p) (\<lambda>c.
       let k = (sv_kern s)\<lparr>k_sends := (k_sends (sv_kern s))(conn_fd c := rest)\<rparr>;
           fd = conn_fd c;
           again = (\<lambda>s. bind_out (deref s p) (\<lambda>c.
             if conn_events c AND EPOLLET \<noteq> 0 then send_loop rest p s else Done (True, s)))
       in if n > 0 then
            (let sent = take (nat n) (conn_outbuffer c);
                 left = drop (nat n) (conn_outbuffer c);
                 k' = k\<lparr>k_sent := (k_sent k)(fd := k_sent k fd @ sent)\<rparr>;
                 s2 = put_conn p (c\<lparr>conn_outbuffer := left\<rparr>) (put_kern k' s)
             in if left = [] then Done (True, s2) else again s2)
          else (case e of
                  EAGAIN \<Rightarrow> Done (True, put_kern k s)
                | EINTR \<Rightarrow> again (put_kern k s)
                | EOther _ \<Rightarrow> bind_out (call_excepter p (put_kern k s)) (\<lambda>s. Done (False, s))))"

definition Sender :: "nat \<Rightarrow> server \<Rightarrow> server outcome" where
  "Sender p s =
     bind_out (deref s p) (\<lambda>c.
     bind_out (send_loop (k_sends (sv_kern s) (conn_fd c)) p s) (\<lambda>(flag, s1).
       if \<not> flag then Done s1
       else bind_out (deref s1 p) (\<lambda>c1.
         if conn_outbuffer c1 \<noteq> []
         then bind_out (EnableReadWrite p True True s1) (\<lambda>(r, s2). Done s2)
         else bind_out (EnableReadWrite p True False s1) (\<lambda>(r, s2). Done s2))))"

definition call_sender :: "nat \<Rightarrow> server \<Rightarrow> server outcome" where
  "call_sender p s =
     bind_out (deref s p) (\<lambda>c.
       case conn_sender c of NoSender \<Rightarrow> Crash BadFunctionCall | OnSend \<Rightarrow> Sender p s)"

definition Reciver ::
  "json_lib \<Rightarrow> (request \<Rightarrow> response outcome) \<Rightarrow> nat \<Rightarrow> server \<Rightarrow> server outcome" where
  "Reciver J f p s =
     bind_out (HandleRecive p s) (\<lambda>(ret, s1).
       if \<not> ret then Done s1
       else bind_out (HandleRequest J f p s1) (\<lambda>s2.
         bind_out (deref s2 p) (\<lambda>c.
           if conn_outbuffer c \<noteq> [] then call_sender p s2 else Done s2)))"

section \<open>Accepting\<close>

text \<open>
  The loop condition is \<open>conn->_events | EPOLLET\<close>, which never fails; only \<open>EAGAIN\<close> leaves.
\<close>

lemma k_accepts_AddConnection:
  "AddConnection fd ev ip port s = Done s' \<Longrightarrow> k_accepts (sv_kern s') = k_accepts (sv_kern s)"
  by (auto simp: AddConnection_def Let_def Epoll_AddEvent_def k_ctl_add_def SetNonBlock_def
      split: if_splits)

lemma sock_Accept_shorter:
  assumes "sock_Accept so k = Done (r, k')"
  shows "length (k_accepts k') < length (k_accepts k)"
proof -
  from assms obtain q k2 where q: "k_accept k = Done (q, k2)"
    by (auto simp: sock_Accept_def)
  with assms have "k2 = k'" by (cases q) (auto simp: sock_Accept_def)
  with q show ?thesis by (cases q) (auto dest: k_accept_Inl(5) k_accept_Inr(4))
qed

function Accepter :: "nat \<Rightarrow> server \<Rightarrow> server outcome" where
  "Accepter p s =
     bind_out (sock_Accept (sv_listensock s) (sv_kern s)) (\<lambda>(r, k). case r of (client_sock, addr, err) \<Rightarrow>
       if client_sock > 0 then
         bind_out (case addr of None \<Rightarrow> Crash Uninitialised
             | Some (client_ip, client_port) \<Rightarrow>
                 AddConnection client_sock (EPOLLIN OR EPOLLET) client_ip client_port (put_kern k s))
           (\<lambda>s1. bind_out (deref s1 p) (\<lambda>c.
             if conn_events c OR EPOLLET \<noteq> 0 then Accepter p s1 else Done s1))
       else if err = Some EAGAIN then Done (put_kern k s)
       else bind_out (deref (put_kern k s) p) (\<lambda>c.
         if conn_events c OR EPOLLET \<noteq> 0 then Accepter p (put_kern k s) else Done (put_kern k s)))"
  by pat_completeness auto
termination
  by (relation "measure (\<lambda>(p, s). length (k_accepts (sv_kern s)))")
    (auto simp: put_kern_def dest!: sock_Accept_shorter k_accepts_AddConnection split: option.splits)

declare Accepter.simps [simp del]

section \<open>The event loop\<close>

definition call_reciver ::
  "json_lib \<Rightarrow> (request \<Rightarrow> response outcome) \<Rightarrow> nat \<Rightarrow> server \<Rightarrow> server outcome" where
  "call_reciver J f p s =
     bind_out (deref s p) (\<lambda>c.
       case conn_reciver c of
         NoReciver \<Rightarrow> Crash BadFunctionCall
       | OnAccept \<Rightarrow> Accepter p s
       | OnRecv \<Rightarrow> Reciver J f p s)"

definition dispatch_event ::
  "json_lib \<Rightarrow> (request \<Rightarrow> response outcome) \<Rightarrow> int \<times> 32 word \<Rightarrow> server \<Rightarrow> server outcome" where
  "dispatch_event J f ready s =
     (let fd = fst ready;
          event = (if snd ready AND EPOLLERR \<noteq> 0 \<or> snd ready AND EPOLLHUP \<noteq> 0
                   then snd ready OR (EPOLLIN OR EPOLLOUT) else snd ready)
      in bind_out
           (if event AND EPOLLIN \<noteq> 0 \<and> ConnectionIsExists fd s
            then call_reciver J f (the (sv_connections s fd)) s else Done s)
           (\<lambda>s1.
             if event AND EPOLLOUT \<noteq> 0 \<and> ConnectionIsExists fd s1
             then call_sender (the (sv_connections s1 fd)) s1 else Done s1))"

text \<open>\<open>LoopOnce\<close> on what \<open>epoll_wait\<close> reported; \<open>Dispatcher\<close> on any number of rounds.\<close>

fun LoopOnce ::
  "json_lib \<Rightarrow> (request \<Rightarrow> response outcome) \<Rightarrow> (int \<times> 32 word) list \<Rightarrow> server \<Rightarrow> server outcome" where
  "LoopOnce J f [] s = Done s"
| "LoopOnce J f (e # es) s = bind_out (dispatch_event J f e s) (\<lambda>s1. LoopOnce J f es s1)"

fun Dispatcher ::
  "json_lib \<Rightarrow> (request \<Rightarrow> response outcome) \<Rightarrow> (int \<times> 32 word) list list \<Rightarrow> server \<Rightarrow> server outcome" where
  "Dispatcher J f [] s = Done s"
| "Dispatcher J f (r # rs) s = bind_out (LoopOnce J f r s) (\<lambda>s1. Dispatcher J f rs s1)"

definition Init_Server :: "int \<Rightarrow> kernel \<Rightarrow> server outcome" where
  "Init_Server port k =
     bind_out (open_listener port k) (\<lambda>(so, k1).
     bind_out (Epoll_Create k1) (\<lambda>(ep, k2).
       AddConnection (sock_fd so) (EPOLLIN OR EPOLLET) ''127.0.0.1'' 8888
         \<lparr>sv_heap = (\<lambda>_. None), sv_next = 0, sv_connections = (\<lambda>_. None),
          sv_listensock = so, sv_epoll = ep, sv_kern = k2\<rparr>))"

definition Shutdown :: "server \<Rightarrow> server" where
  "Shutdown s = put_kern (sock_Close (sv_listensock s) (Epoll_Close (sv_epoll s) (sv_kern s))) s"

end
