(* ===== verification/EpollSafety.thy ===== *)
theory EpollSafety
  imports EpollServer2
begin

text \<open>
  The reactor keeps its table, its heap, the epoll set and the open descriptors in step, never
  touches a deleted connection and never calls an empty callback, as long as the listening
  socket reports nothing but readability.
\<close>

section \<open>Invariant\<close>

definition conn_ok :: "int \<Rightarrow> connection \<Rightarrow> bool" where
  "conn_ok L c \<longleftrightarrow> 0 < conn_fd c \<and> conn_events c AND EPOLLET \<noteq> 0 \<and>
     (if conn_fd c = L
      then conn_reciver c = OnAccept \<and> conn_sender c = NoSender \<and> conn_excepter c = NoExcepter
      else conn_reciver c = OnRecv \<and> conn_sender c = OnSend \<and> conn_excepter c = OnExcept)"

text \<open>\<open>L\<close> is the listening descriptor.\<close>

definition sv_ok :: "int \<Rightarrow> server \<Rightarrow> bool" where
  "sv_ok L s \<longleftrightarrow>
     (\<forall>p c. sv_heap s p = Some c \<longrightarrow>
        p < sv_next s \<and> sv_connections s (conn_fd c) = Some p \<and> conn_ok L c) \<and>
     (\<forall>fd p. sv_connections s fd = Some p \<longrightarrow> (\<exists>c. sv_heap s p = Some c \<and> conn_fd c = fd)) \<and>
     dom (k_epoll (sv_kern s)) = dom (sv_connections s) \<and>
     dom (sv_connections s) \<subseteq> set (k_open (sv_kern s)) \<and>
     0 \<in> set (k_open (sv_kern s)) \<and> sock_fd (sv_listensock s) = L \<and> L \<in> dom (sv_connections s)"

text \<open>\<open>live\<close>: the pointer is to a client connection that is not deleted.\<close>

definition live :: "int \<Rightarrow> nat \<Rightarrow> server \<Rightarrow> bool" where
  "live L p s \<longleftrightarrow> (\<exists>c. sv_heap s p = Some c \<and> conn_fd c \<noteq> L)"

definition safe :: "('a \<Rightarrow> bool) \<Rightarrow> 'a outcome \<Rightarrow> bool" where
  "safe P m \<longleftrightarrow> (case m of Done x \<Rightarrow> P x
     | Crash e \<Rightarrow> e \<noteq> UseAfterFree \<and> e \<noteq> BadFunctionCall | Blocked \<Rightarrow> True)"

lemma safe_simps [simp]:
  "safe P (Done x) = P x" "safe P Blocked"
  "safe P (Crash e) \<longleftrightarrow> e \<noteq> UseAfterFree \<and> e \<noteq> BadFunctionCall"
  by (simp_all add: safe_def)

lemma safe_bind:
  "safe Q m \<Longrightarrow> (\<And>x. m = Done x \<Longrightarrow> Q x \<Longrightarrow> safe P (f x)) \<Longrightarrow> safe P (bind_out m f)"
  by (cases m) auto

lemma safe_mono: "safe Q m \<Longrightarrow> (\<And>x. Q x \<Longrightarrow> P x) \<Longrightarrow> safe P m"
  by (cases m) auto

lemma sv_ok_heap:
  "sv_ok L s \<Longrightarrow> sv_heap s p = Some c \<Longrightarrow>
   p < sv_next s \<and> sv_connections s (conn_fd c) = Some p \<and> conn_ok L c"
  by (simp add: sv_ok_def)

lemma sv_ok_table:
  "sv_ok L s \<Longrightarrow> sv_connections s fd = Some p \<Longrightarrow> \<exists>c. sv_heap s p = Some c \<and> conn_fd c = fd"
  by (simp add: sv_ok_def)

lemma sv_ok_put_kern:
  assumes "sv_ok L s" "k_open k = k_open (sv_kern s)"
    "dom (k_epoll k) = dom (k_epoll (sv_kern s))"
  shows "sv_ok L (put_kern k s)"
  using assms by (simp add: sv_ok_def put_kern_def)

lemma sv_ok_put_conn:
  assumes "sv_ok L s" "sv_heap s p = Some c" "conn_fd c' = conn_fd c" "conn_ok L c'"
  shows "sv_ok L (put_conn p c' s)"
proof -
  have "\<And>q d. ((sv_heap s)(p \<mapsto> c')) q = Some d \<Longrightarrow>
      q < sv_next s \<and> sv_connections s (conn_fd d) = Some q \<and> conn_ok L d"
    using assms sv_ok_heap [OF assms(1)] by (metis fun_upd_apply option.inject)
  moreover have "\<And>fd q. sv_connections s fd = Some q \<Longrightarrow>
      \<exists>d. ((sv_heap s)(p \<mapsto> c')) q = Some d \<and> conn_fd d = fd"
    using assms(2,3) sv_ok_table [OF assms(1)] by (metis fun_upd_apply option.inject)
  ultimately show ?thesis using assms(1) by (simp add: sv_ok_def put_conn_def)
qed

lemma conn_ok_update:
  "conn_ok L c \<Longrightarrow> conn_ok L (c\<lparr>conn_inbuffer := i\<rparr>)"
  "conn_ok L c \<Longrightarrow> conn_ok L (c\<lparr>conn_outbuffer := out\<rparr>)"
  "conn_ok L c \<Longrightarrow> ev AND EPOLLET \<noteq> 0 \<Longrightarrow> conn_ok L (c\<lparr>conn_events := ev\<rparr>)"
  by (simp_all add: conn_ok_def)

lemma put_sels [simp]:
  "sv_heap (put_kern k s) = sv_heap s" "sv_kern (put_kern k s) = k"
  "sv_kern (put_conn p c s) = sv_kern s" "sv_heap (put_conn p c s) = (sv_heap s)(p \<mapsto> c)"
  "sv_connections (put_kern k s) = sv_connections s"
  "sv_connections (put_conn p c s) = sv_connections s"
  "sv_listensock (put_kern k s) = sv_listensock s"
  "sv_listensock (put_conn p c s) = sv_listensock s"
  by (simp_all add: put_kern_def put_conn_def)

lemma deref_Some [simp]: "sv_heap s p = Some c \<Longrightarrow> deref s p = Done c"
  by (simp add: deref_def)

section \<open>Handlers of a client connection\<close>

lemma Excepter_safe:
  assumes "sv_ok L s" "live L p s"
  shows "\<exists>s'. call_excepter p s = Done s' \<and> sv_ok L s'"
proof -
  from assms(2) obtain c where c: "sv_heap s p = Some c" "conn_fd c \<noteq> L" by (auto simp: live_def)
  let ?fd = "conn_fd c"
  from sv_ok_heap [OF assms(1) c(1)] have t: "sv_connections s ?fd = Some p" "conn_ok L c"
    "0 < ?fd" by (auto simp: conn_ok_def)
  define s' where "s' = s\<lparr>sv_kern := k_close ?fd (snd (Epoll_DelEvent ?fd (sv_kern s))),
    sv_connections := (sv_connections s)(?fd := None), sv_heap := (sv_heap s)(p := None)\<rparr>"
  have "call_excepter p s = Done s'"
    using c t by (simp add: call_excepter_def Excepter_def conn_ok_def s'_def Let_def split: prod.split)
  moreover have "sv_ok L s'"
  proof -
    have k: "k_open (k_close ?fd (snd (Epoll_DelEvent ?fd (sv_kern s)))) = removeAll ?fd (k_open (sv_kern s))"
      "k_epoll (k_close ?fd (snd (Epoll_DelEvent ?fd (sv_kern s)))) = (k_epoll (sv_kern s))(?fd := None)"
      by (auto simp: k_close_def Epoll_DelEvent_def k_ctl_del_def)
    have inj: "sv_heap s q = Some d \<Longrightarrow> conn_fd d = ?fd \<Longrightarrow> q = p" for q d
      using sv_ok_heap [OF assms(1), of q d] t(1) by auto
    have heap: "q < sv_next s \<and> ((sv_connections s)(?fd := None)) (conn_fd d) = Some q \<and> conn_ok L d"
      if "((sv_heap s)(p := None)) q = Some d" for q d
      using that sv_ok_heap [OF assms(1), of q d] inj [of q d] by (auto split: if_splits)
    have table: "\<exists>d. ((sv_heap s)(p := None)) q = Some d \<and> conn_fd d = fd"
      if "((sv_connections s)(?fd := None)) fd = Some q" for fd q
      using that sv_ok_table [OF assms(1), of fd q] c(1) by (auto split: if_splits)
    have rest: "dom (k_epoll (sv_kern s)) = dom (sv_connections s)"
      "dom (sv_connections s) \<subseteq> set (k_open (sv_kern s))" "0 \<in> set (k_open (sv_kern s))"
      "sock_fd (sv_listensock s) = L" "L \<in> dom (sv_connections s)"
      using assms(1) by (simp_all add: sv_ok_def)
    have "dom ((k_epoll (sv_kern s))(?fd := None)) = dom ((sv_connections s)(?fd := None))"
      "dom ((sv_connections s)(?fd := None)) \<subseteq> set (removeAll ?fd (k_open (sv_kern s)))"
      "0 \<in> set (removeAll ?fd (k_open (sv_kern s)))"
      "L \<in> dom ((sv_connections s)(?fd := None))"
      using rest t(3) c(2) by auto
    with heap table rest(4) show ?thesis by (simp add: sv_ok_def s'_def k)
  qed
  ultimately show ?thesis by blast
qed

lemma call_excepter_flag_safe:
  assumes "sv_ok L s" "live L p s"
  shows "safe (\<lambda>(flag, s'). sv_ok L s' \<and> (flag \<longrightarrow> live L p s'))
    (bind_out (call_excepter p s) (\<lambda>s. Done (False, s)))"
  using Excepter_safe [OF assms] by auto

lemma recv_loop_safe:
  assumes "sv_ok L s" "live L p s"
  shows "safe (\<lambda>(ret, s'). sv_ok L s' \<and> (ret \<longrightarrow> live L p s')) (recv_loop cs p s)"
  using assms
proof (induction cs arbitrary: s)
  case Nil
  then show ?case by simp
next
  case (Cons call rest)
  obtain old r where call: "call = (old, r)" by (cases call)
  from Cons.prems(2) obtain c where c: "sv_heap s p = Some c" "conn_fd c \<noteq> L" by (auto simp: live_def)
  have cok: "conn_ok L c" using sv_ok_heap [OF Cons.prems(1) c(1)] by simp
  let ?k = "(sv_kern s)\<lparr>k_recvs := (k_recvs (sv_kern s))(conn_fd c := rest)\<rparr>"
  let ?s1 = "put_kern ?k s"
  have s1: "sv_ok L ?s1" "live L p ?s1" "sv_heap ?s1 p = Some c"
    using Cons.prems c by (auto intro: sv_ok_put_kern simp: live_def)
  note ex = call_excepter_flag_safe [OF s1(1,2)]
  have again: "safe (\<lambda>(ret, s'). sv_ok L s' \<and> (ret \<longrightarrow> live L p s'))
      (bind_out (deref s' p) (\<lambda>c. if conn_events c AND EPOLLET \<noteq> 0 then recv_loop rest p s' else Done (True, s')))"
    if "sv_ok L s'" "live L p s'" for s'
    using that Cons.IH [OF that] by (auto simp: live_def)
  have put: "sv_ok L (put_conn p (c\<lparr>conn_inbuffer := x\<rparr>) ?s1)"
    "live L p (put_conn p (c\<lparr>conn_inbuffer := x\<rparr>) ?s1)" for x
    using s1 c cok by (auto intro!: sv_ok_put_conn conn_ok_update simp: live_def)
  show ?case
  proof (cases r)
    case (RData data)
    have str: "safe (\<lambda>_. True) (c_string (recv_into old data))" by (simp add: c_string_def)
    show ?thesis
      using ex again [OF put] RData
      by (auto simp: call c(1) Let_def intro!: safe_bind [OF str])
  next
    case REof
    with ex show ?thesis by (simp add: call c(1) Let_def)
  next
    case (RErr e)
    with ex again [OF s1(1,2)] s1 show ?thesis
      by (cases e) (simp_all add: call c(1) Let_def)
  qed
qed

lemma HandleRecive_safe:
  assumes "sv_ok L s" "live L p s"
  shows "safe (\<lambda>(ret, s'). sv_ok L s' \<and> (ret \<longrightarrow> live L p s')) (HandleRecive p s)"
  using assms recv_loop_safe [OF assms] by (auto simp: HandleRecive_def live_def)

lemma send_loop_safe:
  assumes "sv_ok L s" "live L p s"
  shows "safe (\<lambda>(flag, s'). sv_ok L s' \<and> (flag \<longrightarrow> live L p s')) (send_loop rs p s)"
  using assms
proof (induction rs arbitrary: s)
  case Nil
  then show ?case by simp
next
  case (Cons call rest)
  obtain n e where call: "call = SRet n e" by (cases call)
  from Cons.prems(2) obtain c where c: "sv_heap s p = Some c" "conn_fd c \<noteq> L" by (auto simp: live_def)
  have cok: "conn_ok L c" using sv_ok_heap [OF Cons.prems(1) c(1)] by simp
  have kern: "sv_ok L (put_kern k s)" "live L p (put_kern k s)"
    if "k_open k = k_open (sv_kern s)" "k_epoll k = k_epoll (sv_kern s)" for k
    using Cons.prems c that by (auto intro: sv_ok_put_kern simp: live_def)
  have again: "safe (\<lambda>(ret, s'). sv_ok L s' \<and> (ret \<longrightarrow> live L p s'))
      (bind_out (deref s' p) (\<lambda>c. if conn_events c AND EPOLLET \<noteq> 0 then send_loop rest p s' else Done (True, s')))"
    if "sv_ok L s'" "live L p s'" for s'
    using that Cons.IH [OF that] by (auto simp: live_def)
  let ?k = "(sv_kern s)\<lparr>k_sends := (k_sends (sv_kern s))(conn_fd c := rest)\<rparr>"
  show ?case
  proof (cases "n > 0")
    case True
    define s2 where "s2 = put_conn p (c\<lparr>conn_outbuffer := drop (nat n) (conn_outbuffer c)\<rparr>)
      (put_kern (?k\<lparr>k_sent := (k_sent ?k)(conn_fd c := k_sent ?k (conn_fd c) @ take (nat n) (conn_outbuffer c))\<rparr>) s)"
    have "sv_ok L s2" "live L p s2"
      unfolding s2_def using kern c cok by (auto intro!: sv_ok_put_conn conn_ok_update simp: live_def)
    moreover have "send_loop (call # rest) p s =
        (if drop (nat n) (conn_outbuffer c) = [] then Done (True, s2)
         else bind_out (deref s2 p) (\<lambda>c. if conn_events c AND EPOLLET \<noteq> 0 then send_loop rest p s2 else Done (True, s2)))"
      using True by (simp add: call c(1) Let_def s2_def)
    ultimately show ?thesis using again [of s2] by simp
  next
    case False
    have k: "sv_ok L (put_kern ?k s)" "live L p (put_kern ?k s)" by (rule kern; simp)+
    show ?thesis
      using False again [OF k] call_excepter_flag_safe [OF k] k
      by (cases e) (simp_all add: call c(1) Let_def)
  qed
qed

lemma EPOLLET_set: "((a OR b) OR EPOLLET) AND EPOLLET \<noteq> 0"
proof -
  have "((a OR b) OR EPOLLET) AND EPOLLET = EPOLLET"
    by (simp add: bit_eq_iff bit_and_iff bit_or_iff)
  then show ?thesis by (simp add: EPOLLET_def)
qed

lemma EnableReadWrite_safe:
  assumes "sv_ok L s" "live L p s"
  shows "safe (\<lambda>(r, s'). sv_ok L s') (EnableReadWrite p rd wr s)"
proof -
  from assms(2) obtain c where c: "sv_heap s p = Some c" "conn_fd c \<noteq> L" by (auto simp: live_def)
  have cok: "conn_ok L c" using sv_ok_heap [OF assms(1) c(1)] by simp
  define ev where "ev = ((if rd then EPOLLIN else 0) OR (if wr then EPOLLOUT else 0)) OR EPOLLET"
  obtain r k where rk: "Epoll_ModEvent (conn_fd c) ev (sv_kern s) = (r, k)"
    by (cases "Epoll_ModEvent (conn_fd c) ev (sv_kern s)")
  then have k: "k_open k = k_open (sv_kern s)" "dom (k_epoll k) = dom (k_epoll (sv_kern s))"
    by (auto simp: Epoll_ModEvent_def k_ctl_mod_def split: if_splits)
  have "ev AND EPOLLET \<noteq> 0" unfolding ev_def by (rule EPOLLET_set)
  then have "sv_ok L (put_conn p (c\<lparr>conn_events := ev\<rparr>) s)"
    using assms(1) c(1) cok by (intro sv_ok_put_conn conn_ok_update) auto
  then have "sv_ok L (put_kern k (put_conn p (c\<lparr>conn_events := ev\<rparr>) s))"
    by (rule sv_ok_put_kern) (simp_all add: k)
  then show ?thesis
    by (simp add: EnableReadWrite_def c(1) Let_def ev_def [symmetric] rk)
qed

lemma call_sender_safe:
  assumes "sv_ok L s" "live L p s"
  shows "safe (sv_ok L) (call_sender p s)"
proof -
  from assms(2) obtain c where c: "sv_heap s p = Some c" "conn_fd c \<noteq> L" by (auto simp: live_def)
  have on: "conn_sender c = OnSend" using sv_ok_heap [OF assms(1) c(1)] c(2) by (simp add: conn_ok_def)
  have en: "safe (sv_ok L) (bind_out (EnableReadWrite p rd wr s1) (\<lambda>(r, s2). Done s2))"
    if "sv_ok L s1" "live L p s1" for s1 rd wr
    by (rule safe_bind [OF EnableReadWrite_safe [OF that]]) auto
  have "safe (sv_ok L) (bind_out (send_loop rs p s) (\<lambda>(flag, s1).
       if \<not> flag then Done s1
       else bind_out (deref s1 p) (\<lambda>c1.
         if conn_outbuffer c1 \<noteq> []
         then bind_out (EnableReadWrite p True True s1) (\<lambda>(r, s2). Done s2)
         else bind_out (EnableReadWrite p True False s1) (\<lambda>(r, s2). Done s2))))" for rs
    by (rule safe_bind [OF send_loop_safe [OF assms]]) (use en in \<open>auto simp: live_def\<close>)
  then show ?thesis by (simp add: call_sender_def c(1) on Sender_def)
qed


section \<open>Accepting and the event loop\<close>

lemma AddConnection_cases:
  assumes "sv_ok L s0" "fd \<notin> dom (sv_connections s0)" "fd > 0" "fd \<noteq> L"
    and "k_open k = fd # k_open (sv_kern s0)" "k_epoll k = k_epoll (sv_kern s0)"
  shows "safe (\<lambda>s'. sv_ok L s' \<and> (\<forall>p c. sv_heap s0 p = Some c \<longrightarrow> sv_heap s' p = Some c))
    (AddConnection fd (EPOLLIN OR EPOLLET) ip port (put_kern k s0))"
proof -
  let ?ev = "EPOLLIN OR EPOLLET"
  define cn where "cn = (Register OnRecv OnSend OnExcept (connection_new fd ip port))\<lparr>conn_events := ?ev\<rparr>"
  have ev: "?ev AND EPOLLET \<noteq> 0" using EPOLLET_set [of EPOLLIN 0] by simp
  have cn: "conn_fd cn = fd" "conn_ok L cn"
    using assms(3,4) ev by (simp_all add: cn_def Register_def connection_new_def conn_ok_def)
  have L: "sock_fd (sv_listensock s0) = L" using assms(1) by (simp add: sv_ok_def)
  define s' where "s' = s0\<lparr>sv_heap := (sv_heap s0)(sv_next s0 \<mapsto> cn), sv_next := Suc (sv_next s0),
    sv_connections := (sv_connections s0)(fd \<mapsto> sv_next s0),
    sv_kern := (SetNonBlock fd k)\<lparr>k_epoll := (k_epoll k)(fd \<mapsto> ?ev)\<rparr>\<rparr>"
  have r: "AddConnection fd ?ev ip port (put_kern k s0) =
      (if k_watch k fd then Done s' else Crash AssertFailed)"
  proof -
    from assms(1,2) have "k_epoll (sv_kern s0) fd = None" by (auto simp: sv_ok_def)
    with assms(2,4-6) L ev show ?thesis
      by (auto simp: AddConnection_def Let_def put_kern_def Epoll_AddEvent_def k_ctl_add_def
          SetNonBlock_def s'_def cn_def connection_new_def Register_def)
  qed
  have old: "p < sv_next s0" if "sv_heap s0 p = Some c" for p c
    using sv_ok_heap [OF assms(1) that] by simp
  have "q < Suc (sv_next s0) \<and> ((sv_connections s0)(fd \<mapsto> sv_next s0)) (conn_fd d) = Some q \<and> conn_ok L d"
    if "((sv_heap s0)(sv_next s0 \<mapsto> cn)) q = Some d" for q d
  proof (cases "q = sv_next s0")
    case True
    with that cn show ?thesis by simp
  next
    case False
    with that have "sv_heap s0 q = Some d" by simp
    from sv_ok_heap [OF assms(1) this] assms(2) show ?thesis by auto
  qed
  moreover have "\<exists>d. ((sv_heap s0)(sv_next s0 \<mapsto> cn)) q = Some d \<and> conn_fd d = g"
    if "((sv_connections s0)(fd \<mapsto> sv_next s0)) g = Some q" for g q
  proof (cases "g = fd")
    case True
    with that cn show ?thesis by simp
  next
    case False
    with that obtain d where "sv_heap s0 q = Some d" "conn_fd d = g"
      using sv_ok_table [OF assms(1), of g q] by auto
    with old show ?thesis by fastforce
  qed
  moreover have "dom (k_epoll (sv_kern s0)) = dom (sv_connections s0)"
    "dom (sv_connections s0) \<subseteq> set (k_open (sv_kern s0))" "0 \<in> set (k_open (sv_kern s0))"
    "L \<in> dom (sv_connections s0)"
    using assms(1) by (simp_all add: sv_ok_def)
  ultimately have "sv_ok L s'"
    using L assms(5,6) by (simp add: sv_ok_def s'_def SetNonBlock_def subset_insertI2)
  moreover have "sv_heap s0 p = Some c \<Longrightarrow> sv_heap s' p = Some c" for p c
    using old by (fastforce simp: s'_def)
  ultimately show ?thesis unfolding r by simp
qed

lemma Accepter_safe:
  assumes "sv_ok L s" "sv_heap s p = Some c"
  shows "safe (sv_ok L) (Accepter p s)"
  using assms
proof (induction p s arbitrary: c rule: Accepter.induct)
  case (1 p s)
  show ?case
  proof (cases "k_accept (sv_kern s)")
    case Blocked
    then show ?thesis by (simp add: Accepter.simps [of p s] sock_Accept_def)
  next
    case (Crash e)
    then have False by (auto simp: k_accept_def k_new_fd_def Let_def split: list.splits accept_res.splits)
    then show ?thesis ..
  next
    case (Done rk)
    obtain r k where rk: "rk = (r, k)" by (cases rk)
    note acc = Done [unfolded rk]
    show ?thesis
    proof (cases r)
      case (Inr e)
      note k = k_accept_Inr [OF acc [unfolded Inr]]
      have sa: "sock_Accept (sv_listensock s) (sv_kern s) = Done ((- 1, None, Some e), k)"
        using acc Inr by (simp add: sock_Accept_def)
      have ok: "sv_ok L (put_kern k s)" by (rule sv_ok_put_kern [OF "1.prems"(1)]) (simp_all add: k)
      have cok: "sv_heap (put_kern k s) p = Some c" using "1.prems"(2) by simp
      have "safe (sv_ok L) (Accepter p (put_kern k s))" if "e \<noteq> EAGAIN" "conn_events c OR EPOLLET \<noteq> 0"
        by (rule "1.IH"(2) [OF sa refl refl refl _ _ _ _ ok cok]) (use that cok in auto)
      with ok cok show ?thesis by (simp add: Accepter.simps [of p s] sa)
    next
      case (Inl n)
      obtain fd ip port where n: "n = (fd, ip, port)" by (cases n)
      note k = k_accept_Inl [OF acc [unfolded Inl n]]
      have sa: "sock_Accept (sv_listensock s) (sv_kern s) = Done ((fd, Some (ip, port), None), k)"
        using acc Inl n by (simp add: sock_Accept_def)
      have zero: "0 \<in> set (k_open (sv_kern s))" using "1.prems"(1) by (simp add: sv_ok_def)
      have pos: "fd > 0" using lowest_fd_pos [OF zero] k(1) by simp
      have fresh: "fd \<notin> dom (sv_connections s)" "fd \<noteq> L"
        using "1.prems"(1) lowest_fd_fresh [of "k_open (sv_kern s)"] k(1) by (auto simp: sv_ok_def)
      have "safe (sv_ok L) (bind_out (AddConnection fd (EPOLLIN OR EPOLLET) ip port (put_kern k s))
           (\<lambda>s1. bind_out (deref s1 p) (\<lambda>c.
             if conn_events c OR EPOLLET \<noteq> 0 then Accepter p s1 else Done s1)))"
      proof (rule safe_bind [OF AddConnection_cases [OF "1.prems"(1) fresh(1) pos fresh(2) k(2,3)]])
        fix s1
        assume add: "AddConnection fd (EPOLLIN OR EPOLLET) ip port (put_kern k s) = Done s1"
          and s1: "sv_ok L s1 \<and> (\<forall>p c. sv_heap s p = Some c \<longrightarrow> sv_heap s1 p = Some c)"
        with "1.prems"(2) have h: "sv_heap s1 p = Some c" by blast
        have "safe (sv_ok L) (Accepter p s1)" if "conn_events c OR EPOLLET \<noteq> 0"
          by (rule "1.IH"(1) [OF sa refl refl refl _ _ _ _ _ h]) (use that add h s1 pos in auto)
        then show "safe (sv_ok L) (bind_out (deref s1 p) (\<lambda>c.
             if conn_events c OR EPOLLET \<noteq> 0 then Accepter p s1 else Done s1))"
          using h s1 by simp
      qed
      with pos show ?thesis by (simp add: Accepter.simps [of p s] sa)
    qed
  qed
qed


definition json_safe :: "json_lib \<Rightarrow> bool" where
  "json_safe J \<longleftrightarrow> (\<forall>t key. safe (\<lambda>_. True) (jget J t key))"

lemma safe_ignore: "safe P m \<Longrightarrow> safe (\<lambda>_. True) m"
  by (rule safe_mono) auto

lemma respond_safe:
  assumes "json_safe J" "\<And>req. safe (\<lambda>_. True) (f req)"
  shows "safe (\<lambda>_. True) (respond J f payload)"
proof -
  have "safe (\<lambda>_. True) (Request_deserialize J t)" for t
    unfolding Request_deserialize_def
    by (intro safe_bind [where Q = "\<lambda>_. True"]) (use assms(1) in \<open>auto simp: json_safe_def\<close>)
  with assms(2) show ?thesis
    unfolding respond_def by (intro safe_bind [where Q = "\<lambda>_. True"]) auto
qed

lemma request_loop_safe:
  assumes "json_safe J" "\<And>req. safe (\<lambda>_. True) (f req)"
  shows "safe (\<lambda>_. True) (request_loop J f inb outb)"
proof (induction "length inb" arbitrary: inb outb rule: less_induct)
  case less
  obtain len req inb' where r: "readPackage inb = (len, req, inb')" by (cases "readPackage inb")
  show ?case
  proof (cases "len > 0")
    case False
    with r show ?thesis by (simp add: request_loop.simps [of J f inb])
  next
    case True
    have hdr: "safe (\<lambda>_. True) (removeHeader req len)"
      by (simp add: removeHeader_def Let_def substr_def)
    have "safe (\<lambda>_. True) (bind_out (removeHeader req len) (\<lambda>payload.
             bind_out (respond J f payload) (\<lambda>responseStr.
               request_loop J f inb' (outb @ responseStr))))"
    proof (rule safe_bind [OF hdr])
      fix q assume "removeHeader req len = Done q"
      with readPackage_progress [OF r True] have "length inb' < length inb" by blast
      then have "safe (\<lambda>_. True) (request_loop J f inb' out)" for out by (rule less)
      then show "safe (\<lambda>_. True) (bind_out (respond J f q) (\<lambda>responseStr.
               request_loop J f inb' (outb @ responseStr)))"
        by (intro safe_bind [OF respond_safe [OF assms]])
    qed
    with True r show ?thesis by (simp add: request_loop.simps [of J f inb])
  qed
qed

lemma HandleRequest_safe:
  assumes "sv_ok L s" "live L p s" "json_safe J" "\<And>req. safe (\<lambda>_. True) (f req)"
  shows "safe (\<lambda>s'. sv_ok L s' \<and> live L p s') (HandleRequest J f p s)"
proof -
  from assms(2) obtain c where c: "sv_heap s p = Some c" "conn_fd c \<noteq> L" by (auto simp: live_def)
  have cok: "conn_ok L c" using sv_ok_heap [OF assms(1) c(1)] by simp
  have put: "sv_ok L (put_conn p (c\<lparr>conn_inbuffer := i, conn_outbuffer := out\<rparr>) s) \<and>
    live L p (put_conn p (c\<lparr>conn_inbuffer := i, conn_outbuffer := out\<rparr>) s)" for i out
    using assms(1) c cok by (auto intro!: sv_ok_put_conn conn_ok_update simp: live_def)
  have "safe (\<lambda>s'. sv_ok L s' \<and> live L p s')
    (bind_out (request_loop J f (conn_inbuffer c) (conn_outbuffer c)) (\<lambda>(inb, outb).
       Done (put_conn p (c\<lparr>conn_inbuffer := inb, conn_outbuffer := outb\<rparr>) s)))"
    by (rule safe_bind [OF request_loop_safe [OF assms(3,4)]]) (use put in auto)
  with c show ?thesis by (simp add: HandleRequest_def)
qed

lemma Reciver_safe:
  assumes "sv_ok L s" "live L p s" "json_safe J" "\<And>req. safe (\<lambda>_. True) (f req)"
  shows "safe (sv_ok L) (Reciver J f p s)"
proof -
  have step: "safe (sv_ok L) (bind_out (deref s2 p) (\<lambda>c.
           if conn_outbuffer c \<noteq> [] then call_sender p s2 else Done s2))"
    if "sv_ok L s2" "live L p s2" for s2
    using that call_sender_safe [OF that] by (auto simp: live_def)
  have "safe (sv_ok L) (if \<not> ret then Done s1
       else bind_out (HandleRequest J f p s1) (\<lambda>s2.
         bind_out (deref s2 p) (\<lambda>c.
           if conn_outbuffer c \<noteq> [] then call_sender p s2 else Done s2)))"
    if "sv_ok L s1" "ret \<longrightarrow> live L p s1" for ret s1
  proof (cases ret)
    case True
    with that have live: "live L p s1" by simp
    have "safe (sv_ok L) (bind_out (HandleRequest J f p s1) (\<lambda>s2.
         bind_out (deref s2 p) (\<lambda>c.
           if conn_outbuffer c \<noteq> [] then call_sender p s2 else Done s2)))"
      by (rule safe_bind [OF HandleRequest_safe [OF that(1) live assms(3,4)]]) (use step in blast)
    with True show ?thesis by simp
  next
    case False
    with that show ?thesis by simp
  qed
  then show ?thesis
    unfolding Reciver_def by (intro safe_bind [OF HandleRecive_safe [OF assms(1,2)]]) auto
qed

lemma call_reciver_safe:
  assumes "sv_ok L s" "sv_connections s fd = Some p" "json_safe J" "\<And>req. safe (\<lambda>_. True) (f req)"
  shows "safe (sv_ok L) (call_reciver J f p s)"
proof -
  from sv_ok_table [OF assms(1,2)] obtain c where c: "sv_heap s p = Some c" by blast
  have cok: "conn_ok L c" using sv_ok_heap [OF assms(1) c(1)] by simp
  show ?thesis
  proof (cases "conn_fd c = L")
    case True
    with cok c Accepter_safe [OF assms(1) c] show ?thesis
      by (simp add: call_reciver_def conn_ok_def)
  next
    case False
    with c have "live L p s" by (simp add: live_def)
    with False cok c Reciver_safe [OF assms(1) _ assms(3,4)] show ?thesis
      by (simp add: call_reciver_def conn_ok_def)
  qed
qed

text \<open>The listening socket reports readability only.\<close>

definition listen_event_ok :: "int \<Rightarrow> int \<times> 32 word \<Rightarrow> bool" where
  "listen_event_ok L ready \<longleftrightarrow> (fst ready = L \<longrightarrow> snd ready AND EPOLLOUT = 0 \<and>
     snd ready AND EPOLLERR = 0 \<and> snd ready AND EPOLLHUP = 0)"

lemma dispatch_event_safe:
  assumes "sv_ok L s" "listen_event_ok L ready" "json_safe J" "\<And>req. safe (\<lambda>_. True) (f req)"
  shows "safe (sv_ok L) (dispatch_event J f ready s)"
proof -
  let ?fd = "fst ready"
  define event where "event = (if snd ready AND EPOLLERR \<noteq> 0 \<or> snd ready AND EPOLLHUP \<noteq> 0
                   then snd ready OR (EPOLLIN OR EPOLLOUT) else snd ready)"
  have r: "safe (sv_ok L) (if event AND EPOLLIN \<noteq> 0 \<and> ConnectionIsExists ?fd s
            then call_reciver J f (the (sv_connections s ?fd)) s else Done s)"
    using assms(1) by (auto simp: ConnectionIsExists_def intro!: call_reciver_safe assms)
  have w: "safe (sv_ok L) (if event AND EPOLLOUT \<noteq> 0 \<and> ConnectionIsExists ?fd s1
             then call_sender (the (sv_connections s1 ?fd)) s1 else Done s1)" if "sv_ok L s1" for s1
  proof (cases "event AND EPOLLOUT \<noteq> 0 \<and> ConnectionIsExists ?fd s1")
    case True
    then obtain p where p: "sv_connections s1 ?fd = Some p" by (auto simp: ConnectionIsExists_def)
    have "?fd \<noteq> L"
      using True assms(2) by (auto simp: listen_event_ok_def event_def)
    with sv_ok_table [OF that p] have "live L p s1" by (auto simp: live_def)
    with that True p show ?thesis by (simp add: call_sender_safe)
  next
    case False
    with that show ?thesis by auto
  qed
  show ?thesis
    unfolding dispatch_event_def Let_def event_def [symmetric]
    by (rule safe_bind [OF r]) (rule w)
qed

lemma LoopOnce_safe:
  assumes "\<And>e. e \<in> set es \<Longrightarrow> listen_event_ok L e" "json_safe J" "\<And>req. safe (\<lambda>_. True) (f req)"
  shows "sv_ok L s \<Longrightarrow> safe (sv_ok L) (LoopOnce J f es s)"
  using assms(1)
proof (induction es arbitrary: s)
  case Nil
  then show ?case by simp
next
  case (Cons e es)
  then show ?case
    using dispatch_event_safe [OF Cons.prems(1) _ assms(2,3), of e]
    by (auto intro: safe_bind [where Q = "sv_ok L"])
qed

lemma Dispatcher_safe:
  assumes "\<And>es e. es \<in> set rs \<Longrightarrow> e \<in> set es \<Longrightarrow> listen_event_ok L e" "json_safe J"
    "\<And>req. safe (\<lambda>_. True) (f req)"
  shows "sv_ok L s \<Longrightarrow> safe (sv_ok L) (Dispatcher J f rs s)"
  using assms(1)
proof (induction rs arbitrary: s)
  case Nil
  then show ?case by simp
next
  case (Cons es rs)
  have "safe (sv_ok L) (LoopOnce J f es s)"
    by (rule LoopOnce_safe [OF _ assms(2,3) Cons.prems(1)]) (use Cons.prems(2) in auto)
  with Cons show ?case
    by (auto intro!: safe_bind [where Q = "sv_ok L"])
qed

lemma Init_Server_ok:
  assumes "Init_Server port k = Done s" "0 \<in> set (k_open k)" "k_epoll k = (\<lambda>_. None)"
  shows "sv_ok (sock_fd (sv_listensock s)) s"
proof -
  from assms(1) obtain so k1 ep k2 where
    ol: "open_listener port k = Done (so, k1)" and ep: "Epoll_Create k1 = Done (ep, k2)"
    and add: "AddConnection (sock_fd so) (EPOLLIN OR EPOLLET) ''127.0.0.1'' 8888
         \<lparr>sv_heap = (\<lambda>_. None), sv_next = 0, sv_connections = (\<lambda>_. None),
          sv_listensock = so, sv_epoll = ep, sv_kern = k2\<rparr> = Done s"
    by (auto simp: Init_Server_def)
  note k1 = open_listener_Done [OF ol]
  from ep have k2: "k_open k2 = epfd ep # k_open k1" "k_epoll k2 = k_epoll k1"
    by (auto simp: Epoll_Create_def k_new_fd_def Let_def split: if_splits)
  have pos: "sock_fd so > 0" using k1(1) lowest_fd_pos [OF assms(2)] by simp
  have ev: "(EPOLLIN OR EPOLLET) AND EPOLLET \<noteq> 0" using EPOLLET_set [of EPOLLIN 0] by simp
  from add ev have s: "sv_heap s = [0 \<mapsto> (Register OnAccept NoSender NoExcepter
        (connection_new (sock_fd so) ''127.0.0.1'' 8888))\<lparr>conn_events := EPOLLIN OR EPOLLET\<rparr>]"
      "sv_next s = 1" "sv_connections s = [sock_fd so \<mapsto> 0]" "sv_listensock s = so"
      "k_open (sv_kern s) = k_open k2" "k_epoll (sv_kern s) = (k_epoll k2)(sock_fd so \<mapsto> EPOLLIN OR EPOLLET)"
    by (auto simp: AddConnection_def Let_def Epoll_AddEvent_def k_ctl_add_def SetNonBlock_def
        connection_new_def split: if_splits)
  show ?thesis
    using pos ev k1 k2 assms(2,3)
    by (simp add: sv_ok_def s conn_ok_def Register_def connection_new_def)
qed

end
