(* ===== verification/EpollService.thy ===== *)
theory EpollService
  imports EpollSafety
begin

text \<open>
  What the reactor does for one client: the bytes it takes in, the requests it answers, the
  bytes it hands to the kernel. The lemmas give the exact effect of every handler on the
  connection and on its part of the kernel; the properties put them together.
\<close>

section \<open>One connection and its part of the kernel\<close>

definition conn_state ::
  "nat \<Rightarrow> server \<Rightarrow> connection \<Rightarrow> recv_call list \<Rightarrow> send_res list \<Rightarrow> string \<Rightarrow> bool" where
  "conn_state p s c rs ss sent \<longleftrightarrow>
     sv_heap s p = Some c \<and> sv_connections s (conn_fd c) = Some p \<and>
     k_recvs (sv_kern s) (conn_fd c) = rs \<and> k_sends (sv_kern s) (conn_fd c) = ss \<and>
     k_sent (sv_kern s) (conn_fd c) = sent"

definition client_conn :: "connection \<Rightarrow> bool" where
  "client_conn c \<longleftrightarrow> conn_reciver c = OnRecv \<and> conn_sender c = OnSend \<and>
     conn_excepter c = OnExcept \<and> conn_events c AND EPOLLET \<noteq> 0"

lemma client_conn_update [simp]:
  "client_conn (c\<lparr>conn_inbuffer := i\<rparr>) = client_conn c"
  "client_conn (c\<lparr>conn_outbuffer := out\<rparr>) = client_conn c"
  by (simp_all add: client_conn_def)

text \<open>\<open>data_calls cs\<close>: the calls of \<open>recv\<close> that deliver the chunks \<open>cs\<close>, each with the old contents
  of the array it is written to.\<close>

definition data_calls :: "(string \<times> string) list \<Rightarrow> recv_call list" where
  "data_calls cs = map (\<lambda>(old, d). (old, RData d)) cs"

definition appended :: "string \<times> string \<Rightarrow> string" where
  "appended call = (case call of (old, d) \<Rightarrow> c_str (recv_into old d))"

definition delivers :: "string \<times> string \<Rightarrow> bool" where
  "delivers call \<longleftrightarrow> (case call of (old, d) \<Rightarrow> d \<noteq> [] \<and> NUL \<in> set (recv_into old d))"

lemma recv_loop_data:
  assumes "conn_state p s c rs ss sent" "client_conn c" "list_all delivers cs"
  shows "\<exists>s'. recv_loop (data_calls cs @ (old, RErr EAGAIN) # rest) p s = Done (True, s') \<and>
    conn_state p s' (c\<lparr>conn_inbuffer := conn_inbuffer c @ concat (map appended cs)\<rparr>) rest ss sent"
  using assms
proof (induction cs arbitrary: s c rs)
  case Nil
  then show ?case by (simp add: data_calls_def conn_state_def Let_def)
next
  case (Cons call cs)
  obtain od d where call: "call = (od, d)" by (cases call)
  define k where "k = (sv_kern s)\<lparr>k_recvs := (k_recvs (sv_kern s))(conn_fd c := data_calls cs @ (old, RErr EAGAIN) # rest)\<rparr>"
  define c1 where "c1 = c\<lparr>conn_inbuffer := conn_inbuffer c @ appended call\<rparr>"
  define s1 where "s1 = put_conn p c1 (put_kern k s)"
  have st: "conn_state p s1 c1 (data_calls cs @ (old, RErr EAGAIN) # rest) ss sent" "client_conn c1"
    using Cons.prems(1,2) by (simp_all add: conn_state_def s1_def k_def c1_def)
  have "recv_loop (data_calls (call # cs) @ (old, RErr EAGAIN) # rest) p s
      = recv_loop (data_calls cs @ (old, RErr EAGAIN) # rest) p s1"
    using Cons.prems
    by (simp add: data_calls_def call conn_state_def delivers_def c_string_def Let_def s1_def k_def
        c1_def appended_def client_conn_def)
  moreover have "list_all delivers cs" using Cons.prems(3) by simp
  ultimately show ?case
    using Cons.IH [OF st] by (simp add: c1_def)
qed

text \<open>Sending: no error, and enough calls that find the kernel's buffer full.\<close>

definition sends_ok :: "send_res list \<Rightarrow> bool" where
  "sends_ok ss \<longleftrightarrow> (\<forall>n e. SRet n e \<in> set ss \<longrightarrow> 0 < n \<or> e = EAGAIN \<or> e = EINTR)"

definition fulls :: "send_res list \<Rightarrow> nat" where
  "fulls ss = length (filter (\<lambda>r. case r of SRet n e \<Rightarrow> \<not> 0 < n \<and> e = EAGAIN) ss)"

lemma send_loop_conserves:
  assumes "conn_state p s c rs ss sent" "client_conn c" "sends_ok ss" "0 < fulls ss"
  shows "\<exists>s' left sent' ss'. send_loop ss p s = Done (True, s') \<and>
    conn_state p s' (c\<lparr>conn_outbuffer := left\<rparr>) rs ss' sent' \<and>
    sent' @ left = sent @ conn_outbuffer c \<and> sends_ok ss' \<and> fulls ss \<le> Suc (fulls ss')"
  using assms
proof (induction ss arbitrary: s c sent)
  case Nil
  then show ?case by (simp add: fulls_def)
next
  case (Cons r rest)
  obtain n e where r: "r = SRet n e" by (cases r)
  have ok: "sends_ok rest" using Cons.prems(3) by (auto simp: sends_ok_def)
  define k where "k = (sv_kern s)\<lparr>k_sends := (k_sends (sv_kern s))(conn_fd c := rest)\<rparr>"
  show ?case
  proof (cases "0 < n")
    case True
    define sent1 where "sent1 = sent @ take (nat n) (conn_outbuffer c)"
    define left where "left = drop (nat n) (conn_outbuffer c)"
    define c1 where "c1 = c\<lparr>conn_outbuffer := left\<rparr>"
    define s1 where "s1 = put_conn p c1
      (put_kern (k\<lparr>k_sent := (k_sent k)(conn_fd c := k_sent k (conn_fd c) @ take (nat n) (conn_outbuffer c))\<rparr>) s)"
    have st: "conn_state p s1 c1 rs rest sent1" "client_conn c1"
      using Cons.prems(1,2) by (simp_all add: conn_state_def s1_def c1_def k_def sent1_def)
    have full: "fulls (r # rest) = fulls rest" using True r by (simp add: fulls_def)
    have sum: "sent1 @ left = sent @ conn_outbuffer c" by (simp add: sent1_def left_def)
    have eq: "send_loop (r # rest) p s = (if left = [] then Done (True, s1) else send_loop rest p s1)"
      using Cons.prems(1,2) True
      by (simp add: r conn_state_def Let_def s1_def c1_def left_def k_def client_conn_def)
    show ?thesis
    proof (cases "left = []")
      case True
      with eq st sum ok full show ?thesis
        by (intro exI [of _ s1] exI [of _ "[]"] exI [of _ sent1] exI [of _ rest]) (simp add: c1_def)
    next
      case False
      have "0 < fulls rest" using Cons.prems(4) full by simp
      from Cons.IH [OF st ok this] sum eq False full show ?thesis
        by (simp add: c1_def) 
    qed
  next
    case False
    with Cons.prems(3) r have e: "e = EAGAIN \<or> e = EINTR" by (auto simp: sends_ok_def)
    have st: "conn_state p (put_kern k s) c rs rest sent"
      using Cons.prems(1) by (simp add: conn_state_def k_def)
    show ?thesis
    proof (cases "e = EAGAIN")
      case True
      have "send_loop (r # rest) p s = Done (True, put_kern k s)"
        using Cons.prems(1) False True by (simp add: r conn_state_def Let_def k_def)
      moreover have "fulls (r # rest) = Suc (fulls rest)" using False True r by (simp add: fulls_def)
      ultimately show ?thesis using st ok
        by (intro exI [of _ "put_kern k s"] exI [of _ "conn_outbuffer c"] exI [of _ sent]
            exI [of _ rest]) simp
    next
      case eintr: False
      with e have e: "e = EINTR" by simp
      have "send_loop (r # rest) p s = send_loop rest p (put_kern k s)"
        using Cons.prems(1,2) False e
        by (simp add: r conn_state_def Let_def k_def client_conn_def)
      moreover have full: "fulls (r # rest) = fulls rest" using e r by (simp add: fulls_def)
      moreover have "0 < fulls rest" using Cons.prems(4) full by simp
      ultimately show ?thesis using Cons.IH [OF st Cons.prems(2) ok] by simp
    qed
  qed
qed

text \<open>After \<open>Sender\<close> the connection is watched for writing exactly if something is left to send.\<close>

definition watched :: "server \<Rightarrow> connection \<Rightarrow> bool" where
  "watched s c \<longleftrightarrow> conn_events c = EPOLLIN OR (if conn_outbuffer c \<noteq> [] then EPOLLOUT else 0) OR EPOLLET \<and>
     (k_epoll (sv_kern s) (conn_fd c) \<noteq> None \<longrightarrow> k_epoll (sv_kern s) (conn_fd c) = Some (conn_events c))"

lemma EnableReadWrite_state:
  assumes "conn_state p s c rs ss sent" "client_conn c"
  shows "\<exists>r s' c'. EnableReadWrite p True (conn_outbuffer c \<noteq> []) s = Done (r, s') \<and>
    conn_state p s' c' rs ss sent \<and> client_conn c' \<and> conn_fd c' = conn_fd c \<and>
    conn_inbuffer c' = conn_inbuffer c \<and> conn_outbuffer c' = conn_outbuffer c \<and> watched s' c'"
proof -
  define ev where "ev = ((if True then EPOLLIN else 0) OR (if conn_outbuffer c \<noteq> [] then EPOLLOUT else 0)) OR EPOLLET"
  have "ev AND EPOLLET \<noteq> 0" unfolding ev_def by (rule EPOLLET_set)
  moreover have "ev = EPOLLIN OR (if conn_outbuffer c \<noteq> [] then EPOLLOUT else 0) OR EPOLLET"
    by (simp add: ev_def or.assoc)
  moreover obtain r k where rk: "Epoll_ModEvent (conn_fd c) ev (sv_kern s) = (r, k)"
    by (cases "Epoll_ModEvent (conn_fd c) ev (sv_kern s)")
  moreover have k: "k_recvs k = k_recvs (sv_kern s)" "k_sends k = k_sends (sv_kern s)"
    "k_sent k = k_sent (sv_kern s)"
    "k_epoll k (conn_fd c) \<noteq> None \<longrightarrow> k_epoll k (conn_fd c) = Some ev"
    using rk by (auto simp: Epoll_ModEvent_def k_ctl_mod_def split: if_splits)
  moreover have "EnableReadWrite p True (conn_outbuffer c \<noteq> []) s
      = Done (r, put_kern k (put_conn p (c\<lparr>conn_events := ev\<rparr>) s))"
    using assms(1) rk by (simp add: EnableReadWrite_def conn_state_def Let_def ev_def)
  ultimately show ?thesis using assms
    by (intro exI [of _ r] exI [of _ "put_kern k (put_conn p (c\<lparr>conn_events := ev\<rparr>) s)"]
        exI [of _ "c\<lparr>conn_events := ev\<rparr>"])
      (simp add: conn_state_def client_conn_def watched_def)
qed

lemma call_sender_state:
  assumes "conn_state p s c rs ss sent" "client_conn c" "sends_ok ss" "0 < fulls ss"
  shows "\<exists>s' c' ss' sent'. call_sender p s = Done s' \<and> conn_state p s' c' rs ss' sent' \<and>
    client_conn c' \<and> conn_fd c' = conn_fd c \<and> conn_inbuffer c' = conn_inbuffer c \<and>
    sent' @ conn_outbuffer c' = sent @ conn_outbuffer c \<and> sends_ok ss' \<and>
    fulls ss \<le> Suc (fulls ss') \<and> watched s' c'"
proof -
  obtain s1 left sent' ss' where sl: "send_loop ss p s = Done (True, s1)"
    "conn_state p s1 (c\<lparr>conn_outbuffer := left\<rparr>) rs ss' sent'"
    "sent' @ left = sent @ conn_outbuffer c" "sends_ok ss'" "fulls ss \<le> Suc (fulls ss')"
    using send_loop_conserves [OF assms] by blast
  have cc: "client_conn (c\<lparr>conn_outbuffer := left\<rparr>)" using assms(2) by simp
  obtain r s' c' where e: "EnableReadWrite p True (left \<noteq> []) s1 = Done (r, s')"
    "conn_state p s' c' rs ss' sent'" "client_conn c'" "conn_fd c' = conn_fd c"
    "conn_inbuffer c' = conn_inbuffer c" "conn_outbuffer c' = left" "watched s' c'"
    using EnableReadWrite_state [OF sl(2) cc] by auto
  have "call_sender p s = Done s'"
    using assms(1,2) sl(1,2) e(1)
    by (auto simp: call_sender_def Sender_def conn_state_def client_conn_def)
  with sl e show ?thesis by blast
qed

section \<open>Answering in order\<close>

fun respond_all ::
  "json_lib \<Rightarrow> (request \<Rightarrow> response outcome) \<Rightarrow> string list \<Rightarrow> string outcome" where
  "respond_all J f [] = Done []"
| "respond_all J f (p # ps) =
     bind_out (respond J f p) (\<lambda>r. bind_out (respond_all J f ps) (\<lambda>rs. Done (r @ rs)))"

lemma request_loop_frames:
  assumes "list_all payload_ok ps"
  shows "request_loop J f (concat (map addHeader ps) @ b) outb =
    bind_out (respond_all J f ps) (\<lambda>rs. request_loop J f b (outb @ rs))"
  using assms
proof (induction ps arbitrary: outb)
  case Nil
  then show ?case by simp
next
  case (Cons p ps)
  from Cons.prems have "length p < 2 ^ 30" "p \<noteq> []" by (simp_all add: payload_ok_def)
  with Cons show ?case
    by (simp add: request_loop.simps [of J f "addHeader p @ _"] readPackage_frame removeHeader_frame
        bind_out_assoc)
qed

lemma request_loop_partial:
  "payload_ok p \<Longrightarrow> addHeader p = b @ c \<Longrightarrow> c \<noteq> [] \<Longrightarrow> request_loop J f b outb = Done (b, outb)"
  using readPackage_partial [of p b c]
  by (simp add: request_loop.simps [of J f b] payload_ok_def)

lemma request_loop_nil: "request_loop J f [] outb = Done ([], outb)"
  by (simp add: request_loop.simps [of J f "[]"] readPackage_def str_find_0 HEAD_SEP_def)


lemma bind_out_Done: "bind_out m Done = m"
  by (cases m) auto

lemma respond_all_append:
  "respond_all J f (ps @ qs) =
     bind_out (respond_all J f ps) (\<lambda>rs. bind_out (respond_all J f qs) (\<lambda>ss. Done (rs @ ss)))"
  by (induction ps) (simp_all add: bind_out_assoc bind_out_Done)

lemma HandleRequest_state:
  assumes "conn_state p s c rs ss sent" "client_conn c"
    and "conn_inbuffer c = concat (map addHeader ps) @ b" "list_all payload_ok ps"
    and "\<And>out. request_loop J f b out = Done (b, out)" "respond_all J f ps = Done out"
  shows "\<exists>s'. HandleRequest J f p s = Done s' \<and>
    conn_state p s' (c\<lparr>conn_inbuffer := b, conn_outbuffer := conn_outbuffer c @ out\<rparr>) rs ss sent"
proof -
  have "request_loop J f (conn_inbuffer c) (conn_outbuffer c) = Done (b, conn_outbuffer c @ out)"
    using assms(3-6) by (simp add: request_loop_frames)
  with assms(1) show ?thesis
    by (auto simp: HandleRequest_def conn_state_def)
qed

lemma Reciver_state:
  assumes st: "conn_state p s c (data_calls cs @ (old, RErr EAGAIN) # rest) ss sent" "client_conn c"
    and "list_all delivers cs"
    and "conn_inbuffer c @ concat (map appended cs) = concat (map addHeader ps) @ b"
    and "list_all payload_ok ps" "\<And>out. request_loop J f b out = Done (b, out)"
    and "respond_all J f ps = Done out" "sends_ok ss" "0 < fulls ss"
  shows "\<exists>s' c' ss' sent'. call_reciver J f p s = Done s' \<and> conn_state p s' c' rest ss' sent' \<and>
    client_conn c' \<and> conn_fd c' = conn_fd c \<and> conn_inbuffer c' = b \<and>
    sent' @ conn_outbuffer c' = sent @ conn_outbuffer c @ out \<and> sends_ok ss' \<and>
    fulls ss \<le> Suc (fulls ss')"
proof -
  obtain s1 where s1: "HandleRecive p s = Done (True, s1)"
    "conn_state p s1 (c\<lparr>conn_inbuffer := conn_inbuffer c @ concat (map appended cs)\<rparr>) rest ss sent"
    using recv_loop_data [OF st(1,2) assms(3)] st(1) by (auto simp: HandleRecive_def conn_state_def)
  obtain s2 where s2: "HandleRequest J f p s1 = Done s2"
    "conn_state p s2 (c\<lparr>conn_inbuffer := b, conn_outbuffer := conn_outbuffer c @ out\<rparr>) rest ss sent"
    using HandleRequest_state [OF s1(2), of ps b J f out] st(2) assms(4-7) by auto
  let ?c = "c\<lparr>conn_inbuffer := b, conn_outbuffer := conn_outbuffer c @ out\<rparr>"
  have cc: "client_conn ?c" using st(2) by simp
  have "call_reciver J f p s = (if conn_outbuffer ?c \<noteq> [] then call_sender p s2 else Done s2)"
    using st s1(1) s2 by (auto simp: call_reciver_def Reciver_def conn_state_def client_conn_def)
  moreover obtain s' c' ss' sent' where "call_sender p s2 = Done s'" "conn_state p s' c' rest ss' sent'"
    "client_conn c'" "conn_fd c' = conn_fd c" "conn_inbuffer c' = b"
    "sent' @ conn_outbuffer c' = sent @ conn_outbuffer c @ out" "sends_ok ss'" "fulls ss \<le> Suc (fulls ss')"
    using call_sender_state [OF s2(2) cc assms(8,9)] by auto
  ultimately show ?thesis
  proof (cases "conn_outbuffer ?c = []")
    case True
    with \<open>call_reciver J f p s = _\<close> s2(2) cc assms(8) show ?thesis
      by (intro exI [of _ s2] exI [of _ ?c] exI [of _ ss] exI [of _ sent]) simp
  next
    case False
    with \<open>call_reciver J f p s = _\<close> \<open>call_sender p s2 = Done s'\<close> have "call_reciver J f p s = Done s'"
      by simp
    with \<open>conn_state p s' c' rest ss' sent'\<close> \<open>client_conn c'\<close> \<open>conn_fd c' = conn_fd c\<close>
      \<open>conn_inbuffer c' = b\<close> \<open>sent' @ conn_outbuffer c' = _\<close> \<open>sends_ok ss'\<close> \<open>fulls ss \<le> Suc (fulls ss')\<close>
    show ?thesis by blast
  qed
qed

lemma EPOLLIN_event [simp]:
  "EPOLLIN AND EPOLLIN \<noteq> 0" "EPOLLIN \<noteq> 0" "EPOLLIN AND EPOLLOUT = 0" "EPOLLIN AND EPOLLERR = 0"
  "EPOLLIN AND EPOLLHUP = 0"
  by (simp_all add: EPOLLIN_def EPOLLOUT_def EPOLLERR_def EPOLLHUP_def)

lemma dispatch_read:
  assumes "conn_state p s c rs ss sent"
  shows "dispatch_event J f (conn_fd c, EPOLLIN) s = bind_out (call_reciver J f p s) Done"
  using assms
  by (simp add: dispatch_event_def Let_def ConnectionIsExists_def conn_state_def EPOLLIN_event)

text \<open>The script of \<open>recv\<close> for a list of read events: each delivers chunks, then \<open>EAGAIN\<close>.\<close>

definition read_script :: "(string \<times> string) list list \<Rightarrow> recv_call list" where
  "read_script evs = concat (map (\<lambda>cs. data_calls cs @ [([], RErr EAGAIN)]) evs)"

lemma Dispatcher_serves:
  assumes "conn_state p s c (read_script evs) ss sent" "client_conn c"
    and "list_all (list_all delivers) evs"
    and "conn_inbuffer c @ concat (map appended (concat evs)) = concat (map addHeader ps)"
    and "list_all payload_ok ps" "respond_all J f ps = Done out"
    and "sends_ok ss" "length evs \<le> fulls ss"
    and "(ps = [] \<and> conn_inbuffer c = []) \<or> (\<exists>q qs d. ps = q # qs \<and> addHeader q = conn_inbuffer c @ d \<and> d \<noteq> [])"
  shows "\<exists>s' c' ss' sent'. Dispatcher J f (map (\<lambda>_. [(conn_fd c, EPOLLIN)]) evs) s = Done s' \<and>
    conn_state p s' c' [] ss' sent' \<and> client_conn c' \<and> conn_inbuffer c' = [] \<and> conn_fd c' = conn_fd c \<and>
    sent' @ conn_outbuffer c' = sent @ conn_outbuffer c @ out"
  using assms
proof (induction evs arbitrary: s c ss sent ps out)
  case Nil
  have len: "length (addHeader q) \<le> length (concat (map addHeader (q # qs)))" for q qs by simp
  have False if q: "ps = q # qs" "addHeader q = conn_inbuffer c @ d" "d \<noteq> []" for q qs d
    using len [of q qs] Nil.prems(4) q by auto
  with Nil.prems(9) have "ps = []" "conn_inbuffer c = []" by blast+
  with Nil.prems show ?case by (auto simp: read_script_def)
next
  case (Cons cs evs)
  from Cons.prems(4) have "(conn_inbuffer c @ concat (map appended cs)) @ concat (map appended (concat evs))
      = concat (map addHeader ps)" by simp
  with Cons.prems(5) obtain ps1 ps2 b where s:
    "ps = ps1 @ ps2" "conn_inbuffer c @ concat (map appended cs) = concat (map addHeader ps1) @ b"
    "b @ concat (map appended (concat evs)) = concat (map addHeader ps2)"
    "(ps2 = [] \<and> b = []) \<or> (\<exists>q qs d. ps2 = q # qs \<and> addHeader q = b @ d \<and> d \<noteq> [])"
    by (rule frames.split_stream)
  from Cons.prems(5) s(1) have oks: "list_all payload_ok ps1" "list_all payload_ok ps2" by simp_all
  have rb: "request_loop J f b o1 = Done (b, o1)" for o1
    using s(4) oks(2) by (auto simp: request_loop_nil intro: request_loop_partial)
  from Cons.prems(6) s(1) obtain out1 out2 where out: "respond_all J f ps1 = Done out1"
    "respond_all J f ps2 = Done out2" "out = out1 @ out2"
    by (auto simp: respond_all_append)
  have rs: "conn_state p s c (data_calls cs @ ([], RErr EAGAIN) # read_script evs) ss sent"
    using Cons.prems(1) by (simp add: read_script_def)
  have dl: "list_all delivers cs" "list_all (list_all delivers) evs" using Cons.prems(3) by simp_all
  have fl: "0 < fulls ss" using Cons.prems(8) by simp
  obtain s1 c1 ss1 sent1 where s1: "call_reciver J f p s = Done s1"
    "conn_state p s1 c1 (read_script evs) ss1 sent1" "client_conn c1" "conn_fd c1 = conn_fd c"
    "conn_inbuffer c1 = b" "sent1 @ conn_outbuffer c1 = sent @ conn_outbuffer c @ out1"
    "sends_ok ss1" "fulls ss \<le> Suc (fulls ss1)"
    using Reciver_state [OF rs Cons.prems(2) dl(1) s(2) oks(1) rb out(1) Cons.prems(7) fl] by blast
  have "length evs \<le> fulls ss1" using s1(8) Cons.prems(8) by simp
  from Cons.IH [OF s1(2,3) dl(2) _ oks(2) out(2) s1(7) this] s(3,4) s1(5)
  obtain s' c' ss' sent' where "Dispatcher J f (map (\<lambda>_. [(conn_fd c1, EPOLLIN)]) evs) s1 = Done s'"
    "conn_state p s' c' [] ss' sent'" "client_conn c'" "conn_inbuffer c' = []"
    "conn_fd c' = conn_fd c1" "sent' @ conn_outbuffer c' = sent1 @ conn_outbuffer c1 @ out2" by auto
  moreover have "dispatch_event J f (conn_fd c, EPOLLIN) s = Done s1"
    using dispatch_read [OF rs, of J f] s1(1) by simp
  moreover have "sent1 @ conn_outbuffer c1 @ out2 = sent @ conn_outbuffer c @ out"
    using arg_cong [OF s1(6), of "\<lambda>x. x @ out2"] out(3) by simp
  ultimately show ?case using s1(4) by auto
qed

end
