(* ===== verification/Examples.thy ===== *)
theory Examples
  imports Protocol Kernel
begin

text \<open>
  A concrete kernel and a concrete \<open>json_lib\<close>, on which the properties are applied: a machine on
  which descriptors 0, 1 and 2 are open and every call succeeds, and a writer and reader of flat
  objects as words \<open>key:value\<close>.
\<close>

definition boot_kernel :: kernel where
  "boot_kernel = \<lparr>k_open = [0, 1, 2], k_ok = (\<lambda>_. True), k_bound = (\<lambda>_. None),
     k_listening = (\<lambda>_. False), k_nonblock = (\<lambda>_. False), k_epoll = (\<lambda>_. None),
     k_watch = (\<lambda>_. True), k_accepts = [], k_recvs = (\<lambda>_. []), k_sends = (\<lambda>_. []),
     k_sent = (\<lambda>_. [])\<rparr>"

definition words_json :: json_lib where
  "words_json = \<lparr>jwrite = (\<lambda>kvs. join '' '' (map (\<lambda>(k, v). k @ '':'' @ to_string v) kvs)),
     jget = (\<lambda>t k. case find (\<lambda>w. prefix (k @ '':'') w) (split_on (CHR 0x20) t) of
        None \<Rightarrow> Crash JsonError | Some w \<Rightarrow> Done (atoi (drop (length k + 1) w)))\<rparr>"

definition sum_request :: request where
  "sum_request = \<lparr>req_x = 7, req_y = 5, req_op = CHR ''+''\<rparr>"

lemma words_json_sum:
  "Request_serialize words_json sum_request = ''x:7 y:5 op:43''"
  by code_simp

lemma words_json_sum_back:
  "Request_deserialize words_json ''x:7 y:5 op:43'' = Done sum_request"
  by code_simp

end
