(* ===== verification/Steps.thy ===== *)
theory Steps
  imports Prelude
begin

text \<open>
  Programs of which every run ends: a step relation with an invariant and a weight that each step
  makes smaller. The number of steps is then bounded, and a state is reached in which nothing can
  go on.
\<close>

text \<open>The weight of a state that keeps a table of \<open>n\<close> threads or processes, one of which moves.\<close>

lemma sum_weight_update:
  assumes "t < (n :: nat)"
  shows "(\<Sum>i < n. w ((f(t := p)) i)) + w (f t) = (\<Sum>i < n. w (f i)) + (w p :: nat)"
proof -
  have "(\<Sum>i < n. w ((f(t := p)) i)) = w p + (\<Sum>i \<in> {..<n} - {t}. w (f i))"
    using assms by (subst sum.remove [of _ t]) auto
  moreover have "(\<Sum>i < n. w (f i)) = w (f t) + (\<Sum>i \<in> {..<n} - {t}. w (f i))"
    using assms by (subst sum.remove [of _ t]) auto
  ultimately show ?thesis by simp
qed

locale measured_steps =
  fixes step :: "'s \<Rightarrow> 's \<Rightarrow> bool" and inv :: "'s \<Rightarrow> bool" and weight :: "'s \<Rightarrow> nat"
  assumes keeps: "inv s \<Longrightarrow> step s s' \<Longrightarrow> inv s'"
    and lighter: "inv s \<Longrightarrow> step s s' \<Longrightarrow> weight s' < weight s"
begin

lemma run_bounded: "(step ^^ n) s s' \<Longrightarrow> inv s \<Longrightarrow> inv s' \<and> n + weight s' \<le> weight s"
proof (induction n arbitrary: s')
  case (Suc n)
  then obtain t where t: "(step ^^ n) s t" "step t s'" by auto
  with Suc.IH [OF t(1) Suc.prems(2)] keeps [OF _ t(2)] lighter [OF _ t(2)] show ?case by fastforce
qed simp

lemma comes_to_rest: "inv s \<Longrightarrow> \<exists>s'. step\<^sup>*\<^sup>* s s' \<and> (\<forall>t. \<not> step s' t)"
proof (induction "weight s" arbitrary: s rule: less_induct)
  case less
  show ?case
  proof (cases "\<exists>t. step s t")
    case True
    then obtain t where t: "step s t" by blast
    from less(1) [OF lighter [OF less(2) t] keeps [OF less(2) t]] t show ?thesis
      by (meson converse_rtranclp_into_rtranclp)
  qed auto
qed

end

end
