(* ===== verification/ConnThreads.thy ===== *)
theory ConnThreads
  imports Socket Steps "HOL-Library.Multiset"
begin

text \<open>
  Servers that give each connection a thread of its own: an interface for the step relation of such a
  server, and what follows from it for every interleaving. The main thread accepts; a thread works on
  its own descriptor only. So the descriptors are accounted for, what happens on a descriptor is a run
  of threads that had it one after the other, each as if it were alone, and with finite scripts
  every run ends.
\<close>

section \<open>What belongs to a descriptor\<close>

type_synonym stream = "recv_call list \<times> send_res list \<times> string"

definition stream :: "kernel \<Rightarrow> int \<Rightarrow> stream" where
  "stream k fd = (k_recvs k fd, k_sends k fd, k_sent k fd)"

lemma stream_eq: "stream k fd = stream k' fd \<longleftrightarrow>
    k_recvs k fd = k_recvs k' fd \<and> k_sends k fd = k_sends k' fd \<and> k_sent k fd = k_sent k' fd"
  by (simp add: stream_def)

definition stream_left :: "stream \<Rightarrow> nat" where
  "stream_left v = length (fst v) + length (fst (snd v))"

lemma lowest_fd_le: "lowest_fd os \<le> int (length os)"
  using length_takeWhile_le [of "\<lambda>i. int i \<in> set os" "[0..<length os]"] by (simp add: lowest_fd_def)

text \<open>What one \<open>accept\<close>, \<open>recv\<close>, \<open>send\<close> or \<open>close\<close> does to the streams.\<close>

lemma sock_Accept_uninit_frame:
  assumes "sock_Accept_uninit len so k = Done ((n, addr), k')"
  shows "if n < 0 then k_open k' = k_open k
      else n = lowest_fd (k_open k) \<and> k_open k' = n # k_open k \<and> (\<exists>ip port. addr = Some (ip, port))"
    and "length (k_accepts k') < length (k_accepts k)" "stream k' fd = stream k fd"
  using assms
  by (auto simp: stream_def sock_Accept_uninit_def k_accept_def k_new_fd_def Let_def leD [OF lowest_fd_nonneg]
      split: list.splits accept_res.splits sum.splits if_splits)

lemma k_recv_frame:
  assumes "k_recv fd k = Done (c, k')"
  shows "k_open k' = k_open k" "k_accepts k' = k_accepts k" "g \<noteq> fd \<Longrightarrow> stream k' g = stream k g"
    and "stream_left (stream k' fd) < stream_left (stream k fd)"
    and "stream k2 fd = stream k fd \<Longrightarrow> \<exists>k2'. k_recv fd k2 = Done (c, k2') \<and> stream k2' fd = stream k' fd"
  using assms by (auto simp: k_recv_iff stream_def stream_left_def)

lemma k_send_frame:
  assumes "k_send fd msg k = Done k'"
  shows "k_open k' = k_open k" "k_accepts k' = k_accepts k" "g \<noteq> fd \<Longrightarrow> stream k' g = stream k g"
    and "stream_left (stream k' fd) < stream_left (stream k fd)"
    and "stream k2 fd = stream k fd \<Longrightarrow> \<exists>k2'. k_send fd msg k2 = Done k2' \<and> stream k2' fd = stream k' fd"
  using assms by (auto simp: k_send_def stream_def stream_left_def split: list.splits send_res.splits)

lemma k_close_stream [simp]: "stream (k_close fd k) g = stream k g" "k_accepts (k_close fd k) = k_accepts k"
  "k_open (k_close fd k) = removeAll fd (k_open k)"
  by (simp_all add: stream_def k_close_def)

section \<open>The table of threads\<close>

text \<open>Thread \<open>i\<close> of \<open>n\<close> has the descriptor \<open>sock i\<close> and is at \<open>pc i\<close>; those that have closed it do not count.\<close>

definition holders :: "('p \<Rightarrow> bool) \<Rightarrow> nat \<Rightarrow> (nat \<Rightarrow> int) \<Rightarrow> (nat \<Rightarrow> 'p) \<Rightarrow> (int \<times> 'p) multiset" where
  "holders gone n sock pc = filter_mset (\<lambda>(fd, p). \<not> gone p) (mset (map (\<lambda>i. (sock i, pc i)) [0..<n]))"

lemma holders_0 [simp]: "holders gone 0 sock pc = {#}"
  by (simp add: holders_def)

lemma holders_mem: "(fd, p) \<in># holders gone n sock pc \<longleftrightarrow> \<not> gone p \<and> (\<exists>i < n. fd = sock i \<and> p = pc i)"
  by (auto simp: holders_def)

lemma holders_cong:
  "(\<And>i. i < n \<Longrightarrow> sock' i = sock i \<and> pc' i = pc i) \<Longrightarrow> holders gone n sock' pc' = holders gone n sock pc"
  unfolding holders_def by (intro arg_cong [where f = "\<lambda>xs. filter_mset _ (mset xs)"] map_cong) simp_all

lemma holders_new:
  assumes "\<And>i. i < n \<Longrightarrow> sock' i = sock i \<and> pc' i = pc i" "\<not> gone (pc' n)"
  shows "holders gone (Suc n) sock' pc' = add_mset (sock' n, pc' n) (holders gone n sock pc)"
  using assms(2) holders_cong [of n sock' sock pc' pc gone] assms(1) by (simp add: holders_def)

lemma holders_move:
  assumes "i < n" "\<not> gone (pc i)"
  shows "holders gone n sock (pc(i := p)) = (if gone p then holders gone n sock pc - {#(sock i, pc i)#}
      else add_mset (sock i, p) (holders gone n sock pc - {#(sock i, pc i)#}))"
proof -
  let ?f = "\<lambda>i. (sock i, pc i)"
  have "map (\<lambda>j. (sock j, (pc(i := p)) j)) [0..<n] = (map ?f [0..<n])[i := (sock i, p)]"
    using assms(1) by (intro nth_equalityI) (auto simp: nth_list_update)
  then have "mset (map (\<lambda>j. (sock j, (pc(i := p)) j)) [0..<n]) = add_mset (sock i, p) (mset (map ?f [0..<n]) - {#?f i#})"
    using assms(1) by (simp only: mset_update length_map length_upt diff_zero nth_map_upt add_0)
  moreover have "?f i \<in># mset (map ?f [0..<n])" using assms(1) by simp
  ultimately show ?thesis using assms(2) unfolding holders_def by simp
qed

lemma holders_socks: "image_mset fst (holders gone n sock pc) = mset (map sock (filter (\<lambda>i. \<not> gone (pc i)) [0..<n]))"
  by (induction n) (simp_all add: holders_def)

lemma map_nth_filter: "map ((!) (map f xs)) (filter P [0..<length xs]) = map (\<lambda>i. f (xs ! i)) (filter P [0..<length xs])"
  by (rule map_cong) auto

section \<open>The interface\<close>

text \<open>
  \<open>held\<close>: the descriptors of connections that are not closed yet, each with the state of its thread;
  \<open>fresh\<close>: the states in which a thread can be after an \<open>accept\<close>; \<open>solo fd\<close>: a step of a thread that
  works on \<open>fd\<close>; \<open>gone\<close>: after the step the thread has closed its descriptor.
\<close>

locale connection_threads =
  fixes step :: "'s \<Rightarrow> 's \<Rightarrow> bool" and kern :: "'s \<Rightarrow> kernel" and held :: "'s \<Rightarrow> (int \<times> 'p) multiset"
    and fresh :: "'p \<Rightarrow> bool" and gone :: "'p \<Rightarrow> bool" and solo :: "int \<Rightarrow> 'p \<times> kernel \<Rightarrow> 'p \<times> kernel \<Rightarrow> bool"
  assumes step_cases: "step s s' \<Longrightarrow>
      (held s' = held s \<and> k_open (kern s') = k_open (kern s) \<or>
       (\<exists>p. fresh p \<and> held s' = add_mset (lowest_fd (k_open (kern s)), p) (held s) \<and>
         k_open (kern s') = lowest_fd (k_open (kern s)) # k_open (kern s))) \<and>
        length (k_accepts (kern s')) < length (k_accepts (kern s)) \<and> (\<forall>fd. stream (kern s') fd = stream (kern s) fd) \<or>
      (\<exists>fd p p'. (fd, p) \<in># held s \<and> solo fd (p, kern s) (p', kern s') \<and>
        held s' = (if gone p' then held s - {#(fd, p)#} else add_mset (fd, p') (held s - {#(fd, p)#})))"
    and solo_frame: "solo fd (p, k) (p', k') \<Longrightarrow> g \<noteq> fd \<Longrightarrow> stream k' g = stream k g"
    and solo_open: "solo fd (p, k) (p', k') \<Longrightarrow> k_open k' = (if gone p' then removeAll fd (k_open k) else k_open k)"
    and solo_consumes: "solo fd (p, k) (p', k') \<Longrightarrow> k_accepts k' = k_accepts k \<and> stream_left (stream k' fd) < stream_left (stream k fd)"
    and solo_local: "solo fd (p, k) (p', k') \<Longrightarrow> stream k2 fd = stream k fd \<Longrightarrow>
      \<exists>k2'. solo fd (p, k2) (p', k2') \<and> stream k2' fd = stream k' fd"
begin

text \<open>The descriptors: those of the start, and those held.\<close>

definition accounted :: "kernel \<Rightarrow> 's \<Rightarrow> bool" where
  "accounted k0 s \<longleftrightarrow> distinct (k_open (kern s)) \<and> mset (k_open (kern s)) = mset (k_open k0) + image_mset fst (held s)"

lemma accounted_step:
  assumes "accounted k0 s" "step s s'" shows "accounted k0 s'"
proof -
  from assms(1) have a: "distinct (k_open (kern s))" "mset (k_open (kern s)) = mset (k_open k0) + image_mset fst (held s)"
    by (simp_all add: accounted_def)
  from step_cases [OF assms(2)] show ?thesis
  proof (elim disjE conjE exE)
    fix fd p p' assume s: "(fd, p) \<in># held s" "solo fd (p, kern s) (p', kern s')"
      "held s' = (if gone p' then held s - {#(fd, p)#} else add_mset (fd, p') (held s - {#(fd, p)#}))"
    from s(1) obtain H where H: "held s = add_mset (fd, p) H" by (meson mset_add)
    have "mset (removeAll fd (k_open (kern s))) = mset (k_open (kern s)) - {#fd#}"
      using a(1) by (simp only: distinct_remove1_removeAll [symmetric] mset_remove1)
    with a H s(3) solo_open [OF s(2)] show ?thesis by (simp add: accounted_def distinct_removeAll)
  qed (use a lowest_fd_fresh [of "k_open (kern s)"] in \<open>simp_all add: accounted_def\<close>)
qed

lemma held_once:
  assumes "accounted k0 s" "(fd, p) \<in># held s"
  shows "(fd, q) \<notin># held s - {#(fd, p)#}"
proof
  assume q: "(fd, q) \<in># held s - {#(fd, p)#}"
  from assms(2) obtain H where H: "held s = add_mset (fd, p) H" by (meson mset_add)
  from q H obtain H' where "H = add_mset (fd, q) H'" by (metis add_mset_remove_trivial mset_add)
  with H assms(1) have "mset (k_open (kern s)) = mset (k_open k0) + (add_mset fd (add_mset fd (image_mset fst H')))"
    by (simp add: accounted_def)
  then have "1 < count (mset (k_open (kern s))) fd" by simp
  with assms(1) show False by (metis accounted_def distinct_count_atmost_1 less_irrefl nat_neq_iff not_less_zero less_one)
qed

text \<open>
  What holds of a descriptor and the thread that has it, if each thread keeps it when it works alone
  and hands it on when it closes the descriptor (\<open>None\<close>: nobody has it).
\<close>

definition each_fd :: "(int \<Rightarrow> 'p option \<Rightarrow> stream \<Rightarrow> bool) \<Rightarrow> 's \<Rightarrow> bool" where
  "each_fd I s \<longleftrightarrow> (\<forall>(fd, p) \<in># held s. I fd (Some p) (stream (kern s) fd)) \<and>
     (\<forall>fd. fd \<notin># image_mset fst (held s) \<longrightarrow> I fd None (stream (kern s) fd))"

lemma each_fd_step:
  assumes "accounted k0 s" "each_fd I s" "step s s'"
    and begins: "\<And>fd p v. I fd None v \<Longrightarrow> fresh p \<Longrightarrow> I fd (Some p) v"
    and works: "\<And>fd p p' k k'. I fd (Some p) (stream k fd) \<Longrightarrow> solo fd (p, k) (p', k') \<Longrightarrow>
      I fd (if gone p' then None else Some p') (stream k' fd)"
  shows "each_fd I s'"
  using step_cases [OF assms(3)]
proof (elim disjE conjE exE)
  fix fd p p' assume s: "(fd, p) \<in># held s" "solo fd (p, kern s) (p', kern s')"
    "held s' = (if gone p' then held s - {#(fd, p)#} else add_mset (fd, p') (held s - {#(fd, p)#}))"
  let ?H = "held s - {#(fd, p)#}"
  have H: "held s = add_mset (fd, p) ?H" "fd \<notin># image_mset fst ?H" using s(1) held_once [OF assms(1) s(1)] by auto
  have I: "I fd (if gone p' then None else Some p') (stream (kern s') fd)"
    using works [OF _ s(2)] assms(2) s(1) by (auto simp: each_fd_def)
  have other: "stream (kern s') g = stream (kern s) g" if "g \<noteq> fd" for g using solo_frame [OF s(2) that] .
  have "I g (Some q) (stream (kern s') g)" if "(g, q) \<in># ?H" for g q
  proof -
    have "g \<noteq> fd" using that H(2) by force
    moreover have "(g, q) \<in># held s" using that by (rule in_diffD)
    ultimately show ?thesis using other assms(2) by (auto simp: each_fd_def)
  qed
  moreover have "I g None (stream (kern s') g)" if "g \<notin># image_mset fst (held s')" for g
  proof (cases "g = fd")
    case False
    from that have "g \<notin># image_mset fst ?H" unfolding s(3) by (cases "gone p'") simp_all
    with False have "g \<notin># image_mset fst (held s)" by (subst H(1)) simp
    then show ?thesis using other [OF False] assms(2) by (simp add: each_fd_def)
  next
    case True
    with that have "gone p'" unfolding s(3) by (cases "gone p'") simp_all
    with I True show ?thesis by simp
  qed
  moreover have "held s' = (if gone p' then ?H else add_mset (fd, p') ?H)" by (rule s(3))
  ultimately show ?thesis using I unfolding each_fd_def by (cases "gone p'") (simp_all add: Ball_def)
next
  assume "held s' = held s" "\<forall>fd. stream (kern s') fd = stream (kern s) fd"
  with assms(2) show ?thesis by (simp add: each_fd_def)
next
  let ?fd = "lowest_fd (k_open (kern s))"
  fix p assume p: "fresh p" "held s' = add_mset (?fd, p) (held s)" "\<forall>fd. stream (kern s') fd = stream (kern s) fd"
  have "?fd \<in># mset (k_open (kern s))" if "?fd \<in># image_mset fst (held s)" using that assms(1) by (simp add: accounted_def)
  then have "?fd \<notin># image_mset fst (held s)" using lowest_fd_fresh [of "k_open (kern s)"] by auto
  then have "I ?fd (Some p) (stream (kern s) ?fd)" using assms(2) p(1) begins by (simp add: each_fd_def)
  with assms(2) p(2,3) show ?thesis by (simp add: each_fd_def)
qed

theorem each_fd_run:
  assumes "step\<^sup>*\<^sup>* s s'" "accounted k0 s" "each_fd I s"
    and "\<And>fd p v. I fd None v \<Longrightarrow> fresh p \<Longrightarrow> I fd (Some p) v"
    and "\<And>fd p p' k k'. I fd (Some p) (stream k fd) \<Longrightarrow> solo fd (p, k) (p', k') \<Longrightarrow>
      I fd (if gone p' then None else Some p') (stream k' fd)"
  shows "accounted k0 s' \<and> each_fd I s'"
  using assms(1)
proof (induction rule: rtranclp_induct)
  case (step t u)
  from step.IH have "accounted k0 t" "each_fd I t" by simp_all
  moreover have "each_fd I u" by (rule each_fd_step [OF calculation step.hyps(2)]) (fact assms(4,5))+
  ultimately show ?case using accounted_step [OF _ step.hyps(2)] by simp
qed (use assms(2,3) in simp)

text \<open>The life of a descriptor: it is handed out, worked on by a thread that could be alone, given back.\<close>

definition life_step :: "int \<Rightarrow> 'p option \<times> stream \<Rightarrow> 'p option \<times> stream \<Rightarrow> bool" where
  "life_step fd = (\<lambda>(q, v) (q', v'). case q of
      None \<Rightarrow> v' = v \<and> (\<exists>p. fresh p \<and> q' = Some p)
    | Some p \<Rightarrow> (\<exists>k p' k'. stream k fd = v \<and> solo fd (p, k) (p', k') \<and> stream k' fd = v' \<and>
        q' = (if gone p' then None else Some p')))"

theorem descriptor_lives:
  assumes "step\<^sup>*\<^sup>* s s'" "accounted (kern s) s" "held s = {#}"
  shows "accounted (kern s) s' \<and> each_fd (\<lambda>fd q v. (life_step fd)\<^sup>*\<^sup>* (None, stream (kern s) fd) (q, v)) s'"
proof (rule each_fd_run [OF assms(1,2)])
  fix fd p v assume "(life_step fd)\<^sup>*\<^sup>* (None, stream (kern s) fd) (None, v)" "fresh p"
  then show "(life_step fd)\<^sup>*\<^sup>* (None, stream (kern s) fd) (Some p, v)"
    by (elim rtranclp.rtrancl_into_rtrancl) (auto simp: life_step_def)
next
  fix fd p p' k k' assume "(life_step fd)\<^sup>*\<^sup>* (None, stream (kern s) fd) (Some p, stream k fd)" "solo fd (p, k) (p', k')"
  then show "(life_step fd)\<^sup>*\<^sup>* (None, stream (kern s) fd) (if gone p' then None else Some p', stream k' fd)"
    by (elim rtranclp.rtrancl_into_rtrancl) (auto simp: life_step_def)
qed (use assms(3) in \<open>simp add: each_fd_def\<close>)

text \<open>Where no thread ever closes its descriptor, each has done what it would have done alone.\<close>

theorem as_if_alone:
  assumes "step\<^sup>*\<^sup>* s s'" "accounted (kern s) s" "held s = {#}" "\<And>p. \<not> gone p" "(fd, p) \<in># held s'"
  shows "\<exists>p0 k. fresh p0 \<and> (solo fd)\<^sup>*\<^sup>* (p0, kern s) (p, k) \<and> stream k fd = stream (kern s') fd"
proof -
  let ?I = "\<lambda>fd q v. case q of None \<Rightarrow> v = stream (kern s) fd
    | Some p \<Rightarrow> \<exists>p0 k. fresh p0 \<and> (solo fd)\<^sup>*\<^sup>* (p0, kern s) (p, k) \<and> stream k fd = v"
  have "accounted (kern s) s' \<and> each_fd ?I s'"
  proof (rule each_fd_run [OF assms(1,2)])
    fix fd p p' k k' assume I: "?I fd (Some p) (stream k fd)" "solo fd (p, k) (p', k')"
    then obtain p0 k1 where k1: "fresh p0" "(solo fd)\<^sup>*\<^sup>* (p0, kern s) (p, k1)" "stream k1 fd = stream k fd" by auto
    from solo_local [OF I(2) k1(3)] obtain k1' where "solo fd (p, k1) (p', k1')" "stream k1' fd = stream k' fd" by blast
    with k1 assms(4) show "?I fd (if gone p' then None else Some p') (stream k' fd)" by (auto intro: rtranclp.rtrancl_into_rtrancl)
  qed (use assms(3) in \<open>auto simp: each_fd_def\<close>)
  with assms(5) show ?thesis by (auto simp: each_fd_def)
qed

section \<open>Every run ends\<close>

text \<open>No descriptor is ever above the number of those open and those that can still be accepted.\<close>

definition fits :: "int \<Rightarrow> 's \<Rightarrow> bool" where
  "fits N s \<longleftrightarrow> int (length (k_open (kern s)) + length (k_accepts (kern s))) \<le> N \<and> (\<forall>(fd, p) \<in># held s. 0 \<le> fd \<and> fd < N)"

definition calls_left :: "int \<Rightarrow> 's \<Rightarrow> nat" where
  "calls_left N s = length (k_accepts (kern s)) + (\<Sum>fd \<in> {0..<N}. stream_left (stream (kern s) fd))"

lemma fits_step:
  assumes "fits N s" "step s s'" shows "fits N s'"
  using step_cases [OF assms(2)]
proof (elim disjE conjE exE)
  fix fd p p' assume s: "(fd, p) \<in># held s" "solo fd (p, kern s) (p', kern s')"
    "held s' = (if gone p' then held s - {#(fd, p)#} else add_mset (fd, p') (held s - {#(fd, p)#}))"
  have "length (k_open (kern s')) \<le> length (k_open (kern s))" using solo_open [OF s(2)] by (simp add: length_removeAll_less_eq)
  moreover have "k_accepts (kern s') = k_accepts (kern s)" using solo_consumes [OF s(2)] by simp
  ultimately show ?thesis using assms(1) s(1,3) by (auto simp: fits_def dest: in_diffD split: if_splits)
qed (use assms(1) lowest_fd_le [of "k_open (kern s)"] in \<open>auto simp: fits_def\<close>)

lemma calls_left_step:
  assumes "fits N s" "step s s'" shows "calls_left N s' < calls_left N s"
  using step_cases [OF assms(2)]
proof (elim disjE conjE exE)
  fix fd p p' assume s: "(fd, p) \<in># held s" "solo fd (p, kern s) (p', kern s')"
  from s(1) assms(1) have fd: "fd \<in> {0..<N}" by (auto simp: fits_def)
  have "(\<Sum>g \<in> {0..<N}. stream_left (stream (kern s') g)) < (\<Sum>g \<in> {0..<N}. stream_left (stream (kern s) g))"
  proof (rule sum_strict_mono_ex1)
    show "\<forall>g \<in> {0..<N}. stream_left (stream (kern s') g) \<le> stream_left (stream (kern s) g)"
    proof
      fix g show "stream_left (stream (kern s') g) \<le> stream_left (stream (kern s) g)"
        using solo_frame [OF s(2), of g] solo_consumes [OF s(2)] by (cases "g = fd") simp_all
    qed
  qed (use fd solo_consumes [OF s(2)] in auto)
  then show ?thesis using solo_consumes [OF s(2)] by (simp add: calls_left_def)
qed (simp_all add: calls_left_def)

end

sublocale connection_threads \<subseteq> scripted: measured_steps step "fits N" "calls_left N" for N
  by unfold_locales (fact fits_step calls_left_step)+

context connection_threads
begin

theorem run_ends:
  assumes "step\<^sup>*\<^sup>* s s'" "held s = {#}"
  shows "\<exists>s''. step\<^sup>*\<^sup>* s' s'' \<and> (\<forall>t. \<not> step s'' t)"
proof -
  let ?N = "int (length (k_open (kern s)) + length (k_accepts (kern s)))"
  have "fits ?N s" using assms(2) by (simp add: fits_def)
  moreover obtain n where "(step ^^ n) s s'" using assms(1) by (meson rtranclp_imp_relpowp)
  ultimately show ?thesis using scripted.run_bounded scripted.comes_to_rest by blast
qed

end

section \<open>A thread for each connection\<close>

text \<open>
  The accepting loop of the servers: \<open>accept\<close> is one round of it up to \<open>pthread_create\<close>, which may fail
  without anybody noticing; \<open>go p fd\<close> is what a thread at \<open>p\<close> does next on its descriptor. Thread \<open>i\<close>
  has the \<open>i\<close>-th connection that was accepted.
\<close>

record ('srv, 'p) threads_run =
  tr_srv :: 'srv
  tr_pc :: "nat \<Rightarrow> 'p"

inductive threads_step ::
  "(int \<Rightarrow> 'srv \<Rightarrow> 'srv outcome) \<Rightarrow> ('srv \<Rightarrow> kernel) \<Rightarrow> (kernel \<Rightarrow> 'srv \<Rightarrow> 'srv) \<Rightarrow> ('srv \<Rightarrow> int list) \<Rightarrow>
   ('p \<Rightarrow> int \<Rightarrow> kernel \<Rightarrow> ('p \<times> kernel) outcome) \<Rightarrow> 'p \<Rightarrow> 'p \<Rightarrow> ('srv, 'p) threads_run \<Rightarrow> ('srv, 'p) threads_run \<Rightarrow> bool"
  for accept kern set_kern socks go off enter where
  tr_accept: "accept len (tr_srv s) = Done srv \<Longrightarrow>
     threads_step accept kern set_kern socks go off enter s \<lparr>tr_srv = srv, tr_pc =
       (if length (socks srv) = length (socks (tr_srv s)) then tr_pc s
        else (tr_pc s)(length (socks (tr_srv s)) := (if created then enter else off)))\<rparr>"
| tr_thread: "i < length (socks (tr_srv s)) \<Longrightarrow> go (tr_pc s i) (socks (tr_srv s) ! i) (kern (tr_srv s)) = Done (p, k) \<Longrightarrow>
     threads_step accept kern set_kern socks go off enter s \<lparr>tr_srv = set_kern k (tr_srv s), tr_pc = (tr_pc s)(i := p)\<rparr>"

definition threads_start :: "'p \<Rightarrow> 'srv \<Rightarrow> ('srv, 'p) threads_run" where
  "threads_start off srv = \<lparr>tr_srv = srv, tr_pc = (\<lambda>_. off)\<rparr>"

locale threaded_server =
  fixes accept :: "int \<Rightarrow> 'srv \<Rightarrow> 'srv outcome" and kern :: "'srv \<Rightarrow> kernel" and set_kern :: "kernel \<Rightarrow> 'srv \<Rightarrow> 'srv"
    and socks :: "'srv \<Rightarrow> int list" and go :: "'p \<Rightarrow> int \<Rightarrow> kernel \<Rightarrow> ('p \<times> kernel) outcome" and off :: 'p and enter :: 'p
    and gone :: "'p \<Rightarrow> bool"
  assumes set_kern: "kern (set_kern k s) = k" "socks (set_kern k s) = socks s"
    and accept_Done: "accept len s = Done s' \<Longrightarrow> \<exists>so n addr. sock_Accept_uninit len so (kern s) = Done ((n, addr), kern s') \<and>
      socks s' = (if n < 0 then socks s else socks s @ [n])"
    and accept_ready: "k_accepts (kern s) \<noteq> [] \<Longrightarrow> \<exists>len s'. accept len s = Done s'"
    and off_gone: "\<not> gone off" "\<not> gone enter" "go off fd k \<noteq> Done r" "gone p \<Longrightarrow> go p fd k \<noteq> Done r"
    and go_frame: "go p fd k = Done (p', k') \<Longrightarrow> g \<noteq> fd \<Longrightarrow> stream k' g = stream k g"
    and go_open: "go p fd k = Done (p', k') \<Longrightarrow> k_open k' = (if gone p' then removeAll fd (k_open k) else k_open k)"
    and go_consumes: "go p fd k = Done (p', k') \<Longrightarrow> k_accepts k' = k_accepts k \<and> stream_left (stream k' fd) < stream_left (stream k fd)"
    and go_local: "go p fd k = Done (p', k') \<Longrightarrow> stream k2 fd = stream k fd \<Longrightarrow>
      \<exists>k2'. go p fd k2 = Done (p', k2') \<and> stream k2' fd = stream k' fd"
begin

abbreviation run_step :: "('srv, 'p) threads_run \<Rightarrow> ('srv, 'p) threads_run \<Rightarrow> bool" where
  "run_step \<equiv> threads_step accept kern set_kern socks go off enter"

definition run_held :: "('srv, 'p) threads_run \<Rightarrow> (int \<times> 'p) multiset" where
  "run_held s = holders gone (length (socks (tr_srv s))) ((!) (socks (tr_srv s))) (tr_pc s)"

definition solo :: "int \<Rightarrow> 'p \<times> kernel \<Rightarrow> 'p \<times> kernel \<Rightarrow> bool" where
  "solo fd = (\<lambda>(p, k) r. go p fd k = Done r)"

lemma run_accept:
  assumes "accept len (tr_srv s) = Done srv"
    and "s' = \<lparr>tr_srv = srv, tr_pc = (if length (socks srv) = length (socks (tr_srv s)) then tr_pc s
        else (tr_pc s)(length (socks (tr_srv s)) := (if created then enter else off)))\<rparr>"
  shows "(run_held s' = run_held s \<and> k_open (kern srv) = k_open (kern (tr_srv s)) \<or>
       (\<exists>p. p \<in> {enter, off} \<and> run_held s' = add_mset (lowest_fd (k_open (kern (tr_srv s))), p) (run_held s) \<and>
         k_open (kern srv) = lowest_fd (k_open (kern (tr_srv s))) # k_open (kern (tr_srv s)))) \<and>
     length (k_accepts (kern srv)) < length (k_accepts (kern (tr_srv s))) \<and>
     (\<forall>fd. stream (kern srv) fd = stream (kern (tr_srv s)) fd)"
proof -
  let ?k = "kern (tr_srv s)" and ?ss = "socks (tr_srv s)" and ?p = "if created then enter else off"
  from accept_Done [OF assms(1)] obtain so n addr where a: "sock_Accept_uninit len so ?k = Done ((n, addr), kern srv)"
    "socks srv = (if n < 0 then ?ss else ?ss @ [n])" by blast
  note f = sock_Accept_uninit_frame [OF a(1)]
  show ?thesis
  proof (cases "n < 0")
    case True
    with a(2) f assms(2) show ?thesis by (simp add: run_held_def)
  next
    case False
    then have s': "tr_srv s' = srv" "socks srv = ?ss @ [n]" "tr_pc s' = (tr_pc s)(length ?ss := ?p)" using a(2) assms(2) by simp_all
    then have "run_held s' = holders gone (Suc (length ?ss)) ((!) (?ss @ [n])) (tr_pc s')" by (simp add: run_held_def)
    also have "\<dots> = add_mset ((?ss @ [n]) ! length ?ss, tr_pc s' (length ?ss)) (run_held s)"
      unfolding run_held_def by (rule holders_new) (use s' off_gone in \<open>simp_all add: nth_append\<close>)
    finally have "run_held s' = add_mset (n, ?p) (run_held s)" using s'(3) by simp
    then show ?thesis using f False by auto
  qed
qed

end

sublocale threaded_server \<subseteq> connection_threads run_step "\<lambda>s. kern (tr_srv s)" run_held "\<lambda>p. p \<in> {enter, off}" gone solo
proof
  fix s s' assume "run_step s s'"
  then show "(run_held s' = run_held s \<and> k_open (kern (tr_srv s')) = k_open (kern (tr_srv s)) \<or>
       (\<exists>p. p \<in> {enter, off} \<and> run_held s' = add_mset (lowest_fd (k_open (kern (tr_srv s))), p) (run_held s) \<and>
         k_open (kern (tr_srv s')) = lowest_fd (k_open (kern (tr_srv s))) # k_open (kern (tr_srv s)))) \<and>
        length (k_accepts (kern (tr_srv s'))) < length (k_accepts (kern (tr_srv s))) \<and>
        (\<forall>fd. stream (kern (tr_srv s')) fd = stream (kern (tr_srv s)) fd) \<or>
      (\<exists>fd p p'. (fd, p) \<in># run_held s \<and> solo fd (p, kern (tr_srv s)) (p', kern (tr_srv s')) \<and>
        run_held s' = (if gone p' then run_held s - {#(fd, p)#} else add_mset (fd, p') (run_held s - {#(fd, p)#})))"
  proof cases
    case (tr_accept len srv created)
    from run_accept [OF tr_accept(2,1)] tr_accept(1) show ?thesis by simp
  next
    case (tr_thread i p k)
    then have p: "\<not> gone (tr_pc s i)" using off_gone(4) by blast
    have "run_held s' = holders gone (length (socks (tr_srv s))) ((!) (socks (tr_srv s))) ((tr_pc s)(i := p))"
      unfolding run_held_def tr_thread(1) by (simp add: set_kern)
    with holders_move [of i _ gone "tr_pc s", OF tr_thread(2) p] tr_thread p set_kern show ?thesis
      by (intro disjI2 exI [of _ "socks (tr_srv s) ! i"] exI [of _ "tr_pc s i"] exI [of _ p]) (auto simp: run_held_def solo_def holders_mem)
  qed
next
  fix fd g p p' k k' k2 assume s: "solo fd (p, k) (p', k')"
  then have s: "go p fd k = Done (p', k')" by (simp add: solo_def)
  show "stream k' g = stream k g" if "g \<noteq> fd" using go_frame [OF s that] .
  show "k_open k' = (if gone p' then removeAll fd (k_open k) else k_open k)" using go_open [OF s] .
  show "k_accepts k' = k_accepts k \<and> stream_left (stream k' fd) < stream_left (stream k fd)" using go_consumes [OF s] .
  show "\<exists>k2'. solo fd (p, k2) (p', k2') \<and> stream k2' fd = stream k' fd" if "stream k2 fd = stream k fd"
    using go_local [OF s that] by (simp add: solo_def)
qed

context threaded_server
begin

lemma run_start [simp]: "socks srv = [] \<Longrightarrow> run_held (threads_start off srv) = {#}" "tr_srv (threads_start off srv) = srv"
  by (simp_all add: run_held_def threads_start_def)

lemma start_accounted: "socks srv = [] \<Longrightarrow> distinct (k_open (kern srv)) \<Longrightarrow> accounted (kern srv) (threads_start off srv)"
  by (simp add: accounted_def)

lemma run_held_mem: "i < length (socks (tr_srv s)) \<Longrightarrow> \<not> gone (tr_pc s i) \<Longrightarrow> (socks (tr_srv s) ! i, tr_pc s i) \<in># run_held s"
  by (auto simp: run_held_def holders_mem)

lemma accounted_socks: "accounted k0 s \<Longrightarrow> mset (k_open (kern (tr_srv s))) = mset (k_open k0 @
    map ((!) (socks (tr_srv s))) (filter (\<lambda>i. \<not> gone (tr_pc s i)) [0..<length (socks (tr_srv s))]))"
  unfolding accounted_def run_held_def holders_socks by simp

text \<open>When nothing can go on, every connection is accepted and no thread can go on.\<close>

lemma at_rest:
  assumes "\<And>t. \<not> run_step s t"
  shows "k_accepts (kern (tr_srv s)) = []"
    and "i < length (socks (tr_srv s)) \<Longrightarrow> go (tr_pc s i) (socks (tr_srv s) ! i) (kern (tr_srv s)) \<noteq> Done r"
proof -
  show "k_accepts (kern (tr_srv s)) = []" using accept_ready assms tr_accept by metis
  show "i < length (socks (tr_srv s)) \<Longrightarrow> go (tr_pc s i) (socks (tr_srv s) ! i) (kern (tr_srv s)) \<noteq> Done r"
    using assms tr_thread by (metis surj_pair)
qed

text \<open>A thread that works alone has only one way to go.\<close>

lemma solo_confluent:
  assumes "(solo fd)\<^sup>*\<^sup>* a b" "(solo fd)\<^sup>*\<^sup>* a c" "\<And>x. \<not> solo fd c x"
  shows "(solo fd)\<^sup>*\<^sup>* b c"
  using assms(1)
proof (induction rule: rtranclp_induct)
  case (step y z)
  from step(3) show ?case
  proof (cases rule: converse_rtranclpE)
    case (step y')
    with \<open>solo fd y z\<close> show ?thesis by (auto simp: solo_def)
  qed (use step(2) assms(3) in blast)
qed (rule assms(2))

end

end
