(* ===== verification/EpollProps.thy ===== *)
theory EpollProps
  imports EpollService Examples ConnThreads
begin

text \<open>The properties of the reactor of \<open>8.11/epollServer.2\<close>.\<close>

lemma json_safe_words: "json_safe words_json"
  by (simp add: json_safe_def words_json_def split: option.splits)

lemma calculate_safe: "safe (\<lambda>_. True) (calculate req)"
  by (simp add: calc_defs)

section \<open>Accepting\<close>

text \<open>What a descriptor's connection has received and not answered, and what it has still to send.\<close>

definition buffers :: "server \<Rightarrow> int \<Rightarrow> string \<times> string" where
  "buffers s fd = (case sv_connections s fd of None \<Rightarrow> ([], [])
     | Some p \<Rightarrow> (case sv_heap s p of None \<Rightarrow> ([], []) | Some c \<Rightarrow> (conn_inbuffer c, conn_outbuffer c)))"

lemma buffers_put_kern [simp]: "buffers (put_kern k s) fd = buffers s fd"
  by (simp add: buffers_def cong: option.case_cong)

definition untouched :: "server \<Rightarrow> server \<Rightarrow> bool" where
  "untouched s s' \<longleftrightarrow> (\<forall>fd. buffers s' fd = buffers s fd \<and> stream (sv_kern s') fd = stream (sv_kern s) fd) \<and>
     k_watch (sv_kern s') = k_watch (sv_kern s)"

lemma untouched_trans: "untouched s t \<Longrightarrow> untouched t u \<Longrightarrow> untouched s u"
  by (simp add: untouched_def)

lemma AddConnection_untouched:
  assumes "AddConnection fd (EPOLLIN OR EPOLLET) ip port (put_kern k s0) = Done s'" "sv_ok L s0" "fd \<notin> dom (sv_connections s0)"
    and "\<And>g. stream k g = stream (sv_kern s0) g" "k_watch k = k_watch (sv_kern s0)"
  shows "untouched s0 s'"
proof -
  let ?p = "sv_next s0"
  have "\<exists>c. sv_heap s' = (sv_heap s0)(?p \<mapsto> c) \<and> conn_inbuffer c = [] \<and> conn_outbuffer c = []"
    and s': "sv_connections s' = (sv_connections s0)(fd \<mapsto> ?p)" "k_watch (sv_kern s') = k_watch k" "\<And>g. stream (sv_kern s') g = stream k g"
    using assms(1,3) by (auto simp: AddConnection_def Let_def put_kern_def Epoll_AddEvent_def k_ctl_add_def SetNonBlock_def stream_def
        Register_def connection_new_def split: if_splits)
  then obtain c where c: "sv_heap s' = (sv_heap s0)(?p \<mapsto> c)" "conn_inbuffer c = []" "conn_outbuffer c = []" by blast
  have "buffers s' g = buffers s0 g" for g
  proof (cases "g = fd")
    case True
    then show ?thesis using s' c assms(3) by (simp add: buffers_def domIff)
  next
    case False
    show ?thesis
    proof (cases "sv_connections s0 g")
      case (Some q)
      with sv_ok_table [OF assms(2)] sv_ok_heap [OF assms(2)] have "q \<noteq> ?p" by blast
      with False Some s' c show ?thesis by (simp add: buffers_def)
    qed (use False s' in \<open>simp add: buffers_def\<close>)
  qed
  with s' assms(4,5) show ?thesis by (simp add: untouched_def)
qed

lemma AddConnection_Done:
  assumes "sv_ok L s0" "fd \<notin> dom (sv_connections s0)" "fd > 0" "fd \<noteq> L"
    and "k_open k = fd # k_open (sv_kern s0)" "k_epoll k = k_epoll (sv_kern s0)" "k_watch k fd"
  shows "\<exists>s'. AddConnection fd (EPOLLIN OR EPOLLET) ip port (put_kern k s0) = Done s' \<and>
    sv_ok L s' \<and> (\<forall>p c. sv_heap s0 p = Some c \<longrightarrow> sv_heap s' p = Some c) \<and>
    dom (sv_connections s') = insert fd (dom (sv_connections s0)) \<and>
    k_open (sv_kern s') = k_open k \<and> k_watch (sv_kern s') = k_watch k"
proof -
  have "AddConnection fd (EPOLLIN OR EPOLLET) ip port (put_kern k s0) \<noteq> Blocked"
    by (auto simp: AddConnection_def Let_def split: prod.split)
  moreover have "AddConnection fd (EPOLLIN OR EPOLLET) ip port (put_kern k s0) \<noteq> Crash e" for e
    using assms
    by (auto simp: AddConnection_def Let_def put_kern_def Epoll_AddEvent_def k_ctl_add_def
        SetNonBlock_def sv_ok_def)
  ultimately obtain s' where s': "AddConnection fd (EPOLLIN OR EPOLLET) ip port (put_kern k s0) = Done s'"
    by (cases "AddConnection fd (EPOLLIN OR EPOLLET) ip port (put_kern k s0)") auto
  moreover from s' AddConnection_cases [OF assms(1-6), of ip port]
  have "sv_ok L s'" "\<forall>p c. sv_heap s0 p = Some c \<longrightarrow> sv_heap s' p = Some c" by simp_all
  moreover have "dom (sv_connections s') = insert fd (dom (sv_connections s0))"
    "k_open (sv_kern s') = k_open k" "k_watch (sv_kern s') = k_watch k"
    using s' assms(2)
    by (auto simp: AddConnection_def Let_def put_kern_def Epoll_AddEvent_def k_ctl_add_def
        SetNonBlock_def split: if_splits)
  ultimately show ?thesis by blast
qed

fun accepted :: "accept_res \<Rightarrow> bool" where
  "accepted (AOk ip port) = True"
| "accepted (AErr e) = False"

lemma EPOLLET_or: "e OR EPOLLET \<noteq> 0"
proof
  assume "e OR EPOLLET = 0"
  then have "bit (e OR EPOLLET) 31 = bit (0 :: 32 word) 31" by simp
  then show False by (simp add: bit_or_iff EPOLLET_def bit_numeral_rec)
qed

lemma Accepter_drains:
  assumes "sv_ok L s" "sv_heap s p = Some c" "\<forall>fd. k_watch (sv_kern s) fd"
    and "k_accepts (sv_kern s) = rs @ AErr EAGAIN # rest" "AErr EAGAIN \<notin> set rs"
  shows "\<exists>s' fds. Accepter p s = Done s' \<and> sv_ok L s' \<and> k_accepts (sv_kern s') = rest \<and>
    length fds = length (filter accepted rs) \<and> k_open (sv_kern s') = fds @ k_open (sv_kern s) \<and>
    distinct fds \<and> set fds \<inter> set (k_open (sv_kern s)) = {} \<and>
    dom (sv_connections s') = set fds \<union> dom (sv_connections s) \<and> untouched s s'"
  using assms
proof (induction rs arbitrary: s c)
  case Nil
  have sa: "sock_Accept (sv_listensock s) (sv_kern s) = Done ((- 1, None, Some EAGAIN), (sv_kern s)\<lparr>k_accepts := rest\<rparr>)"
    using Nil.prems(4) by (simp add: sock_Accept_def k_accept_def)
  have "sv_ok L (put_kern ((sv_kern s)\<lparr>k_accepts := rest\<rparr>) s)"
    by (rule sv_ok_put_kern [OF Nil.prems(1)]) simp_all
  with sa show ?case
    by (intro exI [of _ "put_kern ((sv_kern s)\<lparr>k_accepts := rest\<rparr>) s"] exI [of _ "[]"])
      (simp add: Accepter.simps [of p s] untouched_def stream_def)
next
  case (Cons r rs)
  have notin: "AErr EAGAIN \<notin> set rs" "r \<noteq> AErr EAGAIN" using Cons.prems(5) by auto
  show ?case
  proof (cases r)
    case (AErr e)
    define s1 where "s1 = put_kern ((sv_kern s)\<lparr>k_accepts := rs @ AErr EAGAIN # rest\<rparr>) s"
    have sa: "sock_Accept (sv_listensock s) (sv_kern s) =
        Done ((- 1, None, Some e), (sv_kern s)\<lparr>k_accepts := rs @ AErr EAGAIN # rest\<rparr>)"
      using Cons.prems(4) AErr by (simp add: sock_Accept_def k_accept_def)
    have ok: "sv_ok L s1" unfolding s1_def by (rule sv_ok_put_kern [OF Cons.prems(1)]) simp_all
    have "Accepter p s = Accepter p s1"
      using sa AErr notin(2) Cons.prems(2) EPOLLET_or by (simp add: Accepter.simps [of p s] s1_def)
    moreover have "untouched s s1" by (simp add: untouched_def stream_def s1_def)
    moreover have "\<exists>s' fds. Accepter p s1 = Done s' \<and> sv_ok L s' \<and> k_accepts (sv_kern s') = rest \<and>
      length fds = length (filter accepted rs) \<and> k_open (sv_kern s') = fds @ k_open (sv_kern s1) \<and>
      distinct fds \<and> set fds \<inter> set (k_open (sv_kern s1)) = {} \<and>
      dom (sv_connections s') = set fds \<union> dom (sv_connections s1) \<and> untouched s1 s'"
      by (rule Cons.IH [OF ok _ _ _ notin(1), of c]) (use Cons.prems(2,3) in \<open>simp_all add: s1_def\<close>)
    moreover have "k_open (sv_kern s1) = k_open (sv_kern s)" "sv_connections s1 = sv_connections s" by (simp_all add: s1_def)
    ultimately show ?thesis using AErr untouched_trans by auto
  next
    case (AOk ip port)
    define fd where "fd = lowest_fd (k_open (sv_kern s))"
    define k where "k = (sv_kern s)\<lparr>k_accepts := rs @ AErr EAGAIN # rest, k_open := fd # k_open (sv_kern s)\<rparr>"
    have sa: "sock_Accept (sv_listensock s) (sv_kern s) = Done ((fd, Some (ip, port), None), k)"
      using Cons.prems(4) AOk
      by (simp add: sock_Accept_def k_accept_def k_new_fd_def Let_def k_def fd_def)
    have new: "fd > 0" "fd \<notin> dom (sv_connections s)" "fd \<noteq> L" "fd \<notin> set (k_open (sv_kern s))"
      using Cons.prems(1) lowest_fd_fresh [of "k_open (sv_kern s)"]
        lowest_fd_pos [of "k_open (sv_kern s)"] by (auto simp: sv_ok_def fd_def)
    have k: "k_open k = fd # k_open (sv_kern s)" "k_epoll k = k_epoll (sv_kern s)" "k_watch k fd"
      using Cons.prems(3) by (simp_all add: k_def)
    obtain s1 where s1: "AddConnection fd (EPOLLIN OR EPOLLET) ip port (put_kern k s) = Done s1"
      "sv_ok L s1" "\<forall>p c. sv_heap s p = Some c \<longrightarrow> sv_heap s1 p = Some c"
      "dom (sv_connections s1) = insert fd (dom (sv_connections s))"
      "k_open (sv_kern s1) = k_open k" "k_watch (sv_kern s1) = k_watch k"
      using AddConnection_Done [OF Cons.prems(1) new(2,1,3) k] by blast
    have acc: "k_accepts (sv_kern s1) = rs @ AErr EAGAIN # rest"
      using k_accepts_AddConnection [OF s1(1)] by (simp add: k_def)
    have h: "sv_heap s1 p = Some c" using s1(3) Cons.prems(2) by blast
    have "Accepter p s = Accepter p s1"
      using sa new(1) s1(1) h EPOLLET_or by (simp add: Accepter.simps [of p s])
    moreover obtain s' fds where "Accepter p s1 = Done s'" "sv_ok L s'" "k_accepts (sv_kern s') = rest"
      "length fds = length (filter accepted rs)" "k_open (sv_kern s') = fds @ k_open (sv_kern s1)"
      "distinct fds" "set fds \<inter> set (k_open (sv_kern s1)) = {}"
      "dom (sv_connections s') = set fds \<union> dom (sv_connections s1)" "untouched s1 s'"
      using Cons.IH [OF s1(2) h _ acc notin(1)] Cons.prems(3) s1(6) by (auto simp: k_def)
    moreover have "untouched s s1"
      using AddConnection_untouched [OF s1(1) Cons.prems(1) new(2)] by (simp add: k_def stream_def)
    ultimately show ?thesis using s1 k(1) new(4) AOk untouched_trans
      by (intro exI [of _ s'] exI [of _ "fds @ [fd]"]) auto
  qed
qed

lemma Accepter_needs_EAGAIN:
  assumes "AErr EAGAIN \<notin> set (k_accepts (sv_kern s))"
  shows "Accepter p s \<noteq> Done s'"
  using assms
proof (induction p s rule: Accepter.induct)
  case (1 p s)
  show ?case
  proof (cases "k_accepts (sv_kern s)")
    case Nil
    then show ?thesis by (simp add: Accepter.simps [of p s] sock_Accept_def k_accept_def)
  next
    case (Cons r rs)
    show ?thesis
    proof
      assume d: "Accepter p s = Done s'"
      obtain n addr err k where sa: "sock_Accept (sv_listensock s) (sv_kern s) = Done ((n, addr, err), k)"
        using d by (auto simp: Accepter.simps [of p s])
      have err: "n \<le> 0 \<Longrightarrow> err \<noteq> Some EAGAIN" "k_accepts k = rs"
        using sa Cons "1.prems"
        by (auto simp: sock_Accept_def k_accept_def k_new_fd_def Let_def split: accept_res.splits)
      have none: "AErr EAGAIN \<notin> set rs" using "1.prems" Cons by simp
      show False
      proof (cases "n > 0")
        case True
        with d sa obtain ip port s1 c where s1: "addr = Some (ip, port)"
          "AddConnection n (EPOLLIN OR EPOLLET) ip port (put_kern k s) = Done s1"
          "deref s1 p = Done c" "Accepter p s1 = Done s'"
          by (auto simp: Accepter.simps [of p s] EPOLLET_or split: option.splits)
        have "AErr EAGAIN \<notin> set (k_accepts (sv_kern s1))"
          using k_accepts_AddConnection [OF s1(2)] err none by simp
        moreover have "case addr of None \<Rightarrow> Crash Uninitialised
             | Some (client_ip, client_port) \<Rightarrow>
                 AddConnection n (EPOLLIN OR EPOLLET) client_ip client_port (put_kern k s) \<equiv> Done s1"
          using s1 by simp
        ultimately have "Accepter p s1 \<noteq> Done s'"
          using s1 by (intro "1.IH"(1) [OF sa refl refl refl True _ s1(3)]) (auto simp: EPOLLET_or)
        with s1(4) show False by simp
      next
        case False
        with d sa err obtain c where c: "deref (put_kern k s) p = Done c" "Accepter p (put_kern k s) = Done s'"
          by (auto simp: Accepter.simps [of p s] EPOLLET_or)
        have "Accepter p (put_kern k s) \<noteq> Done s'"
          by (rule "1.IH"(2) [OF sa refl refl refl False _ c(1)]) (use False err none in \<open>auto simp: EPOLLET_or\<close>)
        with c(2) show False by simp
      qed
    qed
  qed
qed


section \<open>Properties\<close>

lemmas addh_defs = addHeader_def HEAD_SEP_def

definition demo_server :: "recv_call list \<Rightarrow> send_res list \<Rightarrow> accept_res list \<Rightarrow> server" where
  "demo_server rs ss acs =
     \<lparr>sv_heap = [0 \<mapsto> (Register OnAccept NoSender NoExcepter
          (connection_new 3 ''127.0.0.1'' 8888))\<lparr>conn_events := EPOLLIN OR EPOLLET\<rparr>,
        1 \<mapsto> (Register OnRecv OnSend OnExcept
          (connection_new 5 ''10.0.0.1'' 4000))\<lparr>conn_events := EPOLLIN OR EPOLLET\<rparr>],
      sv_next = 2, sv_connections = [3 \<mapsto> 0, 5 \<mapsto> 1], sv_listensock = \<lparr>sock_fd = 3\<rparr>,
      sv_epoll = \<lparr>epfd = 4\<rparr>,
      sv_kern = boot_kernel\<lparr>k_open := [5, 4, 3, 0, 1, 2], k_accepts := acs,
        k_epoll := [3 \<mapsto> EPOLLIN OR EPOLLET, 5 \<mapsto> EPOLLIN OR EPOLLET],
        k_recvs := (\<lambda>_. [])(5 := rs), k_sends := (\<lambda>_. [])(5 := ss)\<rparr>\<rparr>"

lemma EPOLLET_in [simp]: "(EPOLLIN OR EPOLLET) AND EPOLLET \<noteq> 0" "EPOLLET \<noteq> 0"
  by (simp_all add: EPOLLIN_def EPOLLET_def)

lemma takeWhile_split: "xs = rs @ a # rest \<Longrightarrow> a \<notin> set rs \<Longrightarrow> rs = takeWhile (\<lambda>x. x \<noteq> a) xs"
proof -
  assume "xs = rs @ a # rest" "a \<notin> set rs"
  moreover from this have "takeWhile (\<lambda>x. x \<noteq> a) rs = rs" by (auto simp: takeWhile_eq_all_conv)
  ultimately show ?thesis by (simp add: takeWhile_append_stop)
qed

lemma Init_Server_starts:
  assumes "\<forall>c. k_ok k c" "\<forall>fd. k_watch k fd" "k_epoll k = (\<lambda>_. None)"
  shows "\<exists>s. Init_Server port k = Done s \<and> sock_fd (sv_listensock s) = lowest_fd (k_open k)"
  using assms
  by (simp add: Init_Server_def open_listener_def sock_Socket_def sock_new_def
        k_new_fd_def sock_Bind_def sock_Listen_def Epoll_Create_def AddConnection_def Let_def
        Epoll_AddEvent_def k_ctl_add_def SetNonBlock_def connection_new_def)

lemma demo_server_ok: "sv_ok 3 (demo_server rs ss acs)"
  by (auto simp: sv_ok_def demo_server_def conn_ok_def Register_def connection_new_def
      boot_kernel_def EPOLLET_in split: if_splits)

text \<open>C6. Started by \<open>Init_Server\<close> and serving any rounds of events in which the listening socket
  reports nothing but readability, the reactor never dereferences a deleted connection and never
  calls an empty callback, and after every round its table, its connections, the epoll set and
  the open descriptors agree.\<close>

theorem reactor_safe:
  assumes "Init_Server port k = Done s" "0 \<in> set (k_open k)" "k_epoll k = (\<lambda>_. None)"
    and "\<forall>es\<in>set rounds. \<forall>e\<in>set es. listen_event_ok (sock_fd (sv_listensock s)) e"
    and "json_safe J"
  shows "safe (sv_ok (sock_fd (sv_listensock s))) (Dispatcher J calculate rounds s)"
proof (rule Dispatcher_safe)
  show "sv_ok (sock_fd (sv_listensock s)) s" using assms(1-3) by (rule Init_Server_ok)
qed (use assms(4,5) calculate_safe in auto)

lemma reactor_safe_witness:
  "\<exists>s. Init_Server 8888 (boot_kernel\<lparr>k_accepts := [AOk ''10.0.0.1'' 4000, AErr EAGAIN]\<rparr>) = Done s \<and>
     safe (sv_ok 3) (Dispatcher words_json calculate [[(3, EPOLLIN)], [(5, EPOLLHUP)]] s)"
proof -
  let ?k = "boot_kernel\<lparr>k_accepts := [AOk ''10.0.0.1'' 4000, AErr EAGAIN]\<rparr>"
  have fd: "lowest_fd [0, 1, 2] = 3" "lowest_fd [3, 0, 1, 2] = 4" by code_simp+
  obtain s where s: "Init_Server 8888 ?k = Done s" "sock_fd (sv_listensock s) = 3"
    using Init_Server_starts [of ?k 8888] fd by (auto simp: boot_kernel_def)
  have "\<forall>es\<in>set [[(3, EPOLLIN)], [(5, EPOLLHUP)]]. \<forall>e\<in>set es. listen_event_ok 3 e"
    by (simp add: listen_event_ok_def)
  with reactor_safe [OF s(1), of "[[(3, EPOLLIN)], [(5, EPOLLHUP)]]" words_json] s json_safe_words
  show ?thesis by (auto simp: boot_kernel_def)
qed

text \<open>C7. A hang-up reported for the listening socket itself ends the server: the event is turned
  into readable and writable, the connections that wait are accepted, and then the empty
  \<open>_sender\<close> of the listening connection is called.\<close>

theorem listen_hangup_crashes:
  assumes "sv_ok L s" "\<forall>fd. k_watch (sv_kern s) fd"
    and "k_accepts (sv_kern s) = rs @ AErr EAGAIN # rest" "AErr EAGAIN \<notin> set rs"
  shows "dispatch_event J f (L, EPOLLHUP) s = Crash BadFunctionCall"
proof -
  have "L \<in> dom (sv_connections s)" using assms(1) by (simp add: sv_ok_def)
  then obtain p where p: "sv_connections s L = Some p" by blast
  from sv_ok_table [OF assms(1) p] obtain c where c: "sv_heap s p = Some c" "conn_fd c = L" by blast
  from sv_ok_heap [OF assms(1) c(1)] c(2) have cb: "conn_reciver c = OnAccept" "conn_sender c = NoSender"
    by (simp_all add: conn_ok_def)
  obtain s' where s': "Accepter p s = Done s'" "sv_ok L s'"
    using Accepter_drains [OF assms(1) c(1) assms(2-4)] by blast
  have "L \<in> dom (sv_connections s')" using s'(2) by (simp add: sv_ok_def)
  then obtain p' where p': "sv_connections s' L = Some p'" by blast
  from sv_ok_table [OF s'(2) p'] obtain c' where c': "sv_heap s' p' = Some c'" "conn_fd c' = L" by blast
  from sv_ok_heap [OF s'(2) c'(1)] c'(2) have "conn_sender c' = NoSender" by (simp add: conn_ok_def)
  with p c cb s' p' c' show ?thesis
    by (simp add: dispatch_event_def Let_def EPOLLHUP_def EPOLLERR_def EPOLLIN_def EPOLLOUT_def
        ConnectionIsExists_def call_reciver_def call_sender_def)
qed

lemma listen_hangup_crashes_witness:
  "dispatch_event words_json calculate (3, EPOLLHUP) (demo_server [] [] [AErr EAGAIN])
     = Crash BadFunctionCall"
  by (rule listen_hangup_crashes [where rs = "[]" and rest = "[]", OF demo_server_ok])
    (simp_all add: demo_server_def boot_kernel_def)

text \<open>C8. \<open>Accepter\<close> takes every waiting connection, whatever errors come in between, and returns
  exactly when \<open>accept\<close> reports \<open>EAGAIN\<close>: each connection has its own new descriptor, which is
  open, watched and in the table. While \<open>accept\<close> keeps failing otherwise, for example because no
  descriptor is left, it does not return.\<close>

theorem Accepter_complete:
  assumes "sv_ok L s" "sv_heap s p = Some c" "\<forall>fd. k_watch (sv_kern s) fd"
  shows "if AErr EAGAIN \<in> set (k_accepts (sv_kern s))
    then \<exists>s' fds rs rest. Accepter p s = Done s' \<and> sv_ok L s' \<and>
      k_accepts (sv_kern s) = rs @ AErr EAGAIN # rest \<and> AErr EAGAIN \<notin> set rs \<and>
      k_accepts (sv_kern s') = rest \<and> length fds = length (filter accepted rs) \<and>
      k_open (sv_kern s') = fds @ k_open (sv_kern s) \<and> distinct fds \<and>
      set fds \<inter> set (k_open (sv_kern s)) = {} \<and>
      dom (sv_connections s') = set fds \<union> dom (sv_connections s)
    else \<forall>s'. Accepter p s \<noteq> Done s'"
proof (cases "AErr EAGAIN \<in> set (k_accepts (sv_kern s))")
  case True
  then obtain rs rest where "k_accepts (sv_kern s) = rs @ AErr EAGAIN # rest" "AErr EAGAIN \<notin> set rs"
    by (meson split_list_first)
  with True Accepter_drains [OF assms this] show ?thesis by auto
next
  case False
  with Accepter_needs_EAGAIN [OF False] show ?thesis by simp
qed

lemma Accepter_complete_witness:
  "\<exists>s' fds. Accepter 0 (demo_server [] [] [AOk ''10.0.0.2'' 1, AErr EINTR, AOk ''10.0.0.3'' 2, AErr EAGAIN])
     = Done s' \<and> length fds = 2 \<and> dom (sv_connections s') = set fds \<union> {3, 5}"
proof -
  let ?s = "demo_server [] [] [AOk ''10.0.0.2'' 1, AErr EINTR, AOk ''10.0.0.3'' 2, AErr EAGAIN]"
  have n: "length (filter accepted rs) = 2"
    if "k_accepts (sv_kern ?s) = rs @ AErr EAGAIN # rest" "AErr EAGAIN \<notin> set rs" for rs rest
    using takeWhile_split [OF that] by (simp add: demo_server_def boot_kernel_def)
  have dm: "dom (sv_connections ?s) = {3, 5}"
    by (auto simp: demo_server_def split: if_splits)
  have e: "AErr EAGAIN \<in> set (k_accepts (sv_kern ?s))" "\<forall>fd. k_watch (sv_kern ?s) fd"
    by (simp_all add: demo_server_def boot_kernel_def)
  obtain c where c: "sv_heap ?s 0 = Some c" by (simp add: demo_server_def)
  obtain s' fds rs rest where "Accepter 0 ?s = Done s'" "length fds = length (filter accepted rs)"
    "k_accepts (sv_kern ?s) = rs @ AErr EAGAIN # rest" "AErr EAGAIN \<notin> set rs"
    "dom (sv_connections s') = set fds \<union> dom (sv_connections ?s)"
    using Accepter_complete [OF demo_server_ok c e(2)] e(1) by (simp only: if_True) blast
  with n dm show ?thesis by (intro exI [of _ s'] exI [of _ fds]) simp
qed

text \<open>C9. \<open>HandleRecive\<close> reads until \<open>EAGAIN\<close> and keeps the connection, but what it appends is the
  C string that starts in the array: the received bytes up to a zero byte, followed by what the
  array held before when they do not end in front of a zero byte.\<close>

theorem HandleRecive_appends:
  assumes "conn_state p s c (data_calls cs @ (old, RErr EAGAIN) # rest) ss sent" "client_conn c"
    and "list_all delivers cs"
  shows "\<exists>s'. HandleRecive p s = Done (True, s') \<and>
    conn_state p s' (c\<lparr>conn_inbuffer := conn_inbuffer c @ concat (map appended cs)\<rparr>) rest ss sent \<and>
    (\<forall>(od, d) \<in> set cs. NUL \<notin> set d \<longrightarrow> appended (od, d) = d @ c_str (drop (length d) od))"
proof -
  have "HandleRecive p s = recv_loop (data_calls cs @ (old, RErr EAGAIN) # rest) p s"
    using assms(1) by (simp add: HandleRecive_def conn_state_def)
  moreover have "NUL \<notin> set d \<longrightarrow> appended (od, d) = d @ c_str (drop (length d) od)" for od d
    by (simp add: appended_def recv_into_def c_str_append)
  ultimately show ?thesis using recv_loop_data [OF assms] by auto
qed

lemma HandleRecive_appends_witness:
  "\<exists>s' c'. HandleRecive 1 (demo_server [([CHR ''a'', CHR ''b'', CHR ''c'', NUL], RData ''x''),
      ([], RErr EAGAIN)] [] []) = Done (True, s') \<and> sv_heap s' 1 = Some c' \<and> conn_inbuffer c' = ''xbc''"
proof -
  let ?cs = "[([CHR ''a'', CHR ''b'', CHR ''c'', NUL], ''x'')]"
  let ?s = "demo_server (data_calls ?cs @ ([], RErr EAGAIN) # []) [] []"
  obtain c where c: "conn_state 1 ?s c (data_calls ?cs @ ([], RErr EAGAIN) # []) [] []" "client_conn c"
    "conn_inbuffer c = []"
    by (simp add: conn_state_def demo_server_def client_conn_def Register_def connection_new_def
        boot_kernel_def EPOLLET_in)
  have "list_all delivers ?cs" by (simp add: delivers_def recv_into_def NUL_def)
  from HandleRecive_appends [OF c(1,2) this] c(3) show ?thesis
    by (auto simp: conn_state_def appended_def recv_into_def c_str_def data_calls_def NUL_def)
qed




text \<open>End to end: the framed requests of one client, cut into any chunks and delivered by any
  number of read events, are answered once each, in the order they were sent, and nothing of them
  is left over; the framed responses are what the kernel took followed by what the connection
  still has to send.\<close>

theorem reactor_serves:
  assumes "conn_state p s c (read_script evs) ss []" "client_conn c"
    and "conn_inbuffer c = []" "conn_outbuffer c = []"
    and "list_all (list_all delivers) evs"
    and "concat (map appended (concat evs)) = concat (map (\<lambda>r. addHeader (Request_serialize J r)) reqs)"
    and "list_all (\<lambda>r. payload_ok (Request_serialize J r) \<and>
          Request_deserialize J (Request_serialize J r) = Done r \<and> calculate r = Done (answer r)) reqs"
    and "sends_ok ss" "length evs \<le> fulls ss"
  shows "\<exists>s' c'. Dispatcher J calculate (map (\<lambda>_. [(conn_fd c, EPOLLIN)]) evs) s = Done s' \<and>
    sv_heap s' p = Some c' \<and> conn_inbuffer c' = [] \<and>
    k_sent (sv_kern s') (conn_fd c) @ conn_outbuffer c'
      = concat (map (\<lambda>r. addHeader (Response_serialize J (answer r))) reqs)"
proof -
  let ?ps = "map (Request_serialize J) reqs"
  let ?out = "concat (map (\<lambda>r. addHeader (Response_serialize J (answer r))) reqs)"
  have ok: "list_all payload_ok ?ps" using assms(7) by (auto simp: list_all_iff)
  have r: "respond_all J calculate ?ps = Done ?out"
    using assms(7) by (induction reqs) (auto simp: respond_def)
  have front: "(?ps = [] \<and> conn_inbuffer c = []) \<or>
      (\<exists>q qs d. ?ps = q # qs \<and> addHeader q = conn_inbuffer c @ d \<and> d \<noteq> [])"
    using assms(3) by (cases ?ps) (auto simp: addHeader_def)
  have "conn_inbuffer c @ concat (map appended (concat evs)) = concat (map addHeader ?ps)"
    using assms(3,6) by (simp add: comp_def)
  from Dispatcher_serves [OF assms(1,2,5) this ok r assms(8,9) front] assms(4)
  show ?thesis by (auto simp: conn_state_def)
qed

lemma reactor_serves_witness:
  "\<exists>s' c'. Dispatcher words_json calculate [[(5, EPOLLIN)], [(5, EPOLLIN)]]
      (demo_server (read_script [[([NUL, NUL, NUL, NUL, NUL], ''13'')],
          [(replicate 32 NUL, drop 2 (addHeader ''x:7 y:5 op:43''))]])
        [SRet 3 EAGAIN, SRet (- 1) EAGAIN, SRet (- 1) EAGAIN] []) = Done s' \<and>
    sv_heap s' 1 = Some c' \<and> k_sent (sv_kern s') 5 @ conn_outbuffer c'
      = addHeader (Response_serialize words_json \<lparr>resp_result = 12, resp_code = 0\<rparr>)"
proof -
  let ?evs = "[[([NUL, NUL, NUL, NUL, NUL], ''13'')],
          [(replicate 32 NUL, drop 2 (addHeader ''x:7 y:5 op:43''))]]"
  let ?ss = "[SRet 3 EAGAIN, SRet (- 1) EAGAIN, SRet (- 1) EAGAIN]"
  let ?s = "demo_server (read_script ?evs) ?ss []"
  obtain c where c: "conn_state 1 ?s c (read_script ?evs) ?ss []" "client_conn c"
    "conn_inbuffer c = []" "conn_outbuffer c = []" "conn_fd c = 5"
    by (simp add: conn_state_def demo_server_def client_conn_def Register_def connection_new_def
        boot_kernel_def)
  have h1: "list_all (list_all delivers) ?evs" by code_simp
  have h2: "concat (map appended (concat ?evs))
      = concat (map (\<lambda>r. addHeader (Request_serialize words_json r)) [sum_request])"
    by code_simp
  have h3: "list_all (\<lambda>r. payload_ok (Request_serialize words_json r) \<and>
      Request_deserialize words_json (Request_serialize words_json r) = Done r \<and>
      calculate r = Done ((\<lambda>_. \<lparr>resp_result = 12, resp_code = 0\<rparr>) r)) [sum_request]"
    by (simp add: words_json_sum words_json_sum_back payload_ok_def)
      (simp add: calculate_def sum_request_def checked_def fits_int_def)
  have h4: "sends_ok ?ss" "length ?evs \<le> fulls ?ss" by (auto simp: sends_ok_def fulls_def)
  from reactor_serves [OF c(1-4) h1 h2 h3 h4] c(5) show ?thesis
    by (simp del: Dispatcher.simps) blast
qed

end
