(* ===== verification/CalServer.thy ===== *)
theory CalServer
  imports EpollService
begin

text \<open>
  The threaded calculator of \<open>7.20/netCalculator\<close>: \<open>readPackage\<close> on a socket, the service loop a
  thread runs for one client (\<open>cal_server.hpp\<close>), the loop that accepts clients, and the client
  program (\<open>client.cc\<close>) with its parser of formulas.
\<close>

section \<open>Reading\<close>

text \<open>
  One call of \<open>recv\<close> into a 2048-byte array, the appending of the array as a C string, and then
  the parsing of the buffer, which is that of the epoll server: the two share \<open>readPackage\<close>.
\<close>

definition readPackage_sock ::
  "int \<Rightarrow> string \<Rightarrow> kernel \<Rightarrow> ((int \<times> string \<times> string) \<times> kernel) outcome" where
  "readPackage_sock sock inbuffer k =
     bind_out (k_recv sock k) (\<lambda>(call, k1). case call of (old, r) \<Rightarrow>
       (case r of
          RData data \<Rightarrow>
            (if data = [] then Done ((- 1, [], inbuffer), k1)
             else bind_out (buf_set (recv_into old data) (int (length data)) NUL) (\<lambda>buffer.
                  bind_out (c_string buffer) (\<lambda>str.
                    Done (readPackage (inbuffer @ str), k1))))
        | REof \<Rightarrow> Done ((- 1, [], inbuffer), k1)
        | RErr e \<Rightarrow> Done ((- 1, [], inbuffer), k1)))"

lemma readPackage_sock_shorter:
  "readPackage_sock sock b k = Done (r, k') \<Longrightarrow> length (k_recvs k' sock) < length (k_recvs k sock)"
proof -
  assume h: "readPackage_sock sock b k = Done (r, k')"
  then obtain c k1 where c: "k_recv sock k = Done (c, k1)" by (auto simp: readPackage_sock_def)
  with h have "k' = k1"
    by (cases c; cases "snd c") (auto simp: readPackage_sock_def split: if_splits)
  with c show ?thesis by (auto simp: k_recv_iff)
qed

section \<open>The service loop\<close>

definition answer_package ::
  "json_lib \<Rightarrow> (request \<Rightarrow> response outcome) \<Rightarrow> int \<Rightarrow> int \<Rightarrow> string \<Rightarrow> kernel \<Rightarrow> kernel outcome" where
  "answer_package J func sock n package k =
     bind_out (removeHeader package n) (\<lambda>payload.
     bind_out (respond J func payload) (\<lambda>send_str. k_send sock send_str k))"

lemma answer_package_recvs: "answer_package J func sock n p k = Done k' \<Longrightarrow> k_recvs k' = k_recvs k"
  by (auto simp: answer_package_def dest: k_send_recvs)

function serviceIO ::
  "json_lib \<Rightarrow> (request \<Rightarrow> response outcome) \<Rightarrow> int \<Rightarrow> string \<Rightarrow> kernel \<Rightarrow> kernel outcome" where
  "serviceIO J func sock inbuffer k =
     bind_out (readPackage_sock sock inbuffer k) (\<lambda>(r, k1). case r of (n, package, inbuffer1) \<Rightarrow>
       if n = - 1 then Done k1
       else if n = 0 then serviceIO J func sock inbuffer1 k1
       else bind_out (answer_package J func sock n package k1) (serviceIO J func sock inbuffer1))"
  by pat_completeness auto
termination
  by (relation "measure (\<lambda>(J, func, sock, inbuffer, k). length (k_recvs k sock))")
     (auto dest!: readPackage_sock_shorter answer_package_recvs)

declare serviceIO.simps [simp del]

section \<open>Accepting\<close>

record thread_data =
  td_sock :: int
  td_ip :: string
  td_port :: int

record cal_server =
  cs_listensock :: sock
  cs_threads :: "thread_data list"
  cs_kern :: kernel

definition init_cal_server :: "int \<Rightarrow> kernel \<Rightarrow> cal_server outcome" where
  "init_cal_server port k =
     bind_out (open_listener port k) (\<lambda>(so, k1).
       Done \<lparr>cs_listensock = so, cs_threads = [], cs_kern = k1\<rparr>)"

text \<open>One round of \<open>start_server\<close>: \<open>len\<close> is the uninitialised length that \<open>Accept\<close> passes on.\<close>

definition cal_accept :: "int \<Rightarrow> cal_server \<Rightarrow> cal_server outcome" where
  "cal_accept len s =
     bind_out (sock_Accept_uninit len (cs_listensock s) (cs_kern s)) (\<lambda>(r, k). case r of (n, addr) \<Rightarrow>
       if n < 0 then Done (s\<lparr>cs_kern := k\<rparr>)
       else (case addr of
           None \<Rightarrow> Crash Uninitialised
         | Some (ip, port) \<Rightarrow> Done (s\<lparr>cs_kern := k,
             cs_threads := cs_threads s @ [\<lparr>td_sock = n, td_ip = ip, td_port = port\<rparr>]\<rparr>)))"

text \<open>
  \<open>threadRoutine\<close> of one of the threads: the service, and the end of the thread. The socket is
  not closed.
\<close>

definition threadRoutine ::
  "json_lib \<Rightarrow> (request \<Rightarrow> response outcome) \<Rightarrow> thread_data \<Rightarrow> cal_server \<Rightarrow> cal_server outcome" where
  "threadRoutine J func td s =
     bind_out (serviceIO J func (td_sock td) [] (cs_kern s)) (\<lambda>k.
       Done (s\<lparr>cs_kern := k, cs_threads := remove1 td (cs_threads s)\<rparr>))"

section \<open>The client\<close>

datatype formula_state = FLeft | FOperator | FRight

text \<open>
  The loop of \<open>splitFormula\<close>: the two texts and the operator, \<open>None\<close> while it is not assigned.
  In the last state a character that is no digit is never passed.
\<close>

partial_function (option) split_formula_loop ::
  "string \<Rightarrow> nat \<Rightarrow> formula_state \<Rightarrow> string \<Rightarrow> string \<Rightarrow> char option \<Rightarrow> (string \<times> string \<times> char option) option" where
  "split_formula_loop formula i stat left right op =
     (if i < length formula then
        (case stat of
           FLeft \<Rightarrow>
             (if is_digit (formula ! i)
              then split_formula_loop formula (i + 1) FLeft (left @ [formula ! i]) right op
              else split_formula_loop formula i FOperator left right op)
         | FOperator \<Rightarrow> split_formula_loop formula (i + 1) FRight left right (Some (formula ! i))
         | FRight \<Rightarrow>
             (if is_digit (formula ! i)
              then split_formula_loop formula (i + 1) FRight left (right @ [formula ! i]) op
              else split_formula_loop formula i FRight left right op))
      else Some (left, right, op))"

definition splitFormula :: "string \<Rightarrow> request outcome option" where
  "splitFormula formula =
     Option.bind (split_formula_loop formula 0 FLeft [] [] None) (\<lambda>(left, right, op). Some
       (case op of
          None \<Rightarrow> Crash Uninitialised
        | Some c \<Rightarrow> Done \<lparr>req_x = toInt left, req_y = toInt right, req_op = c\<rparr>))"

text \<open>The client's \<open>startRead\<close> loop: \<open>None\<close> if the server is gone, or the response and the buffer.\<close>

function await_response ::
  "json_lib \<Rightarrow> int \<Rightarrow> string \<Rightarrow> kernel \<Rightarrow> ((response \<times> string) option \<times> kernel) outcome" where
  "await_response J sock buffer k =
     bind_out (readPackage_sock sock buffer k) (\<lambda>(r, k1). case r of (n, package, buffer1) \<Rightarrow>
       if n = - 1 then Done (None, k1)
       else if n = 0 then await_response J sock buffer1 k1
       else bind_out (removeHeader package n) (\<lambda>payload.
            bind_out (Response_deserialize J payload) (\<lambda>resp. Done (Some (resp, buffer1), k1))))"
  by pat_completeness auto
termination
  by (relation "measure (\<lambda>(J, sock, buffer, k). length (k_recvs k sock))")
     (auto dest!: readPackage_sock_shorter)

declare await_response.simps [simp del]

text \<open>
  The loop of \<open>main\<close>, over the lines typed: what it prints. It ends when the server is gone.
  The lines are given; the loop itself reads on forever, at the end of the input too.
\<close>

fun client_loop ::
  "json_lib \<Rightarrow> int \<Rightarrow> string \<Rightarrow> string list \<Rightarrow> response list \<Rightarrow> kernel \<Rightarrow> (response list \<times> kernel) outcome option" where
  "client_loop J sock buffer [] shown k = Some (Done (shown, k))"
| "client_loop J sock buffer (line # lines) shown k =
     Option.bind (splitFormula line) (\<lambda>m.
       case bind_out m (\<lambda>req. bind_out (k_send sock (addHeader (Request_serialize J req)) k) (\<lambda>k1.
              await_response J sock buffer k1)) of
         Done (None, k2) \<Rightarrow> Some (Done (shown, k_close sock k2))
       | Done (Some (resp, buffer1), k2) \<Rightarrow> client_loop J sock buffer1 lines (shown @ [resp]) k2
       | Crash e \<Rightarrow> Some (Crash e)
       | Blocked \<Rightarrow> Some Blocked)"

section \<open>Formulas\<close>

lemma split_formula_loop_end:
  "length formula \<le> i \<Longrightarrow> split_formula_loop formula i stat l r op = Some (l, r, op)"
  by (simp add: split_formula_loop.simps [of formula i])

lemma split_formula_right_digits:
  "list_all is_digit (drop i formula) \<Longrightarrow>
   split_formula_loop formula i FRight l r op = Some (l, r @ drop i formula, op)"
proof (induction "length formula - i" arbitrary: i r)
  case 0
  then show ?case by (simp add: split_formula_loop_end)
next
  case (Suc n)
  then have i: "i < length formula" by simp
  then have d: "drop i formula = formula ! i # drop (i + 1) formula" by (simp add: Cons_nth_drop_Suc)
  with Suc.prems have "is_digit (formula ! i)" "list_all is_digit (drop (i + 1) formula)" by simp_all
  with Suc.hyps(1) [of "i + 1" "r @ [formula ! i]"] Suc.hyps(2) i d show ?case
    by (simp add: split_formula_loop.simps [of formula i])
qed

text \<open>The loop stays in the last state once it is there, and passes digits only.\<close>

lemma split_formula_right_stuck:
  assumes "split_formula_loop formula i FRight l r op = Some res"
  shows "list_all is_digit (drop i formula)"
proof -
  have "stat = FRight \<longrightarrow> list_all is_digit (drop i formula)" if "split_formula_loop formula i stat l r op = Some res" for stat
  proof (rule split_formula_loop.raw_induct
      [where P = "\<lambda>formula i stat l r op res. stat = FRight \<longrightarrow> list_all is_digit (drop i formula)", OF _ that])
    fix f :: "string \<Rightarrow> nat \<Rightarrow> formula_state \<Rightarrow> string \<Rightarrow> string \<Rightarrow> char option \<Rightarrow> (string \<times> string \<times> char option) option"
      and formula l r :: string and i :: nat and stat :: formula_state and op res
    assume IH: "\<And>formula i stat l r op res. f formula i stat l r op = Some res \<Longrightarrow>
        stat = FRight \<longrightarrow> list_all is_digit (drop i formula)"
      and eq: "(if i < length formula then
        (case stat of
           FLeft \<Rightarrow> (if is_digit (formula ! i) then f formula (i + 1) FLeft (l @ [formula ! i]) r op
                    else f formula i FOperator l r op)
         | FOperator \<Rightarrow> f formula (i + 1) FRight l r (Some (formula ! i))
         | FRight \<Rightarrow> (if is_digit (formula ! i) then f formula (i + 1) FRight l (r @ [formula ! i]) op
                     else f formula i FRight l r op))
      else Some (l, r, op)) = Some res"
    show "stat = FRight \<longrightarrow> list_all is_digit (drop i formula)"
    proof
      assume s: "stat = FRight"
      show "list_all is_digit (drop i formula)"
      proof (cases "i < length formula")
        case True
        then have d: "drop i formula = formula ! i # drop (i + 1) formula" by (simp add: Cons_nth_drop_Suc)
        show ?thesis
        proof (cases "is_digit (formula ! i)")
          case digit: True
          with eq s True have "f formula (i + 1) FRight l (r @ [formula ! i]) op = Some res" by simp
          from IH [OF this] d digit show ?thesis by simp
        next
          case False
          with eq s True have "f formula i FRight l r op = Some res" by simp
          from IH [OF this] show ?thesis by simp
        qed
      qed simp
    qed
  qed
  with assms show ?thesis by blast
qed

lemma split_formula_left:
  "list_all is_digit (take j (drop i formula)) \<Longrightarrow> i + j \<le> length formula \<Longrightarrow>
   split_formula_loop formula i FLeft l r op =
   split_formula_loop formula (i + j) FLeft (l @ take j (drop i formula)) r op"
proof (induction j arbitrary: i l)
  case (Suc j)
  then have i: "i < length formula" by simp
  then have d: "drop i formula = formula ! i # drop (i + 1) formula" by (simp add: Cons_nth_drop_Suc)
  with Suc.prems have "is_digit (formula ! i)" "list_all is_digit (take j (drop (i + 1) formula))" by simp_all
  with Suc.IH [of "i + 1" "l @ [formula ! i]"] Suc.prems(2) i d show ?case
    by (simp add: split_formula_loop.simps [of formula i])
qed simp

lemma splitFormula_digits:
  "list_all is_digit l \<Longrightarrow> splitFormula l = Some (Crash Uninitialised)"
  using split_formula_left [of "length l" 0 l "[]" "[]" None]
  by (simp add: splitFormula_def split_formula_loop_end)

lemma splitFormula_op:
  assumes "list_all is_digit l" "\<not> is_digit c"
  shows "splitFormula (l @ c # r) =
    (if list_all is_digit r then Some (Done \<lparr>req_x = toInt l, req_y = toInt r, req_op = c\<rparr>) else None)"
proof -
  let ?f = "l @ c # r"
  have n: "?f ! length l = c" by simp
  have "split_formula_loop ?f 0 FLeft [] [] None = split_formula_loop ?f (length l) FLeft l [] None"
    using split_formula_left [of "length l" 0 ?f "[]" "[]" None] assms(1) by simp
  also have "\<dots> = split_formula_loop ?f (length l + 1) FRight l [] (Some c)"
    using assms(2) n by (simp add: split_formula_loop.simps [of ?f "length l"])
  finally have s: "split_formula_loop ?f 0 FLeft [] [] None = split_formula_loop ?f (length l + 1) FRight l [] (Some c)" .
  show ?thesis
  proof (cases "list_all is_digit r")
    case True
    with s split_formula_right_digits [of "length l + 1" ?f l "[]" "Some c"] show ?thesis
      by (simp add: splitFormula_def)
  next
    case False
    then have "split_formula_loop ?f (length l + 1) FRight l [] (Some c) \<noteq> Some res" for res
      using split_formula_right_stuck [of ?f "length l + 1" l "[]" "Some c" res] by auto
    then have "split_formula_loop ?f (length l + 1) FRight l [] (Some c) = None"
      by (cases "split_formula_loop ?f (length l + 1) FRight l [] (Some c)") auto
    with False s show ?thesis by (simp add: splitFormula_def)
  qed
qed

text \<open>What the client's parser of formulas does with every line: a line of digits only, the
  empty line included, makes it read an operator that was never assigned; a line of digits, an
  operator and digits gives the request they say; on every other line it never returns.\<close>

theorem splitFormula_cases:
  "splitFormula line =
     (let l = takeWhile is_digit line
      in case dropWhile is_digit line of
           [] \<Rightarrow> Some (Crash Uninitialised)
         | c # r \<Rightarrow>
             (if list_all is_digit r
              then Some (Done \<lparr>req_x = toInt l, req_y = toInt r, req_op = c\<rparr>) else None))"
proof (cases "dropWhile is_digit line")
  case Nil
  then have "list_all is_digit line" by (simp add: dropWhile_eq_Nil_conv list_all_iff)
  then show ?thesis unfolding Nil by (simp add: splitFormula_digits)
next
  case (Cons c r)
  have l: "list_all is_digit (takeWhile is_digit line)"
    by (auto simp: list_all_iff dest: set_takeWhileD)
  have c: "\<not> is_digit c" using Cons by (metis hd_dropWhile list.distinct(1) list.sel(1))
  have "line = takeWhile is_digit line @ c # r"
    using Cons takeWhile_dropWhile_id [of is_digit line] by simp
  with splitFormula_op [OF l c, of r] Cons show ?thesis by simp
qed

section \<open>Serving one client\<close>

text \<open>
  The chunks of a stream of frames, each taken by one call of \<open>recv\<close>: after a chunk at most one
  package is taken, so \<open>answered\<close> counts how many are by the end. \<open>have\<close> bytes are waiting.
\<close>

fun answered :: "nat \<Rightarrow> string list \<Rightarrow> string list \<Rightarrow> nat" where
  "answered have_bytes fs [] = 0"
| "answered have_bytes [] (c # cs) = 0"
| "answered have_bytes (f # fs) (c # cs) =
     (if length f \<le> have_bytes + length c then Suc (answered (have_bytes + length c - length f) fs cs)
      else answered (have_bytes + length c) (f # fs) cs)"

definition chunk_ok :: "string \<times> string \<Rightarrow> bool" where
  "chunk_ok call \<longleftrightarrow> (case call of (old, d) \<Rightarrow>
     length old = 2048 \<and> d \<noteq> [] \<and> length d < 2048 \<and> NUL \<notin> set d)"

lemma readPackage_sock_chunk:
  assumes "chunk_ok (old, d)" "k_recvs k sock = (old, RData d) # rest"
  shows "readPackage_sock sock b k = Done (readPackage (b @ d), k\<lparr>k_recvs := (k_recvs k)(sock := rest)\<rparr>)"
proof -
  have "bind_out (buf_set (recv_into old d) (int (length d)) NUL) c_string = Done d"
    using assms(1) by (subst terminated_recv_c_string) (simp_all add: chunk_ok_def c_str_id)
  with assms show ?thesis
    by (auto simp: readPackage_sock_def k_recv_def chunk_ok_def)
qed

text \<open>A call of \<open>send\<close> for which the kernel has room for all that an \<open>int\<close> can count.\<close>

definition takes_all :: "send_res \<Rightarrow> bool" where
  "takes_all r \<longleftrightarrow> (case r of SRet n e \<Rightarrow> 2 ^ 31 \<le> n)"

lemma k_send_all:
  assumes "k_sends k fd = x # xs" "list_all takes_all (k_sends k fd)" "length res < 2 ^ 31"
  shows "k_send fd res k = Done (k\<lparr>k_sends := (k_sends k)(fd := xs), k_sent := (k_sent k)(fd := k_sent k fd @ res)\<rparr>)"
proof -
  obtain n e where x: "x = SRet n e" by (cases x)
  with assms(1,2) have n: "2 ^ 31 \<le> n" by (simp add: takes_all_def)
  have "int (length res) < 2 ^ 31" using assms(3) by simp
  with n have "length res \<le> nat n" by (simp add: le_nat_iff)
  with n assms(1) x show ?thesis by (simp add: k_send_def)
qed

definition other_fds_same :: "int \<Rightarrow> kernel \<Rightarrow> kernel \<Rightarrow> bool" where
  "other_fds_same fd k k' \<longleftrightarrow> k_open k' = k_open k \<and>
     (\<forall>g. g \<noteq> fd \<longrightarrow> k_recvs k' g = k_recvs k g \<and> k_sends k' g = k_sends k g \<and> k_sent k' g = k_sent k g)"

lemma serviceIO_answers:
  assumes "list_all chunk_ok cs" "list_all (\<lambda>r. payload_ok (Request_serialize J r) \<and>
      Request_deserialize J (Request_serialize J r) = Done r \<and> func r = Done (answer r) \<and>
      length (addHeader (Response_serialize J (answer r))) \<le> 2 ^ 31) reqs"
    and "b @ concat (map snd cs) = concat (map (\<lambda>r. addHeader (Request_serialize J r)) reqs)"
    and "k_recvs k sock = data_calls cs @ (old, REof) # rest"
    and "k_sends k sock = ss" "list_all takes_all ss" "length cs \<le> length ss"
  shows "\<exists>k'. serviceIO J func sock b k = Done k' \<and> other_fds_same sock k k' \<and>
    k_sent k' sock = k_sent k sock @ concat (map (\<lambda>r. addHeader (Response_serialize J (answer r)))
      (take (answered (length b) (map (\<lambda>r. addHeader (Request_serialize J r)) reqs) (map snd cs)) reqs))"
  using assms
proof (induction cs arbitrary: b reqs k ss)
  case Nil
  from Nil.prems(4) have "serviceIO J func sock b k = Done (k\<lparr>k_recvs := (k_recvs k)(sock := rest)\<rparr>)"
    by (simp add: serviceIO.simps [of J func sock b k] readPackage_sock_def k_recv_def data_calls_def)
  then show ?case by (simp add: other_fds_same_def)
next
  case (Cons call cs)
  obtain od d where call: "call = (od, d)" by (cases call)
  define k1 where "k1 = k\<lparr>k_recvs := (k_recvs k)(sock := data_calls cs @ (old, REof) # rest)\<rparr>"
  have k1: "k_recvs k1 sock = data_calls cs @ (old, REof) # rest" "k_sends k1 sock = ss"
    "other_fds_same sock k k1" "k_sent k1 = k_sent k"
    using Cons.prems(5) by (simp_all add: k1_def other_fds_same_def)
  have rd: "readPackage_sock sock b k = Done (readPackage (b @ d), k1)"
    unfolding k1_def by (rule readPackage_sock_chunk) (use Cons.prems(1,4) call in \<open>simp_all add: data_calls_def\<close>)
  let ?fs = "map (\<lambda>r. addHeader (Request_serialize J r)) reqs"
  have d: "d \<noteq> []" using Cons.prems(1) call by (simp add: chunk_ok_def)
  have st: "(b @ d) @ concat (map snd cs) = concat ?fs" using Cons.prems(3) call by simp
  have tr: "other_fds_same sock k k'" if "other_fds_same sock k1 k'" for k'
    using that k1(3) by (simp add: other_fds_same_def)
  from st d obtain r rs where reqs: "reqs = r # rs" by (cases reqs) auto
  let ?f = "addHeader (Request_serialize J r)"
  note ok = Cons.prems(2) [unfolded reqs list.pred_inject(2)]
  have pl: "length (Request_serialize J r) < 2 ^ 30" "Request_serialize J r \<noteq> []"
    using ok by (simp_all add: payload_ok_def)
  show ?case
  proof (cases "length ?f \<le> length b + length d")
    case True
    define b1 where "b1 = drop (length ?f) (b @ d)"
    have st': "(b @ d) @ concat (map snd cs) = ?f @ concat (map (\<lambda>r. addHeader (Request_serialize J r)) rs)"
      using st reqs by simp
    have lf: "length ?f \<le> length (b @ d)" using True by simp
    note tk = append_eq_long(1) [OF st' lf]
    note st1 = append_eq_long(2) [OF st' lf, folded b1_def]
    have rp: "readPackage (b @ d) = (int (length (Request_serialize J r)), ?f, b1)"
      by (subst tk) (simp only: readPackage_frame [OF pl(1)] b1_def)
    obtain s0 ss0 where ss: "ss = s0 # ss0" "takes_all s0" "list_all takes_all ss0" "length cs \<le> length ss0"
      using Cons.prems(6,7) by (cases ss) auto
    obtain n e where s0: "s0 = SRet n e" "2 ^ 31 \<le> n" using ss(2) by (cases s0) (auto simp: takes_all_def)
    let ?a = "addHeader (Response_serialize J (answer r))"
    define k2 where "k2 = k1\<lparr>k_sends := (k_sends k1)(sock := ss0), k_sent := (k_sent k1)(sock := k_sent k1 sock @ ?a)\<rparr>"
    have "length ?a \<le> 2 ^ 31" using ok by simp
    moreover have "nat (2 ^ 31) \<le> nat n" using s0(2) by (rule nat_mono)
    ultimately have "length ?a \<le> nat n" by simp
    then have "k_send sock ?a k1 = Done k2"
      using k1(2) ss(1) s0 by (simp add: k_send_def k2_def)
    then have an: "answer_package J func sock (int (length (Request_serialize J r))) ?f k1 = Done k2"
      using ok by (simp add: answer_package_def removeHeader_frame [OF pl(1)] respond_def)
    have k2: "k_recvs k2 sock = data_calls cs @ (old, REof) # rest" "k_sends k2 sock = ss0"
      "other_fds_same sock k1 k2" "k_sent k2 sock = k_sent k sock @ ?a"
      using k1 by (simp_all add: k2_def other_fds_same_def)
    have step: "serviceIO J func sock b k = serviceIO J func sock b1 k2"
      using rd rp an pl(2) by (simp add: serviceIO.simps [of J func sock b k])
    have lb: "length b1 = length b + length d - length ?f" by (simp add: b1_def)
    have "list_all chunk_ok cs" using Cons.prems(1) by simp
    from Cons.IH [OF this _ st1 k2(1,2) ss(3,4)] ok
    obtain k' where k': "serviceIO J func sock b1 k2 = Done k'" "other_fds_same sock k2 k'"
      "k_sent k' sock = k_sent k2 sock @ concat (map (\<lambda>r. addHeader (Response_serialize J (answer r)))
        (take (answered (length b1) (map (\<lambda>r. addHeader (Request_serialize J r)) rs) (map snd cs)) rs))"
      by blast
    have "other_fds_same sock k1 k'" using k'(2) k2(3) by (simp add: other_fds_same_def)
    with k' k2(4) step True show ?thesis
      by (intro exI [of _ k']) (simp add: reqs call lb tr)
  next
    case False
    then have ln: "length (b @ d) < length ?f" by simp
    have "(b @ d) @ concat (map snd cs) = ?f @ concat (map (\<lambda>r. addHeader (Request_serialize J r)) rs)"
      using st reqs by simp
    from append_eq_short [OF this ln] obtain c where c: "?f = (b @ d) @ c" "c \<noteq> []" by blast
    have rp: "readPackage (b @ d) = (0, [], b @ d)" by (rule readPackage_partial [OF pl(1) c])
    have step: "serviceIO J func sock b k = serviceIO J func sock (b @ d) k1"
      using rd rp by (simp add: serviceIO.simps [of J func sock b k])
    have "list_all chunk_ok cs" "length cs \<le> length ss" using Cons.prems(1,7) by simp_all
    from Cons.IH [OF this(1) Cons.prems(2) st k1(1,2) Cons.prems(6) this(2)]
    obtain k' where k': "serviceIO J func sock (b @ d) k1 = Done k'" "other_fds_same sock k1 k'"
      "k_sent k' sock = k_sent k1 sock @ concat (map (\<lambda>r. addHeader (Response_serialize J (answer r)))
        (take (answered (length (b @ d)) ?fs (map snd cs)) reqs))"
      by blast
    with step k1(4) False show ?thesis
      by (intro exI [of _ k']) (simp add: reqs call tr)
  qed
qed

end
