(* ===== verification/CalProps.thy ===== *)
theory CalProps
  imports CalServer Examples
begin

text \<open>
  What the threaded calculator does for a client, which messages end it, and what the client
  shows.
\<close>

lemma conj_or_split: "(A \<and> B \<and> X) = C \<Longrightarrow> (A \<and> B \<and> (X \<or> Y)) = (C \<or> A \<and> B \<and> Y)"
  by blast

lemma answered_le: "answered n fs cs \<le> length fs"
  by (induction n fs cs rule: answered.induct) auto

text \<open>The service of one client: with the framed requests cut into any chunks, after every
  chunk at most one package is taken, so of the requests the first \<open>answered\<close> are answered, each
  once and in order, and a request that arrived together with an earlier one may get no answer
  at all. Nothing that belongs to another descriptor is touched, and when the client is gone its
  socket is still open.\<close>

theorem cal_server_serves:
  assumes "list_all chunk_ok cs" "list_all (\<lambda>r. payload_ok (Request_serialize J r) \<and>
      Request_deserialize J (Request_serialize J r) = Done r \<and> func r = Done (answer r) \<and>
      length (addHeader (Response_serialize J (answer r))) \<le> 2 ^ 31) reqs"
    and "concat (map snd cs) = concat (map (\<lambda>r. addHeader (Request_serialize J r)) reqs)"
    and "k_recvs k sock = data_calls cs @ (old, REof) # rest"
    and "list_all takes_all (k_sends k sock)" "length cs \<le> length (k_sends k sock)"
  shows "\<exists>k'. serviceIO J func sock [] k = Done k' \<and> other_fds_same sock k k' \<and>
    k_sent k' sock = k_sent k sock @ concat (map (\<lambda>r. addHeader (Response_serialize J (answer r)))
      (take (answered 0 (map (\<lambda>r. addHeader (Request_serialize J r)) reqs) (map snd cs)) reqs))"
  using serviceIO_answers [OF assms(1,2), of "[]"] assms(3-6) by simp

text \<open>Two requests in one chunk: one answer.\<close>

definition two_in_one :: kernel where
  "two_in_one = boot_kernel\<lparr>k_open := [4, 3, 0, 1, 2],
     k_recvs := (\<lambda>fd. if fd = 4 then [(replicate 2048 NUL, RData (addHeader ''x:7 y:5 op:43'' @ addHeader ''x:7 y:5 op:43'')),
       (replicate 2048 NUL, REof)] else []),
     k_sends := (\<lambda>fd. if fd = 4 then [SRet (2 ^ 31) EAGAIN, SRet (2 ^ 31) EAGAIN] else [])\<rparr>"

lemma sum_request_ok:
  "payload_ok (Request_serialize words_json sum_request)"
  "Request_deserialize words_json (Request_serialize words_json sum_request) = Done sum_request"
  "calculate sum_request = Done \<lparr>resp_result = 12, resp_code = 0\<rparr>"
  by (simp add: words_json_sum payload_ok_def)
     (simp add: words_json_sum words_json_sum_back,
      simp add: calculate_def sum_request_def checked_def fits_int_def)

lemma sum_response_text:
  "Response_serialize words_json \<lparr>resp_result = 12, resp_code = 0\<rparr> = ''res:12 code:0''"
  by code_simp

lemma cal_server_serves_witness:
  "\<exists>k'. serviceIO words_json calculate 4 [] two_in_one = Done k' \<and>
     k_sent k' 4 = addHeader ''res:12 code:0'' \<and> k_open k' = [4, 3, 0, 1, 2]"
proof -
  let ?f = "addHeader ''x:7 y:5 op:43''"
  have f: "length ?f = 19" by code_simp
  have nn: "NUL \<notin> set ?f" by code_simp
  have cs: "list_all chunk_ok [(replicate 2048 NUL, ?f @ ?f)]"
    using f nn by (auto simp: chunk_ok_def)
  have ok: "list_all (\<lambda>r. payload_ok (Request_serialize words_json r) \<and>
      Request_deserialize words_json (Request_serialize words_json r) = Done r \<and>
      calculate r = Done ((\<lambda>_. \<lparr>resp_result = 12, resp_code = 0\<rparr>) r) \<and>
      length (addHeader (Response_serialize words_json ((\<lambda>_. \<lparr>resp_result = 12, resp_code = 0\<rparr>) r))) \<le> 2 ^ 31)
      [sum_request, sum_request]"
  proof -
    have "length (addHeader ''res:12 code:0'') = 19" by code_simp
    then show ?thesis by (simp add: sum_request_ok sum_response_text)
  qed
  have a: "answered 0 (map (\<lambda>r. addHeader (Request_serialize words_json r)) [sum_request, sum_request])
      (map snd [(replicate 2048 NUL, ?f @ ?f)]) = 1"
    using f by (simp add: words_json_sum)
  have h: "concat (map snd [(replicate 2048 NUL, ?f @ ?f)])
      = concat (map (\<lambda>r. addHeader (Request_serialize words_json r)) [sum_request, sum_request])"
    by (simp add: words_json_sum)
  have k: "k_recvs two_in_one 4 = data_calls [(replicate 2048 NUL, ?f @ ?f)] @ (replicate 2048 NUL, REof) # []"
    "list_all takes_all (k_sends two_in_one 4)" "length [(replicate 2048 NUL, ?f @ ?f)] \<le> length (k_sends two_in_one 4)"
    "k_sent two_in_one 4 = []" "k_open two_in_one = [4, 3, 0, 1, 2]"
    by (simp_all add: two_in_one_def data_calls_def boot_kernel_def takes_all_def)
  from cal_server_serves [OF cs ok h k(1-3), unfolded a] k(4,5) show ?thesis
    by (auto simp: sum_response_text other_fds_same_def)
qed

text \<open>C20. Which messages end the calculator, for every content of the buffer and every message: one
  that fills the whole 2048-byte array, behind which the terminating zero is written; one that
  completes a package whose length line is below -2, for which the cutting of the payload throws;
  and one whose payload jsoncpp or the arithmetic does not survive. Nothing else does.\<close>

theorem cal_server_dies_iff:
  assumes "k_recvs k sock = [(old, RData d), (old', REof)]" "length old = 2048" "d \<noteq> []" "length d \<le> 2048"
    and "length inbuffer < 2 ^ 29"
  shows "serviceIO J func sock inbuffer k = Crash e \<longleftrightarrow>
    (if length d = 2048 then e = OutOfBounds
     else (case readPackage (inbuffer @ c_str d) of (n, p, r) \<Rightarrow>
       n < - 2 \<and> e = OutOfRange \<or>
       n \<noteq> 0 \<and> n \<noteq> - 1 \<and> (\<exists>payload. removeHeader p n = Done payload \<and> respond J func payload = Crash e)))"
proof (cases "length d = 2048")
  case True
  then have "buf_set (recv_into old d) (int (length d)) NUL = Crash OutOfBounds"
    using assms(2) by (intro full_recv_overflow) simp
  with True assms(1,3) show ?thesis
    by (auto simp: serviceIO.simps [of J func sock inbuffer k] readPackage_sock_def k_recv_def)
next
  case False
  then have ld: "length d < length old" using assms(2,4) by simp
  define k1 where "k1 = k\<lparr>k_recvs := (k_recvs k)(sock := [(old', REof)])\<rparr>"
  obtain n p r where rp: "readPackage (inbuffer @ c_str d) = (n, p, r)" by (metis prod_cases3)
  have rd: "readPackage_sock sock inbuffer k = Done ((n, p, r), k1)"
    using terminated_recv [OF ld] assms(1,3) rp
    by (simp add: readPackage_sock_def k_recv_def k1_def c_string_def c_str_stop)
  have k1: "k_recvs k1 sock = [(old', REof)]" by (simp add: k1_def)
  have rest: "serviceIO J func sock b k2 \<noteq> Crash e'" if "k_recvs k2 = k_recvs k1" for b k2 e'
    using that k1 by (simp add: serviceIO.simps [of J func sock b k2] readPackage_sock_def k_recv_def)
  have "serviceIO J func sock inbuffer k = Crash e \<longleftrightarrow>
      n \<noteq> 0 \<and> n \<noteq> - 1 \<and> answer_package J func sock n p k1 = Crash e"
    using rd rest answer_package_recvs
    by (auto simp: serviceIO.simps [of J func sock inbuffer k] bind_out_Crash_iff)
  also have "\<dots> \<longleftrightarrow> n \<noteq> 0 \<and> n \<noteq> - 1 \<and> (removeHeader p n = Crash e \<or>
      (\<exists>payload. removeHeader p n = Done payload \<and> respond J func payload = Crash e))"
    by (auto simp: answer_package_def bind_out_Crash_iff)
  finally have c: "serviceIO J func sock inbuffer k = Crash e \<longleftrightarrow> n \<noteq> 0 \<and> n \<noteq> - 1 \<and> (removeHeader p n = Crash e \<or>
      (\<exists>payload. removeHeader p n = Done payload \<and> respond J func payload = Crash e))" .
  have "n \<noteq> 0 \<and> n \<noteq> - 1 \<and> removeHeader p n = Crash e \<longleftrightarrow> n < - 2 \<and> e = OutOfRange"
  proof (cases "n = 0")
    case False
    have "length (c_str d) \<le> length d" by (simp add: c_str_def length_takeWhile_le)
    then have "length (inbuffer @ c_str d) < 2 ^ 30" using assms(4,5) by simp
    from removeHeader_crash_iff(1) [OF rp False this, of e] show ?thesis
      by (cases "n < - 2") (use False in \<open>simp_all\<close>)
  qed simp
  note s = conj_or_split [OF this]
  show ?thesis unfolding c rp using False by (simp only: s if_False split)
qed

definition negative_length :: kernel where
  "negative_length = boot_kernel\<lparr>k_recvs := (\<lambda>fd. if fd = 4 then
     [(replicate 2048 NUL, RData (''-4'' @ HEAD_SEP)), (replicate 2048 NUL, REof)] else [])\<rparr>"

lemma cal_server_dies_iff_witness:
  "serviceIO words_json calculate 4 [] negative_length = Crash OutOfRange"
proof -
  have rp: "readPackage ([] @ c_str (''-4'' @ HEAD_SEP)) = (- 4, ''-4'', HEAD_SEP)" by code_simp
  have k: "k_recvs negative_length 4 = [(replicate 2048 NUL, RData (''-4'' @ HEAD_SEP)), (replicate 2048 NUL, REof)]"
    by (simp add: negative_length_def)
  have l: "length (''-4'' @ HEAD_SEP) = 4" by (simp add: HEAD_SEP_def)
  show ?thesis
    using cal_server_dies_iff [OF k, of "[]" words_json calculate OutOfRange] rp l by (simp del: append.simps)
qed

section \<open>The client\<close>

lemma await_response_frame:
  assumes "list_all chunk_ok cs" "length p < 2 ^ 30" "p \<noteq> []" "b @ concat (map snd cs) = addHeader p"
    and "b \<noteq> addHeader p" "k_recvs k sock = data_calls cs @ rest" "Response_deserialize J p = Done resp"
  shows "\<exists>k'. await_response J sock b k = Done (Some (resp, []), k') \<and> other_fds_same sock k k' \<and>
    (\<exists>cs'. k_recvs k' sock = data_calls cs' @ rest \<and> concat (map snd cs') = []) \<and> k_sent k' = k_sent k"
  using assms
proof (induction cs arbitrary: b k)
  case (Cons call cs)
  obtain od d where call: "call = (od, d)" by (cases call)
  define k1 where "k1 = k\<lparr>k_recvs := (k_recvs k)(sock := data_calls cs @ rest)\<rparr>"
  have rd: "readPackage_sock sock b k = Done (readPackage (b @ d), k1)"
    unfolding k1_def by (rule readPackage_sock_chunk) (use Cons.prems(1,6) call in \<open>simp_all add: data_calls_def\<close>)
  show ?case
  proof (cases "b @ d = addHeader p")
    case True
    then have rp: "readPackage (b @ d) = (int (length p), addHeader p, [])"
      using readPackage_frame [OF Cons.prems(2), of "[]"] by simp
    have "(b @ d) @ concat (map snd cs) = addHeader p" using Cons.prems(4) call by simp
    then have "concat (map snd cs) = []" unfolding True by simp
    moreover have "await_response J sock b k = Done (Some (resp, []), k1)"
      using rd rp Cons.prems(3,7) removeHeader_frame [OF Cons.prems(2)]
      by (simp add: await_response.simps [of J sock b k])
    ultimately show ?thesis by (auto simp: k1_def other_fds_same_def)
  next
    case False
    have eq: "addHeader p = (b @ d) @ concat (map snd cs)" using Cons.prems(4) call by simp
    with False have "concat (map snd cs) \<noteq> []" by auto
    from readPackage_partial [OF Cons.prems(2) eq this]
    have step: "await_response J sock b k = await_response J sock (b @ d) k1"
      using rd by (simp add: await_response.simps [of J sock b k])
    have "list_all chunk_ok cs" "k_recvs k1 sock = data_calls cs @ rest" "other_fds_same sock k k1"
      "k_sent k1 = k_sent k"
      using Cons.prems(1) by (simp_all add: k1_def other_fds_same_def)
    with Cons.IH [of "b @ d" k1] Cons.prems(2,3,7) eq False step show ?thesis
      by (auto simp: other_fds_same_def)
  qed
qed simp

text \<open>A round of the client: for a line of digits, an operator and digits it sends exactly one
  frame with that request, waits until the frame of the answer is complete, however it is cut,
  and shows the answer it holds.\<close>

theorem client_round:
  assumes "list_all is_digit l" "\<not> is_digit c" "list_all is_digit r"
    and "k_sends k sock = SRet n e # ss" "int (length (addHeader (Request_serialize J req))) \<le> n"
    and "req = \<lparr>req_x = toInt l, req_y = toInt r, req_op = c\<rparr>"
    and "list_all chunk_ok cs" "payload_ok (Response_serialize J resp)"
    and "Response_deserialize J (Response_serialize J resp) = Done resp"
    and "concat (map snd cs) = addHeader (Response_serialize J resp)" "k_recvs k sock = data_calls cs"
  shows "\<exists>k'. client_loop J sock [] [l @ c # r] shown k = Some (Done (shown @ [resp], k')) \<and>
    k_sent k' sock = k_sent k sock @ addHeader (Request_serialize J req)"
proof -
  let ?str = "addHeader (Request_serialize J req)"
  let ?p = "Response_serialize J resp"
  define k1 where "k1 = k\<lparr>k_sends := (k_sends k)(sock := ss), k_sent := (k_sent k)(sock := k_sent k sock @ ?str)\<rparr>"
  have ne: "?str \<noteq> []" by (simp add: addHeader_def HEAD_SEP_def)
  then have "0 < n" using assms(5) by (cases ?str) auto
  moreover have "length ?str \<le> nat n" using assms(5) by simp
  ultimately have snd: "k_send sock ?str k = Done k1"
    using assms(4) by (simp add: k_send_def k1_def)
  have p: "length ?p < 2 ^ 30" "?p \<noteq> []" using assms(8) by (simp_all add: payload_ok_def)
  have nil: "[] \<noteq> addHeader ?p" by (simp add: addHeader_def HEAD_SEP_def)
  have st: "[] @ concat (map snd cs) = addHeader ?p" using assms(10) by simp
  have rv: "k_recvs k1 sock = data_calls cs @ []" using assms(11) by (simp add: k1_def)
  from await_response_frame [OF assms(7) p st nil rv assms(9)]
  obtain k' where k': "await_response J sock [] k1 = Done (Some (resp, []), k')" "k_sent k' = k_sent k1" by blast
  have "splitFormula (l @ c # r) = Some (Done req)"
    using splitFormula_op [OF assms(1,2), of r] assms(3,6) by simp
  with snd k' show ?thesis by (simp add: k1_def)
qed

definition client_kernel :: kernel where
  "client_kernel = boot_kernel\<lparr>k_recvs := (\<lambda>fd. if fd = 3 then
       data_calls [(replicate 2048 NUL, ''13''), (replicate 2048 NUL, drop 2 (addHeader ''res:12 code:0''))] else []),
     k_sends := (\<lambda>fd. if fd = 3 then [SRet 100 EAGAIN] else [])\<rparr>"

lemma client_round_witness:
  "\<exists>k'. client_loop words_json 3 [] [''7+5''] [] client_kernel
     = Some (Done ([\<lparr>resp_result = 12, resp_code = 0\<rparr>], k')) \<and>
    k_sent k' 3 = addHeader ''x:7 y:5 op:43''"
proof -
  let ?cs = "[(replicate 2048 NUL, ''13''), (replicate 2048 NUL, drop 2 (addHeader ''res:12 code:0''))]"
  let ?resp = "\<lparr>resp_result = 12, resp_code = 0\<rparr> :: response"
  have len: "length (addHeader ''res:12 code:0'') = 19" "length (addHeader ''x:7 y:5 op:43'') = 19" by code_simp+
  have nn: "NUL \<notin> set (drop 2 (addHeader ''res:12 code:0''))" "NUL \<notin> set ''13''" by code_simp+
  have d: "list_all is_digit ''7''" "\<not> is_digit (CHR ''+'')" "list_all is_digit ''5''" by code_simp+
  have req: "sum_request = \<lparr>req_x = toInt ''7'', req_y = toInt ''5'', req_op = CHR ''+''\<rparr>" by code_simp
  have cs: "list_all chunk_ok ?cs" using len nn by (simp add: chunk_ok_def)
  have st: "concat (map snd ?cs) = addHeader (Response_serialize words_json ?resp)"
    by (simp only: sum_response_text) code_simp
  have pl: "payload_ok (Response_serialize words_json ?resp)" by (simp add: sum_response_text payload_ok_def)
  have ds: "Response_deserialize words_json (Response_serialize words_json ?resp) = Done ?resp"
    by (simp only: sum_response_text) code_simp
  have k: "k_sends client_kernel 3 = SRet 100 EAGAIN # []" "k_recvs client_kernel 3 = data_calls ?cs"
    "k_sent client_kernel 3 = []"
    by (simp_all add: client_kernel_def boot_kernel_def)
  have n: "int (length (addHeader (Request_serialize words_json sum_request))) \<le> 100"
    using len by (simp add: words_json_sum)
  from client_round [OF d k(1) n req cs pl ds st k(2), of "[]"] k(3) show ?thesis
    by (simp only: append.simps words_json_sum)
qed

end
