(* ===== verification/Http.thy ===== *)
theory Http
  imports CalServer
begin

text \<open>
  The web servers \<open>7.22/httpServer-0\<close>, \<open>7.22/httpServer\<close> and \<open>7.29/httpServer\<close>: the string and
  file helpers (\<open>funcSet.hpp\<close>), the request parser and the handler (\<open>main.cc\<close>), and what the
  thread of a connection does (\<open>http_server.hpp\<close>). The file system is a parameter.
\<close>

section \<open>Files\<close>

text \<open>What a path names: nothing, a file that may not be opened, a directory, or a file.\<close>

datatype node = NoFile | NoAccess nat | Directory nat | File string

definition resize :: "string \<Rightarrow> int \<Rightarrow> string outcome" where
  "resize s n = (if n < 0 then Crash LengthError
     else Done (take (nat n) s @ replicate (nat n - length s) NUL))"

text \<open>
  \<open>readFile\<close>: whether it succeeded, and the text. \<open>read\<close> fails on a directory, and its result is
  not looked at.
\<close>

definition readFile :: "(string \<Rightarrow> node) \<Rightarrow> string \<Rightarrow> string \<Rightarrow> (bool \<times> string) outcome" where
  "readFile fs path fileContent =
     (case fs path of
        NoFile \<Rightarrow> Done (False, fileContent)
      | NoAccess n \<Rightarrow> bind_out (resize fileContent (int32 (int n))) (\<lambda>c. Done (False, c))
      | Directory n \<Rightarrow> bind_out (resize fileContent (int32 (int n))) (\<lambda>c. Done (True, c))
      | File d \<Rightarrow> (let fileSize = int32 (int (length d))
          in bind_out (resize fileContent fileSize) (\<lambda>c. Done (True, recv_into c (take (nat fileSize) d)))))"

section \<open>Parsing a request\<close>

definition CRLF :: string where "CRLF = [CHR 0x0D, CHR 0x0A]"

definition readLine :: "string \<Rightarrow> string \<Rightarrow> string \<times> string" where
  "readLine message sep =
     (case str_find message sep 0 of
        None \<Rightarrow> ([], message)
      | Some pos \<Rightarrow> (take pos message, drop (pos + length sep) message))"

text \<open>\<open>ss >> word\<close> of a string stream.\<close>

definition extract_word :: "string \<Rightarrow> string \<times> string" where
  "extract_word s = (let t = dropWhile is_space s in (takeWhile (\<lambda>c. \<not> is_space c) t, dropWhile (\<lambda>c. \<not> is_space c) t))"

definition separateString :: "string \<Rightarrow> string \<times> string \<times> string" where
  "separateString line =
     (case extract_word line of (method, s1) \<Rightarrow>
      case extract_word s1 of (url, s2) \<Rightarrow>
      case extract_word s2 of (version, s3) \<Rightarrow> (method, url, version))"

record http_request =
  hr_method :: string
  hr_url :: string
  hr_http_version :: string
  hr_body :: "string list"
  hr_path :: string
  hr_suffix :: string

definition webRoot :: string where "webRoot = ''./wwwroot''"
definition defaultPage :: string where "defaultPage = ''index.html''"

text \<open>The loop over the lines that follow; on a rest without a separator it goes on forever.\<close>

partial_function (option) read_lines :: "string \<Rightarrow> string list \<Rightarrow> string list option" where
  "read_lines message body =
     (if message = [] then Some body
      else (case readLine message CRLF of (line, rest) \<Rightarrow> read_lines rest (body @ [line])))"

definition resource_path :: "string \<Rightarrow> string" where
  "resource_path url =
     (let path = webRoot @ url in if last path = CHR ''/'' then path @ defaultPage else path)"

definition path_suffix :: "string \<Rightarrow> string" where
  "path_suffix path =
     (case str_rfind path (CHR ''.'') of None \<Rightarrow> ''.html'' | Some pos \<Rightarrow> drop pos path)"

definition Desarialize :: "string \<Rightarrow> http_request option" where
  "Desarialize message =
     (case readLine message CRLF of (line, rest) \<Rightarrow>
      case separateString line of (method, url, version) \<Rightarrow>
        map_option (\<lambda>body. \<lparr>hr_method = method, hr_url = url, hr_http_version = version, hr_body = body,
            hr_path = resource_path url, hr_suffix = path_suffix (resource_path url)\<rparr>)
          (read_lines rest []))"

section \<open>Answering\<close>

definition getContentType :: "string \<Rightarrow> string" where
  "getContentType sfx =
     ''Content_Type: '' @
     (if sfx = ''.html'' \<or> sfx = ''.htm'' then ''text/html''
      else if sfx = ''.jpg'' then ''image/jpeg'' else []) @ CRLF"

definition handlerHttpRequest :: "(string \<Rightarrow> node) \<Rightarrow> string \<Rightarrow> string outcome option" where
  "handlerHttpRequest fs message =
     map_option (\<lambda>req.
       bind_out (readFile fs (hr_path req) []) (\<lambda>(ok, body).
         Done ((if ok then ''HTTP/1.0 200 OK'' @ CRLF else ''HTTP/1.0 404 Not Found'' @ CRLF) @
               ''Content-Length: '' @ digits_of (length body) @ CRLF @
               getContentType (hr_suffix req) @ CRLF @ body)))
       (Desarialize message)"

text \<open>The handler of the first version.\<close>

definition handler_hello :: "string \<Rightarrow> string outcome option" where
  "handler_hello request = Some (Done ''hello'')"

section \<open>A connection\<close>

text \<open>One request is read into a 4096-byte array and answered. \<open>None\<close>: the handler never returns.\<close>

definition http_serve :: "(string \<Rightarrow> string outcome option) \<Rightarrow> int \<Rightarrow> kernel \<Rightarrow> kernel outcome option" where
  "http_serve func client_sock k =
     (case k_recv client_sock k of
        Blocked \<Rightarrow> Some Blocked
      | Crash e \<Rightarrow> Some (Crash e)
      | Done ((old, r), k1) \<Rightarrow>
          (case r of
             RData data \<Rightarrow>
               (if data = [] then Some (Done k1)
                else (case bind_out (buf_set (recv_into old data) (int (length data)) NUL) c_string of
                        Done request \<Rightarrow>
                          map_option (\<lambda>m. bind_out m (\<lambda>response. k_send client_sock response k1)) (func request)
                      | Crash e \<Rightarrow> Some (Crash e)
                      | Blocked \<Rightarrow> Some Blocked))
           | REof \<Rightarrow> Some (Done k1)
           | RErr e \<Rightarrow> Some (Done k1)))"

text \<open>The thread of a connection: the version of 7.22 closes the socket, that of 7.29 does not.\<close>

definition http_thread_22 :: "(string \<Rightarrow> string outcome option) \<Rightarrow> thread_data \<Rightarrow> kernel \<Rightarrow> kernel outcome option" where
  "http_thread_22 func td k = map_option (map_outcome (k_close (td_sock td))) (http_serve func (td_sock td) k)"

definition http_thread_29 :: "(string \<Rightarrow> string outcome option) \<Rightarrow> thread_data \<Rightarrow> kernel \<Rightarrow> kernel outcome option" where
  "http_thread_29 func td k = http_serve func (td_sock td) k"

text \<open>The first version starts the thread on a record nothing was written to.\<close>

definition http_thread_0 :: "(string \<Rightarrow> string outcome option) \<Rightarrow> thread_data option \<Rightarrow> kernel \<Rightarrow> kernel outcome option" where
  "http_thread_0 func td k = (case td of None \<Rightarrow> Some (Crash Uninitialised) | Some td \<Rightarrow> http_thread_22 func td k)"

section \<open>The accepting loop\<close>

record http_server =
  hs_listensock :: sock
  hs_threads :: "thread_data option list"
  hs_kern :: kernel

definition init_http_server :: "int \<Rightarrow> kernel \<Rightarrow> http_server outcome" where
  "init_http_server port k =
     bind_out (open_listener port k) (\<lambda>(so, k1).
       Done \<lparr>hs_listensock = so, hs_threads = [], hs_kern = k1\<rparr>)"

definition http_accept :: "int \<Rightarrow> http_server \<Rightarrow> http_server outcome" where
  "http_accept len s =
     bind_out (sock_Accept_uninit len (hs_listensock s) (hs_kern s)) (\<lambda>(r, k). case r of (client_sock, addr) \<Rightarrow>
       if client_sock < 0 then Done (s\<lparr>hs_kern := k\<rparr>)
       else (case addr of
           None \<Rightarrow> Crash Uninitialised
         | Some (ip, port) \<Rightarrow> Done (s\<lparr>hs_kern := k,
             hs_threads := hs_threads s @ [Some \<lparr>td_sock = client_sock, td_ip = ip, td_port = port\<rparr>]\<rparr>)))"

definition http_accept_0 :: "int \<Rightarrow> http_server \<Rightarrow> http_server outcome" where
  "http_accept_0 len s =
     bind_out (sock_Accept_uninit len (hs_listensock s) (hs_kern s)) (\<lambda>(r, k). case r of (client_sock, addr) \<Rightarrow>
       if client_sock < 0 then Done (s\<lparr>hs_kern := k\<rparr>)
       else Done (s\<lparr>hs_kern := k, hs_threads := hs_threads s @ [None]\<rparr>))"

section \<open>Which requests the parser reads to the end\<close>

lemma readLine_cases:
  "readLine message CRLF = (line, rest) \<Longrightarrow>
   message = line @ CRLF @ rest \<or> line = [] \<and> rest = message \<and> str_find message CRLF 0 = None"
proof (cases "str_find message CRLF 0")
  case (Some pos)
  assume "readLine message CRLF = (line, rest)"
  with Some have l: "line = take pos message" "rest = drop (pos + 2) message"
    by (auto simp: readLine_def CRLF_def)
  from str_find_SomeD [OF Some] have at: "take 2 (drop pos message) = CRLF"
    by (simp add: CRLF_def numeral_2_eq_2)
  have "message = take pos message @ take 2 (drop pos message) @ drop 2 (drop pos message)"
    by (metis append_take_drop_id)
  with l at show ?thesis by (simp add: add.commute)
qed (simp add: readLine_def)

lemma find_CRLF_suffix: "str_find (s @ CRLF) CRLF 0 \<noteq> None"
proof -
  have "find_sub CRLF (s @ CRLF) \<noteq> None" by (induction s) (auto simp: CRLF_def)
  then show ?thesis by (simp add: str_find_0)
qed

text \<open>A text that ends in CRLF still does after its first line is taken off, or is used up.\<close>

lemma CRLF_tail:
  assumes "suffix CRLF (l @ CRLF @ rest)" "rest \<noteq> []"
  shows "suffix CRLF rest"
proof (cases "length rest = 1")
  case True
  then obtain c where "rest = [c]" by (auto simp: length_Suc_conv)
  with assms(1) have "suffix CRLF ((l @ [CHR 0x0D]) @ [CHR 0x0A, c])" by (simp add: CRLF_def)
  then show ?thesis by (auto simp: CRLF_def suffix_def append_eq_append_conv2 Cons_eq_append_conv append_eq_Cons_conv)
next
  case False
  with assms(2) have "length CRLF \<le> length rest" by (cases rest; cases "tl rest") (auto simp: CRLF_def)
  moreover have "suffix rest (l @ CRLF @ rest)" by (simp add: suffix_def)
  ultimately show ?thesis using assms(1) by (metis suffix_length_suffix)
qed

definition crlf_text :: "string \<Rightarrow> bool" where
  "crlf_text s \<longleftrightarrow> s = [] \<or> suffix CRLF s"

lemma crlf_text_tail: "crlf_text (l @ CRLF @ rest) \<longleftrightarrow> crlf_text rest"
proof -
  have "suffix CRLF (l @ CRLF @ rest)" if "suffix CRLF rest"
  proof -
    have "suffix rest (l @ CRLF @ rest)" by (simp add: suffix_def)
    with that show ?thesis by (rule suffix_order.trans)
  qed
  moreover have "suffix CRLF (l @ CRLF @ [])" by (simp add: suffix_def)
  moreover have "l @ CRLF @ rest \<noteq> []" by (simp add: CRLF_def)
  ultimately show ?thesis using CRLF_tail [of l rest] by (cases "rest = []") (auto simp: crlf_text_def)
qed

lemma crlf_text_line: "crlf_text s \<Longrightarrow> s \<noteq> [] \<Longrightarrow> \<exists>line rest. readLine s CRLF = (line, rest) \<and> s = line @ CRLF @ rest"
proof -
  assume "crlf_text s" "s \<noteq> []"
  then obtain t where "s = t @ CRLF" by (auto simp: crlf_text_def suffix_def)
  then have "str_find s CRLF 0 \<noteq> None" by (simp add: find_CRLF_suffix)
  moreover obtain line rest where r: "readLine s CRLF = (line, rest)" by (cases "readLine s CRLF")
  ultimately show ?thesis using readLine_cases [OF r] by auto
qed

lemma read_lines_crlf:
  "crlf_text s \<Longrightarrow> \<exists>ls. read_lines s body = Some (body @ ls) \<and> concat (map (\<lambda>l. l @ CRLF) ls) = s"
proof (induction "length s" arbitrary: s body rule: less_induct)
  case less
  show ?case
  proof (cases "s = []")
    case True
    then show ?thesis by (intro exI [of _ "[]"]) (simp add: read_lines.simps [of "[]"])
  next
    case False
    from crlf_text_line [OF less.prems False] obtain line rest
      where r: "readLine s CRLF = (line, rest)" "s = line @ CRLF @ rest" by blast
    have "length rest < length s" "crlf_text rest" using r(2) less.prems crlf_text_tail by (simp add: CRLF_def, simp)
    from less.hyps [OF this, of "body @ [line]"] obtain ls
      where "read_lines rest (body @ [line]) = Some (body @ line # ls)" "concat (map (\<lambda>l. l @ CRLF) ls) = rest" by auto
    moreover have "read_lines s body = read_lines rest (body @ [line])"
      using r(1) False by (simp add: read_lines.simps [of s])
    ultimately show ?thesis using r(2) by (intro exI [of _ "line # ls"]) simp
  qed
qed

lemma read_lines_Some_crlf: "read_lines s body = Some ls \<Longrightarrow> crlf_text s"
proof (rule read_lines.raw_induct [where P = "\<lambda>s body ls. crlf_text s"])
  fix f :: "string \<Rightarrow> string list \<Rightarrow> string list option" and s body ls
  assume IH: "\<And>s body ls. f s body = Some ls \<Longrightarrow> crlf_text s"
    and eq: "(if s = [] then Some body else (case readLine s CRLF of (line, rest) \<Rightarrow> f rest (body @ [line]))) = Some ls"
  show "crlf_text s"
  proof (cases "s = []")
    case True
    then show ?thesis by (simp add: crlf_text_def)
  next
    case False
    obtain line rest where r: "readLine s CRLF = (line, rest)" by (cases "readLine s CRLF")
    with eq False have "crlf_text rest" by (auto dest: IH)
    with readLine_cases [OF r] show ?thesis by (auto simp: crlf_text_tail)
  qed
qed

end
