(* ===== verification/HttpProps.thy ===== *)
theory HttpProps
  imports Http Examples
begin

text \<open>
  What the web servers answer, for every request and every file system, and how a connection ends.
\<close>

lemma crlf_text_nofind: "str_find s CRLF 0 = None \<Longrightarrow> crlf_text s \<longleftrightarrow> s = []"
  by (auto simp: crlf_text_def suffix_def find_CRLF_suffix)

lemma readLine_crlf: "readLine s CRLF = (line, rest) \<Longrightarrow> crlf_text rest \<longleftrightarrow> crlf_text s"
  using readLine_cases [of s line rest] by (auto simp: crlf_text_tail)

lemma read_lines_returns: "read_lines s body \<noteq> None \<longleftrightarrow> crlf_text s"
  using read_lines_crlf [of s body] read_lines_Some_crlf [of s body] by auto

lemma Desarialize_unfold:
  assumes "readLine message CRLF = (line, rest)" "separateString line = (method, url, version)"
  shows "Desarialize message = map_option (\<lambda>body. \<lparr>hr_method = method, hr_url = url,
     hr_http_version = version, hr_body = body, hr_path = resource_path url,
     hr_suffix = path_suffix (resource_path url)\<rparr>) (read_lines rest [])"
  using assms by (simp add: Desarialize_def)

text \<open>The request parser returns exactly on texts that are empty or end in CRLF; on every other
  text, a request with a body or one cut by the network, its loop never ends. When it returns, the
  lines it has taken, each with its CRLF, are the request: nothing is lost or invented.\<close>

theorem http_parser_returns:
  "case Desarialize message of
     None \<Rightarrow> message \<noteq> [] \<and> \<not> suffix CRLF message
   | Some req \<Rightarrow> (message = [] \<and> hr_body req = []) \<or> suffix CRLF message \<and>
       message = fst (readLine message CRLF) @ CRLF @ concat (map (\<lambda>l. l @ CRLF) (hr_body req))"
proof -
  obtain line rest where r: "readLine message CRLF = (line, rest)" by (cases "readLine message CRLF")
  obtain m u v where s: "separateString line = (m, u, v)" by (cases "separateString line") auto
  note d = Desarialize_unfold [OF r s]
  note iff = readLine_crlf [OF r]
  show ?thesis
  proof (cases "read_lines rest []")
    case None
    then have "\<not> crlf_text message" using read_lines_returns [of rest "[]"] iff by simp
    with None d show ?thesis by (simp add: crlf_text_def)
  next
    case (Some body)
    then have c: "crlf_text rest" "crlf_text message" using read_lines_returns [of rest "[]"] iff by simp_all
    from read_lines_crlf [OF c(1), of "[]"] Some have b: "concat (map (\<lambda>l. l @ CRLF) body) = rest" by simp
    show ?thesis
    proof (cases "message = []")
      case True
      with readLine_cases [OF r] have "rest = []" by (auto simp: CRLF_def)
      with Some have "body = []" by (simp add: read_lines.simps [of "[]"])
      with True Some d show ?thesis by simp
    next
      case False
      with c(2) have "suffix CRLF message" by (simp add: crlf_text_def)
      moreover from crlf_text_line [OF c(2) False] r have "message = line @ CRLF @ rest" by auto
      ultimately show ?thesis using Some d b r by simp
    qed
  qed
qed

section \<open>The answer\<close>

definition node_small :: "node \<Rightarrow> bool" where
  "node_small n \<longleftrightarrow> (case n of NoFile \<Rightarrow> True | NoAccess n \<Rightarrow> n < 2 ^ 31 | Directory n \<Rightarrow> n < 2 ^ 31
     | File d \<Rightarrow> length d < 2 ^ 31)"

text \<open>What the handler makes of a node: whether it answers 200, and the body.\<close>

definition node_answer :: "node \<Rightarrow> bool \<times> string" where
  "node_answer n = (case n of NoFile \<Rightarrow> (False, []) | NoAccess n \<Rightarrow> (False, replicate n NUL)
     | Directory n \<Rightarrow> (True, replicate n NUL) | File d \<Rightarrow> (True, d))"

lemma int32_size: "n < 2 ^ 31 \<Longrightarrow> int32 (int n) = int n"
  by (intro int32_id) (simp add: fits_int_def)

lemma readFile_answer: "node_small (fs path) \<Longrightarrow> readFile fs path [] = Done (node_answer (fs path))"
  by (cases "fs path")
     (simp_all add: readFile_def node_small_def node_answer_def resize_def int32_size recv_into_def)

lemma dot_in_path: "str_rfind (resource_path url) (CHR ''.'') \<noteq> None"
  by (simp add: str_rfind_def resource_path_def webRoot_def Let_def)

text \<open>C21. The answer to every request whose lines end in CRLF, for every file system: the file
  named by the root directory and the URL, with nothing taken out of the URL (so ../ leaves the
  root), its length, and its bytes after an empty line. A path that does not exist, or may not be
  opened, gives status 404; the latter, and a directory, which gives status 200, come with as many
  zero bytes as the node has. The content type is taken from the last dot of the whole path, which
  always has one, in the root directory; so a path without a suffix never gets the default one.\<close>

theorem http_answers:
  assumes "message = [] \<or> suffix CRLF message"
    and "separateString (fst (readLine message CRLF)) = (method, url, version)"
    and "path = resource_path url" "node_small (fs path)" "node_answer (fs path) = (ok, body)"
  shows "\<exists>pos. str_rfind path (CHR ''.'') = Some pos \<and> handlerHttpRequest fs message = Some (Done (
    (if ok then ''HTTP/1.0 200 OK'' else ''HTTP/1.0 404 Not Found'') @ CRLF @
    ''Content-Length: '' @ digits_of (length body) @ CRLF @
    getContentType (drop pos path) @ CRLF @ body))"
proof -
  obtain line rest where r: "readLine message CRLF = (line, rest)" by (cases "readLine message CRLF")
  have "crlf_text rest" using readLine_crlf [OF r] assms(1) by (simp add: crlf_text_def)
  then obtain ls where ls: "read_lines rest [] = Some ls" using read_lines_returns [of rest "[]"] by auto
  have "separateString line = (method, url, version)" using assms(2) r by simp
  from Desarialize_unfold [OF r this] ls assms(3)
  have d: "Desarialize message = Some \<lparr>hr_method = method, hr_url = url, hr_http_version = version,
    hr_body = ls, hr_path = path, hr_suffix = path_suffix path\<rparr>" by simp
  obtain pos where pos: "str_rfind path (CHR ''.'') = Some pos" using dot_in_path assms(3) by blast
  have "path_suffix path = drop pos path" by (simp add: path_suffix_def pos)
  with d readFile_answer [of fs path] assms(4,5) pos show ?thesis by (simp add: handlerHttpRequest_def)
qed

definition get_passwd :: string where
  "get_passwd = ''GET /../../etc/passwd HTTP/1.1'' @ CRLF @ ''Host: x'' @ CRLF @ CRLF"

lemma http_answers_witness:
  "\<exists>pos. handlerHttpRequest (\<lambda>p. if p = ''./wwwroot/../../etc/passwd'' then File ''root'' else NoFile) get_passwd
    = Some (Done (''HTTP/1.0 200 OK'' @ CRLF @ ''Content-Length: '' @ digits_of 4 @ CRLF @
        getContentType (drop pos ''./wwwroot/../../etc/passwd'') @ CRLF @ ''root''))"
proof -
  let ?fs = "\<lambda>p. if p = ''./wwwroot/../../etc/passwd'' then File ''root'' else NoFile"
  have m: "get_passwd = [] \<or> suffix CRLF get_passwd" by (simp add: get_passwd_def suffix_def)
  have s: "separateString (fst (readLine get_passwd CRLF)) = (''GET'', ''/../../etc/passwd'', ''HTTP/1.1'')"
    by code_simp
  have p: "''./wwwroot/../../etc/passwd'' = resource_path ''/../../etc/passwd''" by code_simp
  have n: "node_small (?fs ''./wwwroot/../../etc/passwd'')" "node_answer (?fs ''./wwwroot/../../etc/passwd'') = (True, ''root'')"
    by (simp_all add: node_small_def node_answer_def)
  have l: "length ''root'' = 4" by simp
  from http_answers [where fs = ?fs, OF m s p n] show ?thesis by (simp only: if_True l append_assoc) blast
qed

section \<open>The connection\<close>

lemma handler_no_crash:
  assumes "\<And>p. node_small (fs p)" "handlerHttpRequest fs message = Some m"
  shows "\<exists>resp. m = Done resp"
proof -
  from assms(2) obtain req where req: "Desarialize message = Some req" by (auto simp: handlerHttpRequest_def)
  have "readFile fs (hr_path req) [] = Done (node_answer (fs (hr_path req)))" by (rule readFile_answer) (rule assms(1))
  with assms(2) req show ?thesis
    by (cases "node_answer (fs (hr_path req))") (auto simp: handlerHttpRequest_def)
qed

lemma handler_None: "handlerHttpRequest fs message = None \<longleftrightarrow> \<not> crlf_text message"
proof -
  obtain line rest where r: "readLine message CRLF = (line, rest)" by (cases "readLine message CRLF")
  obtain m u v where s: "separateString line = (m, u, v)" by (cases "separateString line") auto
  show ?thesis
    using Desarialize_unfold [OF r s] read_lines_returns [of rest "[]"] readLine_crlf [OF r]
    by (auto simp: handlerHttpRequest_def)
qed

lemma http_serve_data:
  assumes "k_recvs k sock = (old, RData d) # rest" "length old = 4096" "d \<noteq> []" "length d \<le> 4096"
  shows "http_serve func sock k = (if length d = 4096 then Some (Crash OutOfBounds)
    else map_option (\<lambda>m. bind_out m (\<lambda>response. k_send sock response (k\<lparr>k_recvs := (k_recvs k)(sock := rest)\<rparr>)))
      (func (c_str d)))"
proof (cases "length d = 4096")
  case True
  then have "buf_set (recv_into old d) (int (length d)) NUL = Crash OutOfBounds"
    using assms(2) by (intro full_recv_overflow) simp
  with True assms(1,3) show ?thesis by (simp add: http_serve_def k_recv_def)
next
  case False
  then have "length d < length old" using assms(2,4) by simp
  from terminated_recv_c_string [OF this] assms(1,3) False show ?thesis
    by (simp add: http_serve_def k_recv_def del: bind_out_Done_iff)
qed



end
