(* ===== verification/SlotTable.thy ===== *)
theory SlotTable
  imports Socket "HOL-Library.Multiset"
begin

text \<open>
  The table of descriptors that the select and the poll servers keep: an array whose entry 0 is
  the listening socket and whose free entries hold the descriptor -1. The locale says what the
  servers' entries have in common; every server provides it for its own entry type. The lemmas
  keep the table in step with the open descriptors: no entry twice, nothing in the table that is
  closed, nothing open that is in no entry.
\<close>

definition default_fd :: int where "default_fd = - 1"

definition used :: "('e \<Rightarrow> int) \<Rightarrow> 'e list \<Rightarrow> int list" where
  "used fd_of tab = filter (\<lambda>fd. fd \<noteq> default_fd) (map fd_of tab)"

text \<open>The search \<open>int pos = 1; for (; pos < size; ++pos) if (free) break;\<close> of every \<open>Accepter\<close>.\<close>

definition free_slot :: "('e \<Rightarrow> int) \<Rightarrow> 'e list \<Rightarrow> nat option" where
  "free_slot fd_of tab = find (\<lambda>pos. fd_of (tab ! pos) = default_fd) [1..<length tab]"

text \<open>\<open>base\<close>: the descriptors that were open before the server was started.\<close>

definition slots_ok :: "('e \<Rightarrow> int) \<Rightarrow> int set \<Rightarrow> int \<Rightarrow> 'e list \<Rightarrow> kernel \<Rightarrow> bool" where
  "slots_ok fd_of base lfd tab k \<longleftrightarrow>
     tab \<noteq> [] \<and> fd_of (tab ! 0) = lfd \<and> lfd \<noteq> default_fd \<and> distinct (used fd_of tab) \<and>
     set (used fd_of tab) \<inter> base = {} \<and> set (k_open k) = base \<union> set (used fd_of tab)"

record 'e fd_server =
  fs_listensock :: sock
  fs_tab :: "'e list"
  fs_kern :: kernel

lemma find_SomeD: "find P xs = Some x \<Longrightarrow> x \<in> set xs \<and> P x"
  by (auto simp: find_Some_iff)

lemma free_slotD:
  "free_slot fd_of tab = Some pos \<Longrightarrow> 0 < pos \<and> pos < length tab \<and> fd_of (tab ! pos) = default_fd"
  by (auto simp: free_slot_def dest!: find_SomeD)

lemma used_update:
  assumes "pos < length tab"
  shows "mset (used fd_of (tab[pos := e])) + (if fd_of (tab ! pos) = default_fd then {#} else {#fd_of (tab ! pos)#})
    = mset (used fd_of tab) + (if fd_of e = default_fd then {#} else {#fd_of e#})"
proof -
  define xs ys where "xs = take pos tab" and "ys = drop (Suc pos) tab"
  then have tab: "tab = xs @ (tab ! pos) # ys" "length xs = pos"
    using assms by (simp_all add: id_take_nth_drop)
  obtain e0 where e0: "tab ! pos = e0" by blast
  with tab have t: "tab = xs @ e0 # ys" by simp
  have "tab[pos := e] = xs @ e # ys" unfolding t using tab(2) by auto
  then show ?thesis unfolding e0 by (simp add: used_def t)
qed

locale slot_table =
  fixes fd_of :: "'e \<Rightarrow> int"
    and clear :: "'e \<Rightarrow> 'e"
    and fill :: "int \<Rightarrow> string \<Rightarrow> int \<Rightarrow> 'e \<Rightarrow> 'e"
  assumes fd_clear: "fd_of (clear e) = default_fd"
    and fd_fill: "fd_of (fill fd ip port e) = fd"
begin

lemma fill_ok:
  assumes "slots_ok fd_of base lfd tab k" "free_slot fd_of tab = Some pos"
    and "fd \<notin> set (k_open k)" "fd \<noteq> default_fd" "k_open k' = fd # k_open k"
  shows "slots_ok fd_of base lfd (tab[pos := fill fd ip port (tab ! pos)]) k'"
proof -
  note pos = free_slotD [OF assms(2)]
  have m: "mset (used fd_of (tab[pos := fill fd ip port (tab ! pos)])) = add_mset fd (mset (used fd_of tab))"
    using used_update [of pos tab fd_of "fill fd ip port (tab ! pos)"] pos assms(4) by (simp add: fd_fill)
  then have s: "set (used fd_of (tab[pos := fill fd ip port (tab ! pos)])) = insert fd (set (used fd_of tab))"
    by (metis set_mset_add_mset_insert set_mset_mset)
  have "fd \<notin> set (used fd_of tab)" using assms(1,3) by (auto simp: slots_ok_def)
  with m assms(1) have "distinct (used fd_of (tab[pos := fill fd ip port (tab ! pos)]))"
    unfolding slots_ok_def distinct_count_atmost_1 [symmetric] 
    by (metis distinct.simps(2) mset.simps(2) mset_eq_imp_distinct_iff)
  with s pos assms show ?thesis by (auto simp: slots_ok_def)
qed

lemma clear_ok:
  assumes "slots_ok fd_of base lfd tab k" "0 < i" "i < length tab" "fd_of (tab ! i) = fd"
    and "fd \<noteq> default_fd" "k_open k' = removeAll fd (k_open k)"
  shows "slots_ok fd_of base lfd (tab[i := clear (tab ! i)]) k'"
proof -
  have m: "add_mset fd (mset (used fd_of (tab[i := clear (tab ! i)]))) = mset (used fd_of tab)"
    using used_update [of i tab fd_of "clear (tab ! i)"] assms(3-5) by (simp add: fd_clear)
  then have d: "distinct (fd # used fd_of (tab[i := clear (tab ! i)]))"
    using assms(1) unfolding slots_ok_def by (metis mset.simps(2) mset_eq_imp_distinct_iff)
  moreover have s: "insert fd (set (used fd_of (tab[i := clear (tab ! i)]))) = set (used fd_of tab)"
    using m by (metis set_mset_add_mset_insert set_mset_mset)
  ultimately show ?thesis using assms by (auto simp: slots_ok_def)
qed

end

lemma slots_ok_full:
  "slots_ok fd_of base lfd tab k \<Longrightarrow> fd \<notin> set (k_open k) \<Longrightarrow> k_open k' = removeAll fd (fd # k_open k) \<Longrightarrow>
   slots_ok fd_of base lfd tab k'"
  by (simp add: slots_ok_def)

lemma slots_ok_kern: "slots_ok fd_of base lfd tab k \<Longrightarrow> k_open k' = k_open k \<Longrightarrow> slots_ok fd_of base lfd tab k'"
  by (simp add: slots_ok_def)

text \<open>The listening socket stands in entry 0 only.\<close>

lemma slots_ok_entry:
  assumes "slots_ok fd_of base lfd tab k" "i < length tab" "fd_of (tab ! i) = lfd"
  shows "i = 0"
proof (rule ccontr)
  assume i: "i \<noteq> 0"
  obtain e tab' where tab: "tab = e # tab'" using assms(1) by (cases tab) (auto simp: slots_ok_def)
  with assms i have "lfd \<in> fd_of ` set tab'" by (cases i) (auto simp: nth_mem)
  with tab assms(1) show False by (auto simp: slots_ok_def used_def)
qed

end
