(* ===== verification/SelectServer.thy ===== *)
theory SelectServer
  imports SlotTable
begin

text \<open>
  The two select servers, \<open>8.6/selectServer.1\<close> and \<open>8.6/selectServer.2\<close>. Each round they build
  the descriptor sets from the table, call \<open>select\<close>, and walk over the table: the listening
  socket is accepted from, every other readable descriptor is read once and echoed. The second
  version keeps an event mask and the client's address per entry. A round takes what \<open>select\<close>
  answers: 0 or -1, or the descriptors it left in the two sets.
\<close>

section \<open>select\<close>

definition FD_SETSIZE :: int where "FD_SETSIZE = 1024"

definition fd_size :: nat where "fd_size = 1024"

datatype select_ret = SelTimeout | SelError | SelReady "int list" "int list"

text \<open>\<open>FD_SET\<close> writes one bit of an array of \<open>FD_SETSIZE\<close> bits; a set is the list of its members.\<close>

definition FD_SET :: "int \<Rightarrow> int list \<Rightarrow> int list outcome" where
  "FD_SET fd fds = (if 0 \<le> fd \<and> fd < FD_SETSIZE then Done (fd # fds) else Crash OutOfBounds)"

definition FD_ISSET :: "int \<Rightarrow> int list \<Rightarrow> bool" where
  "FD_ISSET fd fds \<longleftrightarrow> fd \<in> set fds"

section \<open>Version 1\<close>

type_synonym select1 = "int fd_server"

definition init_server1 :: "int \<Rightarrow> kernel \<Rightarrow> select1 outcome" where
  "init_server1 port k =
     bind_out (open_listener port k) (\<lambda>(so, k1).
       Done \<lparr>fs_listensock = so, fs_tab = replicate fd_size default_fd, fs_kern = k1\<rparr>)"

text \<open>\<open>len\<close> is the indeterminate length that \<open>Accept\<close> passes on.\<close>

definition Accepter1 :: "int \<Rightarrow> select1 \<Rightarrow> select1 outcome" where
  "Accepter1 len s =
     bind_out (sock_Accept_uninit len (fs_listensock s) (fs_kern s)) (\<lambda>(r, k). case r of (client_sock, addr) \<Rightarrow>
       if client_sock < 0 then Done (s\<lparr>fs_kern := k\<rparr>)
       else (case free_slot id (fs_tab s) of
               None \<Rightarrow> Done (s\<lparr>fs_kern := k_close client_sock k\<rparr>)
             | Some pos \<Rightarrow> Done (s\<lparr>fs_kern := k, fs_tab := (fs_tab s)[pos := client_sock]\<rparr>)))"

unbundle bit_operations_syntax

text \<open>What a client receives: the message without its last byte, and a fixed text.\<close>

definition echo_reply :: "string \<Rightarrow> string" where
  "echo_reply msg = msg @ '' server echo: ''"

text \<open>Reading one message and answering it: \<open>True\<close> if the connection stays.\<close>

definition read_and_echo :: "int \<Rightarrow> kernel \<Rightarrow> (bool \<times> kernel) outcome" where
  "read_and_echo fd k =
     bind_out (k_recv fd k) (\<lambda>(call, k1). case call of (old, r) \<Rightarrow>
       (case r of
          RData data \<Rightarrow>
            (if data = [] then Done (False, k1)
             else bind_out (buf_set (recv_into old data) (int (length data) - 1) NUL) (\<lambda>buffer.
                  bind_out (c_string buffer) (\<lambda>str.
                  bind_out (k_send fd (echo_reply str) k1) (\<lambda>k2. Done (True, k2)))))
        | REof \<Rightarrow> Done (False, k1)
        | RErr e \<Rightarrow> Done (False, k1)))"

definition IOService1 :: "nat \<Rightarrow> select1 \<Rightarrow> select1 outcome" where
  "IOService1 i s =
     (let fd = fs_tab s ! i
      in bind_out (read_and_echo fd (fs_kern s)) (\<lambda>(alive, k).
           if alive then Done (s\<lparr>fs_kern := k\<rparr>)
           else Done (s\<lparr>fs_kern := k_close fd k, fs_tab := (fs_tab s)[i := default_fd]\<rparr>)))"

definition handle_slot1 :: "int \<Rightarrow> int list \<Rightarrow> nat \<Rightarrow> select1 \<Rightarrow> select1 outcome" where
  "handle_slot1 len rdfds i s =
     (let fd = fs_tab s ! i
      in if fd = default_fd then Done s
         else if fd = sock_fd (fs_listensock s) \<and> FD_ISSET fd rdfds then Accepter1 len s
         else if FD_ISSET fd rdfds then IOService1 i s
         else Done s)"

definition HandlerEvent1 :: "int \<Rightarrow> int list \<Rightarrow> select1 \<Rightarrow> select1 outcome" where
  "HandlerEvent1 len rdfds s = for_each (handle_slot1 len rdfds) [0..<length (fs_tab s)] s"

text \<open>The loop that fills the bit map and finds the greatest descriptor.\<close>

fun build_set1 :: "int list \<Rightarrow> int list \<Rightarrow> int \<Rightarrow> (int list \<times> int) outcome" where
  "build_set1 [] rdfds maxfd = Done (rdfds, maxfd)"
| "build_set1 (fd # fds) rdfds maxfd =
     (if fd = default_fd then build_set1 fds rdfds maxfd
      else bind_out (FD_SET fd rdfds) (\<lambda>rdfds. build_set1 fds rdfds (max maxfd fd)))"

definition select_round1 :: "int \<Rightarrow> select_ret \<Rightarrow> select1 \<Rightarrow> select1 outcome" where
  "select_round1 len ret s =
     bind_out (build_set1 (fs_tab s) [] (fs_tab s ! 0)) (\<lambda>(rdfds, maxfd).
       case ret of
         SelTimeout \<Rightarrow> Done s
       | SelError \<Rightarrow> Done s
       | SelReady rs ws \<Rightarrow> HandlerEvent1 len (filter (\<lambda>fd. fd \<in> set rs) rdfds) s)"

definition start_server1 :: "(int \<times> select_ret) list \<Rightarrow> select1 \<Rightarrow> select1 outcome" where
  "start_server1 rounds s = for_each (\<lambda>(len, ret). select_round1 len ret) rounds
     (s\<lparr>fs_tab := (fs_tab s)[0 := sock_fd (fs_listensock s)]\<rparr>)"

section \<open>Version 2\<close>

definition READ_EVENT :: "8 word" where "READ_EVENT = 0x1"
definition WRITE_EVENT :: "8 word" where "WRITE_EVENT = 0x2"

record sel_entry =
  se_fd :: int
  se_event :: "8 word"
  se_client_ip :: string
  se_client_port :: int

type_synonym select2 = "sel_entry fd_server"

definition default_entry :: sel_entry where
  "default_entry = \<lparr>se_fd = default_fd, se_event = 0, se_client_ip = [], se_client_port = 0\<rparr>"

definition init_server2 :: "int \<Rightarrow> kernel \<Rightarrow> select2 outcome" where
  "init_server2 port k =
     bind_out (open_listener port k) (\<lambda>(so, k1).
       Done \<lparr>fs_listensock = so, fs_tab = replicate fd_size default_entry, fs_kern = k1\<rparr>)"

definition fill_entry :: "int \<Rightarrow> string \<Rightarrow> int \<Rightarrow> sel_entry \<Rightarrow> sel_entry" where
  "fill_entry fd ip port e =
     e\<lparr>se_fd := fd, se_event := READ_EVENT, se_client_ip := ip, se_client_port := port\<rparr>"

definition clear_entry :: "sel_entry \<Rightarrow> sel_entry" where
  "clear_entry e = e\<lparr>se_fd := default_fd, se_event := 0, se_client_ip := [], se_client_port := 0\<rparr>"

definition Accepter2 :: "int \<Rightarrow> select2 \<Rightarrow> select2 outcome" where
  "Accepter2 len s =
     bind_out (sock_Accept_uninit len (fs_listensock s) (fs_kern s)) (\<lambda>(r, k). case r of (client_sock, addr) \<Rightarrow>
       if client_sock < 0 then Done (s\<lparr>fs_kern := k\<rparr>)
       else (case addr of
           None \<Rightarrow> Crash Uninitialised
         | Some (client_ip, client_port) \<Rightarrow>
             (case free_slot se_fd (fs_tab s) of
                None \<Rightarrow> Done (s\<lparr>fs_kern := k_close client_sock k\<rparr>)
              | Some pos \<Rightarrow> Done (s\<lparr>fs_kern := k, fs_tab := (fs_tab s)[pos :=
                    fill_entry client_sock client_ip client_port (fs_tab s ! pos)]\<rparr>))))"

definition IOService2 :: "nat \<Rightarrow> select2 \<Rightarrow> select2 outcome" where
  "IOService2 i s =
     (let fd = se_fd (fs_tab s ! i)
      in bind_out (read_and_echo fd (fs_kern s)) (\<lambda>(alive, k).
           if alive then Done (s\<lparr>fs_kern := k\<rparr>)
           else Done (s\<lparr>fs_kern := k_close fd k, fs_tab := (fs_tab s)[i := clear_entry (fs_tab s ! i)]\<rparr>)))"

definition handle_slot2 :: "int \<Rightarrow> int list \<Rightarrow> int list \<Rightarrow> nat \<Rightarrow> select2 \<Rightarrow> select2 outcome" where
  "handle_slot2 len rdfds wtfds i s =
     (let e = fs_tab s ! i
      in if se_fd e = default_fd then Done s
         else if (se_event e AND READ_EVENT) \<noteq> 0 \<and> FD_ISSET (se_fd e) rdfds then
           (if se_fd e = sock_fd (fs_listensock s) then Accepter2 len s
            else if FD_ISSET (se_fd e) rdfds then IOService2 i s else Done s)
         else if (se_event e AND WRITE_EVENT) \<noteq> 0 \<and> FD_ISSET (se_fd e) wtfds then Done s
         else Done s)"

definition HandlerEvent2 :: "int \<Rightarrow> int list \<Rightarrow> int list \<Rightarrow> select2 \<Rightarrow> select2 outcome" where
  "HandlerEvent2 len rdfds wtfds s = for_each (handle_slot2 len rdfds wtfds) [0..<length (fs_tab s)] s"

fun build_set2 ::
  "sel_entry list \<Rightarrow> int list \<Rightarrow> int list \<Rightarrow> int \<Rightarrow> (int list \<times> int list \<times> int) outcome" where
  "build_set2 [] rdfds wtfds maxfd = Done (rdfds, wtfds, maxfd)"
| "build_set2 (e # es) rdfds wtfds maxfd =
     (if se_fd e = default_fd then build_set2 es rdfds wtfds maxfd
      else bind_out (if (se_event e AND READ_EVENT) \<noteq> 0 then FD_SET (se_fd e) rdfds else Done rdfds) (\<lambda>rdfds.
           bind_out (if (se_event e AND WRITE_EVENT) \<noteq> 0 then FD_SET (se_fd e) wtfds else Done wtfds) (\<lambda>wtfds.
             build_set2 es rdfds wtfds (max maxfd (se_fd e)))))"

definition select_round2 :: "int \<Rightarrow> select_ret \<Rightarrow> select2 \<Rightarrow> select2 outcome" where
  "select_round2 len ret s =
     bind_out (build_set2 (fs_tab s) [] [] (se_fd (fs_tab s ! 0))) (\<lambda>(rdfds, wtfds, maxfd).
       case ret of
         SelTimeout \<Rightarrow> Done s
       | SelError \<Rightarrow> Done s
       | SelReady rs ws \<Rightarrow> HandlerEvent2 len (filter (\<lambda>fd. fd \<in> set rs) rdfds)
           (filter (\<lambda>fd. fd \<in> set ws) wtfds) s)"

definition start_server2 :: "(int \<times> select_ret) list \<Rightarrow> select2 \<Rightarrow> select2 outcome" where
  "start_server2 rounds s = for_each (\<lambda>(len, ret). select_round2 len ret) rounds
     (s\<lparr>fs_tab := (fs_tab s)[0 :=
        (fs_tab s ! 0)\<lparr>se_fd := sock_fd (fs_listensock s), se_event := READ_EVENT\<rparr>]\<rparr>)"

section \<open>The second version behaves as the first\<close>

definition entry_ok :: "sel_entry \<Rightarrow> bool" where
  "entry_ok e \<longleftrightarrow> se_event e = (if se_fd e = default_fd then 0 else READ_EVENT)"

definition abs2 :: "select2 \<Rightarrow> select1" where
  "abs2 s = \<lparr>fs_listensock = fs_listensock s, fs_tab = map se_fd (fs_tab s), fs_kern = fs_kern s\<rparr>"

lemma abs2_simps [simp]:
  "fs_listensock (abs2 s) = fs_listensock s" "fs_tab (abs2 s) = map se_fd (fs_tab s)"
  "fs_kern (abs2 s) = fs_kern s"
  by (simp_all add: abs2_def)

lemma abs2_updates:
  "abs2 (s\<lparr>fs_kern := k\<rparr>) = (abs2 s)\<lparr>fs_kern := k\<rparr>"
  "abs2 (s\<lparr>fs_tab := t\<rparr>) = (abs2 s)\<lparr>fs_tab := map se_fd t\<rparr>"
  by (simp_all add: abs2_def)

lemma free_slot_map: "free_slot id (map f tab) = free_slot f tab"
  by (auto simp: free_slot_def intro!: find_cong)

definition sel_inv :: "select2 \<Rightarrow> bool" where
  "sel_inv s \<longleftrightarrow> (\<forall>e \<in> set (fs_tab s). entry_ok e) \<and> length (fs_tab s) = fd_size"

lemma sel_inv_kern [simp]: "sel_inv (s\<lparr>fs_kern := k\<rparr>) = sel_inv s"
  by (simp add: sel_inv_def)

lemma sel_inv_update:
  "sel_inv s \<Longrightarrow> entry_ok e \<Longrightarrow> sel_inv (s\<lparr>fs_tab := (fs_tab s)[i := e]\<rparr>)"
  "sel_inv s \<Longrightarrow> entry_ok e \<Longrightarrow> sel_inv (s\<lparr>fs_kern := k, fs_tab := (fs_tab s)[i := e]\<rparr>)"
  by (auto simp: sel_inv_def dest!: set_update_subset_insert [THEN subsetD])

lemma entry_ok_fill [simp]: "fd \<noteq> default_fd \<Longrightarrow> entry_ok (fill_entry fd ip port e)"
  by (simp add: entry_ok_def fill_entry_def)

lemma entry_ok_clear [simp]: "entry_ok (clear_entry e)"
  by (simp add: entry_ok_def clear_entry_def)

lemma fill_clear_fd [simp]: "se_fd (fill_entry fd ip port e) = fd" "se_fd (clear_entry e) = default_fd"
  by (simp_all add: fill_entry_def clear_entry_def)

lemma sock_Accept_uninit_Done:
  "sock_Accept_uninit len so k = Done ((c, addr), k') \<Longrightarrow> c < 0 \<and> c = -1 \<or> (\<exists>ip port. addr = Some (ip, port) \<and> 0 \<le> c)"
proof -
  assume "sock_Accept_uninit len so k = Done ((c, addr), k')"
  then obtain r where r: "k_accept k = Done (r, k')"
    "(case r of Inl (n, ip, port) \<Rightarrow>
        if len < 16 then Crash Uninitialised else Done ((n, Some (ip, port)), k') | Inr e \<Rightarrow> Done ((- 1, None), k'))
       = Done ((c, addr), k')"
    by (fastforce simp: sock_Accept_uninit_def split: sum.splits prod.splits if_splits)
  then show ?thesis
    by (cases r) (auto dest!: k_accept_Inl(1) split: if_splits)
qed

lemma Accepter2_abs: "map_outcome abs2 (Accepter2 len s) = Accepter1 len (abs2 s)"
  unfolding Accepter2_def Accepter1_def map_out_bind abs2_simps
  by (rule bind_out_cong [OF refl])
     (auto simp: abs2_updates map_update free_slot_map split: option.splits dest: sock_Accept_uninit_Done)

lemma Accepter2_inv: "sel_inv s \<Longrightarrow> out_all sel_inv (Accepter2 len s)"
proof (rule out_allI)
  fix s' assume s: "sel_inv s" and a: "Accepter2 len s = Done s'"
  then obtain c addr k where c: "sock_Accept_uninit len (fs_listensock s) (fs_kern s) = Done ((c, addr), k)"
    by (auto simp: Accepter2_def)
  have "0 \<le> c \<Longrightarrow> c \<noteq> default_fd" by (simp add: default_fd_def)
  with s a c show "sel_inv s'"
    by (auto simp: Accepter2_def sel_inv_update split: option.splits if_splits)
qed

lemma IOService2_abs: "i < length (fs_tab s) \<Longrightarrow> map_outcome abs2 (IOService2 i s) = IOService1 i (abs2 s)"
  unfolding IOService2_def IOService1_def map_out_bind abs2_simps Let_def
  by (rule bind_out_cong) (auto simp: abs2_updates map_update)

lemma IOService2_inv: "sel_inv s \<Longrightarrow> out_all sel_inv (IOService2 i s)"
  by (rule out_allI)
     (auto simp: IOService2_def Let_def split: if_splits intro!: sel_inv_update)

lemma event_bits [simp]: "READ_EVENT \<noteq> 0" "READ_EVENT AND WRITE_EVENT = 0"
  by (simp_all add: READ_EVENT_def WRITE_EVENT_def)

lemma handle_slot2_abs:
  "sel_inv s \<Longrightarrow> i < fd_size \<Longrightarrow> map_outcome abs2 (handle_slot2 len rd wt i s) = handle_slot1 len rd i (abs2 s)"
proof -
  assume s: "sel_inv s" "i < fd_size"
  then have "entry_ok (fs_tab s ! i)" "i < length (fs_tab s)" by (auto simp: sel_inv_def)
  then show ?thesis
    by (simp add: handle_slot2_def handle_slot1_def Let_def entry_ok_def Accepter2_abs IOService2_abs)
qed

lemma handle_slot2_inv: "sel_inv s \<Longrightarrow> out_all sel_inv (handle_slot2 len rd wt i s)"
  by (simp add: handle_slot2_def Let_def Accepter2_inv IOService2_inv)

lemma HandlerEvent2_abs:
  assumes "sel_inv s"
  shows "map_outcome abs2 (HandlerEvent2 len rd wt s) = HandlerEvent1 len rd (abs2 s)"
proof -
  have l: "length (fs_tab s) = fd_size" using assms by (simp add: sel_inv_def)
  show ?thesis
    unfolding HandlerEvent2_def HandlerEvent1_def abs2_simps length_map l
    using assms by (rule for_each_sim) (simp_all add: handle_slot2_abs handle_slot2_inv)
qed

lemma for_each_out_all:
  "P s \<Longrightarrow> (\<And>i s. P s \<Longrightarrow> out_all P (body i s)) \<Longrightarrow> out_all P (for_each body is s)"
  by (rule out_allI, erule for_each_inv) (auto dest: out_allD)

lemma HandlerEvent2_inv: "sel_inv s \<Longrightarrow> out_all sel_inv (HandlerEvent2 len rd wt s)"
  unfolding HandlerEvent2_def by (erule for_each_out_all) (rule handle_slot2_inv)

lemma build_set2_abs:
  "\<forall>e \<in> set es. entry_ok e \<Longrightarrow>
   build_set2 es rd wt m = bind_out (build_set1 (map se_fd es) rd m) (\<lambda>(rd, m). Done (rd, wt, m))"
  by (induction es rd wt m rule: build_set2.induct) (auto simp: entry_ok_def bind_out_assoc intro!: bind_out_cong)

lemma select_round2_abs:
  assumes "sel_inv s"
  shows "map_outcome abs2 (select_round2 len ret s) = select_round1 len ret (abs2 s)"
proof -
  have b: "build_set2 (fs_tab s) [] [] m = bind_out (build_set1 (map se_fd (fs_tab s)) [] m) (\<lambda>(rd, m). Done (rd, [], m))" for m
    using assms by (intro build_set2_abs) (simp add: sel_inv_def)
  have "fs_tab s \<noteq> []" using assms by (auto simp: sel_inv_def fd_size_def)
  then have z: "map se_fd (fs_tab s) ! 0 = se_fd (fs_tab s ! 0)" by simp
  show ?thesis
    unfolding select_round2_def select_round1_def abs2_simps b bind_out_assoc map_out_bind z
    by (rule bind_out_cong [OF refl])
       (auto simp: HandlerEvent2_abs [OF assms] split: select_ret.splits)
qed

lemma select_round2_inv: "sel_inv s \<Longrightarrow> out_all sel_inv (select_round2 len ret s)"
  unfolding select_round2_def
  by (rule out_all_bind [where P = "\<lambda>_. True"])
     (auto simp: HandlerEvent2_inv split: select_ret.splits intro: out_allI)

lemma start_server2_abs:
  assumes "sel_inv s" "sock_fd (fs_listensock s) \<noteq> default_fd"
  shows "map_outcome abs2 (start_server2 rounds s) = start_server1 rounds (abs2 s)"
proof -
  define e where "e = (fs_tab s ! 0)\<lparr>se_fd := sock_fd (fs_listensock s), se_event := READ_EVENT\<rparr>"
  have "entry_ok e" using assms(2) by (simp add: e_def entry_ok_def)
  then have "sel_inv (s\<lparr>fs_tab := (fs_tab s)[0 := e]\<rparr>)" by (rule sel_inv_update(1) [OF assms(1)])
  then have "map_outcome abs2 (for_each (\<lambda>(len, ret). select_round2 len ret) rounds (s\<lparr>fs_tab := (fs_tab s)[0 := e]\<rparr>))
    = for_each (\<lambda>(len, ret). select_round1 len ret) rounds (abs2 (s\<lparr>fs_tab := (fs_tab s)[0 := e]\<rparr>))"
    by (rule for_each_sim) (auto simp: select_round2_abs select_round2_inv)
  moreover have "abs2 (s\<lparr>fs_tab := (fs_tab s)[0 := e]\<rparr>)
    = (abs2 s)\<lparr>fs_tab := (fs_tab (abs2 s))[0 := sock_fd (fs_listensock (abs2 s))]\<rparr>"
    by (simp add: abs2_updates map_update e_def)
  ultimately show ?thesis by (simp add: start_server1_def start_server2_def e_def)
qed

lemma init_server_abs:
  "map_outcome abs2 (init_server2 port k) = init_server1 port k"
  by (auto simp: init_server2_def init_server1_def map_out_bind abs2_def default_entry_def intro!: bind_out_cong)

lemma init_server2_ok:
  "init_server2 port k = Done s \<Longrightarrow> sel_inv s \<and> sock_fd (fs_listensock s) \<noteq> default_fd"
  using lowest_fd_nonneg [of "k_open k"] unfolding default_fd_def
  by (auto simp: init_server2_def sel_inv_def entry_ok_def default_entry_def default_fd_def
      simp del: lowest_fd_nonneg dest!: open_listener_Done(1))

text \<open>C17. The select server with the per-connection event mask and client address behaves,
  descriptor for descriptor and byte for byte, as the one with the plain array of descriptors:
  from the start, for every sequence of answers of select, both have the same outcome, and the
  descriptors in the table, the kernel state and the listening socket stay the same. So the event
  masks never disagree with the descriptors, and no entry is ever waited on for writing.\<close>

theorem select2_refines_select1:
  "map_outcome abs2 (bind_out (init_server2 port k) (start_server2 rounds)) =
   bind_out (init_server1 port k) (start_server1 rounds)"
proof -
  have "map_outcome abs2 (bind_out (init_server2 port k) (start_server2 rounds))
    = bind_out (init_server2 port k) (\<lambda>s. start_server1 rounds (abs2 s))"
    unfolding map_out_bind by (rule bind_out_cong [OF refl]) (auto dest!: init_server2_ok simp: start_server2_abs)
  also have "\<dots> = bind_out (map_outcome abs2 (init_server2 port k)) (start_server1 rounds)"
    by (cases "init_server2 port k") simp_all
  finally show ?thesis by (simp add: init_server_abs)
qed

end
