(* ===== verification/SelectProps.thy ===== *)
theory SelectProps
  imports SelectServer Examples
begin

text \<open>
  What keeps the select servers safe: the table of descriptors stays in step with the open
  descriptors through every round, and the only way out of the loop is a descriptor that does
  not fit into an \<open>fd_set\<close>.
\<close>

section \<open>Reading and echoing\<close>

text \<open>What a call of \<open>recv\<close> with a 1024-byte array and a limit of 1023 can do.\<close>

definition echo_call :: "recv_call \<Rightarrow> bool" where
  "echo_call c \<longleftrightarrow> length (fst c) = 1024 \<and> (case snd c of RData d \<Rightarrow> length d \<le> 1023 | _ \<Rightarrow> True)"

text \<open>Every scripted call is one, and descriptors are not negative.\<close>

definition echo_env :: "kernel \<Rightarrow> bool" where
  "echo_env k \<longleftrightarrow> (\<forall>fd. list_all echo_call (k_recvs k fd)) \<and> (\<forall>fd \<in> set (k_open k). 0 \<le> fd)"

lemma echo_env_close [simp]: "echo_env k \<Longrightarrow> echo_env (k_close fd k)"
  by (simp add: echo_env_def k_close_def)

lemma echo_env_send: "k_send fd str k = Done k' \<Longrightarrow> echo_env k' = echo_env k"
  by (auto simp: echo_env_def k_send_def split: list.splits send_res.splits)

lemma echo_env_accept: "k_accept k = Done (r, k') \<Longrightarrow> echo_env k \<Longrightarrow> echo_env k'"
  by (auto simp: echo_env_def k_accept_def k_new_fd_def Let_def split: list.splits accept_res.splits)

lemma echo_env_recv:
  "k_recv fd k = Done (c, k') \<Longrightarrow> echo_env k \<Longrightarrow> echo_env k' \<and> echo_call c"
proof -
  assume r: "k_recv fd k = Done (c, k')" and e: "echo_env k"
  then obtain rest where rest: "k_recvs k fd = c # rest" "k' = k\<lparr>k_recvs := (k_recvs k)(fd := rest)\<rparr>"
    by (auto simp: k_recv_def split: list.splits)
  with e have "list_all echo_call (c # rest)" by (metis echo_env_def)
  with rest e show ?thesis by (simp add: echo_env_def)
qed

lemma read_and_echo_Done:
  assumes "read_and_echo fd k = Done (alive, k')" "echo_env k"
  shows "k_open k' = k_open k \<and> echo_env k'"
proof -
  from assms(1) obtain c k1 where c: "k_recv fd k = Done (c, k1)" by (auto simp: read_and_echo_def)
  note k1 = k_recv_Done [OF c] echo_env_recv [OF c assms(2)]
  from assms(1) c consider "k' = k1" | str where "k_send fd str k1 = Done k'"
    by (cases c; cases "snd c") (auto simp: read_and_echo_def split: if_splits)
  then show ?thesis
    by cases (use k1 in \<open>simp_all add: k_send_Done echo_env_send\<close>)
qed

lemma read_and_echo_no_crash:
  assumes "echo_env k"
  shows "read_and_echo fd k \<noteq> Crash e"
proof
  assume c: "read_and_echo fd k = Crash e"
  then obtain x k1 where x: "k_recv fd k = Done (x, k1)"
    by (auto simp: read_and_echo_def bind_out_Crash_iff)
  with c obtain old d where d: "k_recv fd k = Done ((old, RData d), k1)" "d \<noteq> []"
    by (cases x; cases "snd x") (auto simp: read_and_echo_def split: if_splits)
  with echo_env_recv [OF d(1) assms] have l: "length old = 1024" "length d \<le> 1023"
    by (simp_all add: echo_call_def)
  define buf where "buf = (recv_into old d)[length d - 1 := NUL]"
  have "length d - 1 < length (recv_into old d)" using l d(2) by simp
  then have "buf_set (recv_into old d) (int (length d) - 1) NUL = Done buf" "NUL \<in> set buf"
    using d(2) l by (auto simp: buf_set_def buf_def nat_diff_distrib' set_update_memI)
  with c d show False by (auto simp: read_and_echo_def bind_out_Crash_iff c_string_def)
qed

section \<open>Version 1\<close>

interpretation sel1: slot_table id "\<lambda>_. default_fd" "\<lambda>fd ip port e. fd"
  by unfold_locales simp_all

interpretation sel2: slot_table se_fd clear_entry fill_entry
  by unfold_locales simp_all

definition sel1_ok :: "int set \<Rightarrow> select1 \<Rightarrow> bool" where
  "sel1_ok base s \<longleftrightarrow> slots_ok id base (sock_fd (fs_listensock s)) (fs_tab s) (fs_kern s) \<and>
     echo_env (fs_kern s) \<and> length (fs_tab s) = fd_size"

lemma sel1_okI:
  "slots_ok id base (sock_fd (fs_listensock s)) t k \<Longrightarrow> echo_env k \<Longrightarrow> length t = fd_size \<Longrightarrow>
   sel1_ok base (s\<lparr>fs_kern := k, fs_tab := t\<rparr>)"
  by (simp add: sel1_ok_def)

lemma Accepter1_ok:
  assumes "Accepter1 len s = Done s'" "sel1_ok base s"
  shows "sel1_ok base s'"
proof -
  let ?lfd = "sock_fd (fs_listensock s)"
  from assms(1) obtain c addr k where a: "sock_Accept_uninit len (fs_listensock s) (fs_kern s) = Done ((c, addr), k)"
    by (auto simp: Accepter1_def)
  then obtain r where r: "k_accept (fs_kern s) = Done (r, k)"
    "(case r of Inl (n, ip, port) \<Rightarrow>
        if len < 16 then Crash Uninitialised else Done ((n, Some (ip, port)), k) | Inr e \<Rightarrow> Done ((- 1, None), k))
       = Done ((c, addr), k)"
    by (fastforce simp: sock_Accept_uninit_def split: sum.splits prod.splits if_splits)
  note s = assms(2) [unfolded sel1_ok_def]
  have env: "echo_env k" using s r(1) by (simp add: echo_env_accept)
  show ?thesis
  proof (cases r)
    case (Inr e)
    with r have "c = -1" "k_open k = k_open (fs_kern s)" by (auto dest!: k_accept_Inr(1))
    with assms(1) a s env show ?thesis by (auto simp: Accepter1_def sel1_ok_def elim: slots_ok_kern)
  next
    case (Inl x)
    with r(2) obtain ip port where "x = (c, ip, port)" by (cases x) (auto split: if_splits)
    with Inl r(1) have c: "c = lowest_fd (k_open (fs_kern s))" "k_open k = c # k_open (fs_kern s)"
      by (auto dest: k_accept_Inl)
    then have f: "c \<notin> set (k_open (fs_kern s))" "0 \<le> c" "c \<noteq> default_fd"
      using lowest_fd_nonneg [of "k_open (fs_kern s)"]
      by (simp_all add: lowest_fd_fresh default_fd_def del: lowest_fd_nonneg)
    show ?thesis
    proof (cases "free_slot id (fs_tab s)")
      case None
      have "slots_ok id base ?lfd (fs_tab s) (k_close c k)"
        by (rule slots_ok_full [OF conjunct1 [OF s] f(1)]) (simp add: k_close_def c(2))
      with None assms(1) a s f env show ?thesis by (auto simp: Accepter1_def sel1_ok_def)
    next
      case (Some pos)
      have "slots_ok id base ?lfd ((fs_tab s)[pos := c]) k"
        by (rule sel1.fill_ok [OF conjunct1 [OF s] Some f(1,3) c(2)])
      with Some assms(1) a s f env show ?thesis by (auto simp: Accepter1_def intro: sel1_okI)
    qed
  qed
qed

lemma IOService1_ok:
  assumes "IOService1 i s = Done s'" "sel1_ok base s" "0 < i" "i < length (fs_tab s)"
    and "fs_tab s ! i \<noteq> default_fd"
  shows "sel1_ok base s'"
proof -
  let ?fd = "fs_tab s ! i"
  from assms(1) obtain alive k where k: "read_and_echo ?fd (fs_kern s) = Done (alive, k)"
    by (auto simp: IOService1_def Let_def)
  note s = assms(2) [unfolded sel1_ok_def]
  have k': "k_open k = k_open (fs_kern s)" "echo_env k" using read_and_echo_Done [OF k] s by simp_all
  have "slots_ok id base (sock_fd (fs_listensock s)) (fs_tab s) k"
    using s k' by (auto elim: slots_ok_kern)
  moreover have "slots_ok id base (sock_fd (fs_listensock s)) ((fs_tab s)[i := default_fd]) (k_close ?fd k)"
    by (rule sel1.clear_ok [OF conjunct1 [OF s] assms(3,4)]) (simp_all add: assms(5) k_close_def k')
  ultimately show ?thesis using assms(1) k s k'
    by (auto simp: IOService1_def Let_def sel1_ok_def split: if_splits)
qed

lemma handle_slot1_ok:
  assumes "handle_slot1 len rd i s = Done s'" "sel1_ok base s" "i < fd_size"
  shows "sel1_ok base s'"
proof -
  have l: "i < length (fs_tab s)" using assms(2,3) by (simp add: sel1_ok_def)
  have z: "fs_tab s ! 0 = sock_fd (fs_listensock s)" using assms(2) by (simp add: sel1_ok_def slots_ok_def)
  from assms(1) consider "s' = s" | "Accepter1 len s = Done s'"
    | "IOService1 i s = Done s'" "fs_tab s ! i \<noteq> default_fd" "fs_tab s ! i \<noteq> fs_tab s ! 0"
    unfolding z by (fastforce simp: handle_slot1_def Let_def split: if_splits)
  then show ?thesis
  proof cases
    case 3
    then have "0 < i" by (cases i) simp_all
    with 3 assms(2) l show ?thesis by (blast intro: IOService1_ok)
  qed (use assms(2) in \<open>auto elim: Accepter1_ok\<close>)
qed

lemma handle_slot1_no_crash:
  "sel1_ok base s \<Longrightarrow> 16 \<le> len \<Longrightarrow> handle_slot1 len rd i s \<noteq> Crash e"
  by (auto simp: handle_slot1_def Let_def Accepter1_def IOService1_def sock_Accept_uninit_def sel1_ok_def
      bind_out_Crash_iff read_and_echo_no_crash split: sum.splits option.splits if_splits)

lemma HandlerEvent1_ok:
  "HandlerEvent1 len rd s = Done s' \<Longrightarrow> sel1_ok base s \<Longrightarrow> sel1_ok base s'"
proof -
  assume h: "HandlerEvent1 len rd s = Done s'" and s: "sel1_ok base s"
  have l: "length (fs_tab s) = fd_size" using s by (simp add: sel1_ok_def)
  show ?thesis using h [unfolded HandlerEvent1_def l] s
    by (rule for_each_inv) (auto intro: handle_slot1_ok)
qed

lemma HandlerEvent1_no_crash:
  "sel1_ok base s \<Longrightarrow> 16 \<le> len \<Longrightarrow> HandlerEvent1 len rd s \<noteq> Crash e"
proof
  assume s: "sel1_ok base s" "16 \<le> len" and c: "HandlerEvent1 len rd s = Crash e"
  have l: "length (fs_tab s) = fd_size" using s by (simp add: sel1_ok_def)
  show False
    using c [unfolded HandlerEvent1_def l] s(1)
    by (rule for_each_Crash) (auto simp: handle_slot1_no_crash [OF _ s(2)] intro: handle_slot1_ok)
qed

lemma build_set1_Crash:
  "build_set1 fds rd m = Crash e \<longleftrightarrow>
   e = OutOfBounds \<and> (\<exists>fd \<in> set fds. fd \<noteq> default_fd \<and> (fd < 0 \<or> FD_SETSIZE \<le> fd))"
  by (induction fds rd m rule: build_set1.induct) (auto simp: bind_out_Crash_iff FD_SET_def)

lemma build_set1_Done:
  "build_set1 fds rd m = Done (rd', m') \<Longrightarrow> set rd' = set rd \<union> (set fds - {default_fd})"
  by (induction fds rd m rule: build_set1.induct) (auto simp: FD_SET_def split: if_splits)

lemma select_round1_ok:
  "select_round1 len ret s = Done s' \<Longrightarrow> sel1_ok base s \<Longrightarrow> sel1_ok base s'"
  by (cases ret) (auto simp: select_round1_def intro: HandlerEvent1_ok)

lemma sel1_nonneg: "sel1_ok base s \<Longrightarrow> fd \<in> set (fs_tab s) \<Longrightarrow> fd \<noteq> default_fd \<Longrightarrow> 0 \<le> fd"
  by (auto simp: sel1_ok_def slots_ok_def echo_env_def used_def)

lemma select_round1_Crash:
  assumes "sel1_ok base s" "16 \<le> len"
  shows "select_round1 len ret s = Crash e \<longleftrightarrow> e = OutOfBounds \<and> (\<exists>fd \<in> set (fs_tab s). FD_SETSIZE \<le> fd)"
    (is "?l \<longleftrightarrow> ?r")
proof -
  have "?l \<longleftrightarrow> build_set1 (fs_tab s) [] (fs_tab s ! 0) = Crash e"
    using HandlerEvent1_no_crash [OF assms]
    by (cases ret) (auto simp: select_round1_def bind_out_Crash_iff)
  also have "\<dots> \<longleftrightarrow> ?r"
    using sel1_nonneg [OF assms(1)] by (force simp: build_set1_Crash default_fd_def FD_SETSIZE_def)
  finally show ?thesis .
qed

lemma init_server1_ok:
  assumes "init_server1 port k = Done s" "echo_env k"
  shows "sel1_ok (set (k_open k)) (s\<lparr>fs_tab := (fs_tab s)[0 := sock_fd (fs_listensock s)]\<rparr>)"
proof -
  from assms(1) obtain so k1 where so: "open_listener port k = Done (so, k1)"
    "s = \<lparr>fs_listensock = so, fs_tab = replicate fd_size default_fd, fs_kern = k1\<rparr>"
    by (auto simp: init_server1_def)
  note o = open_listener_Done [OF so(1)]
  have r: "k_recvs k1 = k_recvs k" using so(1)
    by (auto simp: open_listener_def sock_Socket_def sock_Bind_def sock_Listen_def k_new_fd_def Let_def split: if_splits)
  have f: "0 \<le> sock_fd so" "sock_fd so \<notin> set (k_open k)" "sock_fd so \<noteq> default_fd"
    using o(1) lowest_fd_nonneg [of "k_open k"]
    by (simp_all add: lowest_fd_fresh default_fd_def del: lowest_fd_nonneg)
  obtain n where n: "fd_size = Suc n" by (auto simp: fd_size_def)
  have "used id (sock_fd so # replicate n default_fd) = [sock_fd so]"
    using f by (simp add: used_def)
  with f o r assms(2) show ?thesis
    by (simp add: so(2) sel1_ok_def slots_ok_def n echo_env_def)
qed


definition sel_kernel :: kernel where
  "sel_kernel = boot_kernel\<lparr>k_accepts := [AOk ''10.0.0.1'' 9000], k_recvs := (\<lambda>fd. if fd = 4 then [(replicate 1024 NUL, RData ''hi'')] else [])\<rparr>"

lemma sel_kernel_init:
  "init_server1 8888 sel_kernel = Done \<lparr>fs_listensock = \<lparr>sock_fd = 3\<rparr>, fs_tab = replicate fd_size default_fd,
     fs_kern = sel_kernel\<lparr>k_open := [3, 0, 1, 2], k_bound := (\<lambda>_. None)(3 \<mapsto> 8888), k_listening := (\<lambda>_. False)(3 := True)\<rparr>\<rparr>"
proof -
  have "lowest_fd [0, 1, 2] = 3" by code_simp
  moreover have "uint16 8888 = 8888" by (simp add: uint16_mod)
  ultimately show ?thesis
    by (simp add: init_server1_def sel_kernel_def boot_kernel_def open_listener_def sock_Socket_def
        sock_Bind_def sock_Listen_def k_new_fd_def sock_new_def fun_upd_def)
qed

lemma sel_kernel_env: "echo_env sel_kernel"
  by (simp add: echo_env_def sel_kernel_def boot_kernel_def echo_call_def)


end
