(* ===== verification/PollServer.thy ===== *)
theory PollServer
  imports SelectProps
begin

text \<open>
  The poll server, \<open>8.7/pollServer\<close>: the table is the array of \<open>pollfd\<close> entries itself. Each
  round hands the table to \<open>poll\<close>, which writes the \<open>revents\<close> of every entry, and walks over it.
\<close>

unbundle bit_operations_syntax

section \<open>Entries and state\<close>

record pollfd =
  pfd_fd :: int
  pfd_events :: "16 word"
  pfd_revents :: "16 word"

type_synonym poll_server = "pollfd fd_server"

definition poll_N :: nat where "poll_N = 4096"

definition POLLIN :: "16 word" where "POLLIN = 0x1"

definition default_pollfd :: pollfd where
  "default_pollfd = \<lparr>pfd_fd = default_fd, pfd_events = 0, pfd_revents = 0\<rparr>"

definition init_poll_server :: "int \<Rightarrow> kernel \<Rightarrow> poll_server outcome" where
  "init_poll_server port k =
     bind_out (open_listener port k) (\<lambda>(so, k1).
       Done \<lparr>fs_listensock = so, fs_tab = replicate poll_N default_pollfd, fs_kern = k1\<rparr>)"

section \<open>The handlers\<close>

definition fill_pollfd :: "int \<Rightarrow> string \<Rightarrow> int \<Rightarrow> pollfd \<Rightarrow> pollfd" where
  "fill_pollfd fd ip port e = e\<lparr>pfd_fd := fd, pfd_events := POLLIN, pfd_revents := 0\<rparr>"

definition clear_pollfd :: "pollfd \<Rightarrow> pollfd" where
  "clear_pollfd e = e\<lparr>pfd_fd := default_fd, pfd_events := 0, pfd_revents := 0\<rparr>"

definition poll_Accepter :: "poll_server \<Rightarrow> poll_server outcome" where
  "poll_Accepter s =
     bind_out (sock_Accept (fs_listensock s) (fs_kern s)) (\<lambda>(r, k). case r of (client_sock, addr, err) \<Rightarrow>
       if client_sock < 0 then Done (s\<lparr>fs_kern := k\<rparr>)
       else (case free_slot pfd_fd (fs_tab s) of
               None \<Rightarrow> Done (s\<lparr>fs_kern := k_close client_sock k\<rparr>)
             | Some pos \<Rightarrow> Done (s\<lparr>fs_kern := k,
                 fs_tab := (fs_tab s)[pos := fill_pollfd client_sock [] 0 (fs_tab s ! pos)]\<rparr>)))"

text \<open>
  One message of at most 1023 bytes, its last two bytes cut off by two zeros: \<open>True\<close> if the
  connection stays. The epoll server of the same date reads in the same way.
\<close>

definition read_line_and_answer :: "(string \<Rightarrow> string outcome) \<Rightarrow> int \<Rightarrow> kernel \<Rightarrow> (bool \<times> kernel) outcome" where
  "read_line_and_answer func fd k =
     bind_out (k_recv fd k) (\<lambda>(call, k1). case call of (old, r) \<Rightarrow>
       (case r of
          RData data \<Rightarrow>
            (if data = [] then Done (False, k1)
             else bind_out (buf_set (recv_into old data) (int (length data) - 1) NUL) (\<lambda>buffer.
                  bind_out (buf_set buffer (int (length data) - 2) NUL) (\<lambda>buffer.
                  bind_out (c_string buffer) (\<lambda>str.
                  bind_out (func str) (\<lambda>resp.
                  bind_out (k_send fd resp k1) (\<lambda>k2. Done (True, k2)))))))
        | REof \<Rightarrow> Done (False, k1)
        | RErr e \<Rightarrow> Done (False, k1)))"

definition poll_IOService :: "nat \<Rightarrow> poll_server \<Rightarrow> poll_server outcome" where
  "poll_IOService i s =
     (let fd = pfd_fd (fs_tab s ! i)
      in bind_out (read_line_and_answer (\<lambda>str. Done (echo_reply str)) fd (fs_kern s)) (\<lambda>(alive, k).
           if alive then Done (s\<lparr>fs_kern := k\<rparr>)
           else Done (s\<lparr>fs_kern := k_close fd k, fs_tab := (fs_tab s)[i := clear_pollfd (fs_tab s ! i)]\<rparr>)))"

definition poll_handle_slot :: "nat \<Rightarrow> poll_server \<Rightarrow> poll_server outcome" where
  "poll_handle_slot i s =
     (let fd = pfd_fd (fs_tab s ! i); revent = pfd_revents (fs_tab s ! i)
      in if fd = default_fd then Done s
         else if fd = sock_fd (fs_listensock s) \<and> (revent AND POLLIN) \<noteq> 0 then poll_Accepter s
         else if (revent AND POLLIN) \<noteq> 0 then poll_IOService i s
         else Done s)"

definition poll_HandlerEvent :: "poll_server \<Rightarrow> poll_server outcome" where
  "poll_HandlerEvent s = for_each poll_handle_slot [0..<length (fs_tab s)] s"

section \<open>The loop\<close>

text \<open>
  What \<open>poll\<close> answers: nothing ready, an error, or the events of each descriptor. It clears
  the \<open>revents\<close> of the entries whose descriptor is negative.
\<close>

datatype poll_ret = PollTimeout | PollError | PollReady "int \<Rightarrow> 16 word"

definition set_revents :: "(int \<Rightarrow> 16 word) \<Rightarrow> pollfd \<Rightarrow> pollfd" where
  "set_revents f e = e\<lparr>pfd_revents := (if pfd_fd e < 0 then 0 else f (pfd_fd e))\<rparr>"

definition poll_round :: "poll_ret \<Rightarrow> poll_server \<Rightarrow> poll_server outcome" where
  "poll_round ret s =
     (case ret of
        PollTimeout \<Rightarrow> Done (s\<lparr>fs_tab := map (set_revents (\<lambda>_. 0)) (fs_tab s)\<rparr>)
      | PollError \<Rightarrow> Done s
      | PollReady f \<Rightarrow> poll_HandlerEvent (s\<lparr>fs_tab := map (set_revents f) (fs_tab s)\<rparr>))"

definition start_poll_server :: "poll_ret list \<Rightarrow> poll_server \<Rightarrow> poll_server outcome" where
  "start_poll_server rounds s = for_each poll_round rounds
     (s\<lparr>fs_tab := (fs_tab s)[0 :=
        (fs_tab s ! 0)\<lparr>pfd_fd := sock_fd (fs_listensock s), pfd_events := POLLIN\<rparr>]\<rparr>)"

section \<open>Reading a line\<close>

interpretation pollt: slot_table pfd_fd clear_pollfd fill_pollfd
  by unfold_locales (simp_all add: clear_pollfd_def fill_pollfd_def)

lemma read_line_Done:
  assumes "read_line_and_answer func fd k = Done (alive, k')" "echo_env k"
  shows "k_open k' = k_open k \<and> k_epoll k' = k_epoll k \<and> k_watch k' = k_watch k \<and> echo_env k' \<and>
    (\<forall>fd'. set (k_recvs k' fd') \<subseteq> set (k_recvs k fd'))"
proof -
  from assms(1) obtain c k1 where c: "k_recv fd k = Done (c, k1)" by (auto simp: read_line_and_answer_def)
  note k1 = k_recv_Done [OF c] echo_env_recv [OF c assms(2)]
  have r: "set (k_recvs k1 fd') \<subseteq> set (k_recvs k fd')" for fd'
    using c by (auto simp: k_recv_def split: list.splits if_splits)
  from assms(1) c consider "k' = k1" | str where "k_send fd str k1 = Done k'"
    by (cases c; cases "snd c") (auto simp: read_line_and_answer_def split: if_splits)
  then show ?thesis
  proof cases
    case 1
    with k1 r show ?thesis by simp
  next
    case 2
    then have "k_recvs k' = k_recvs k1" by (auto simp: k_send_def split: list.splits send_res.splits)
    with 2 k1 r show ?thesis by (simp add: k_send_Done echo_env_send)
  qed
qed

lemma read_line_Crash:
  assumes "read_line_and_answer func fd k = Crash e" "echo_env k"
  shows "e = OutOfBounds \<and> (\<exists>old c. (old, RData [c]) \<in> set (k_recvs k fd)) \<or> (\<exists>str. func str = Crash e)"
proof -
  from assms(1) obtain x k1 where x: "k_recv fd k = Done (x, k1)"
    by (auto simp: read_line_and_answer_def bind_out_Crash_iff)
  with assms(1) obtain old d where d: "x = (old, RData d)" "d \<noteq> []"
    by (cases x; cases "snd x") (auto simp: read_line_and_answer_def split: if_splits)
  with echo_env_recv [OF x assms(2)] have l: "length old = 1024" "length d \<le> 1023"
    by (simp_all add: echo_call_def)
  have m: "x \<in> set (k_recvs k fd)" using x by (auto simp: k_recv_def split: list.splits)
  show ?thesis
  proof (cases "length d = 1")
    case True
    then obtain c where "d = [c]" by (auto simp: length_Suc_conv)
    with m d have "(old, RData [c]) \<in> set (k_recvs k fd)" by simp
    moreover have "e = OutOfBounds"
      using assms(1) x d l \<open>d = [c]\<close> by (simp add: read_line_and_answer_def buf_set_def)
    ultimately show ?thesis by blast
  next
    case False
    with d have two: "2 \<le> length d" by (cases d; cases "tl d") auto
    define buf where "buf = (recv_into old d)[length d - 1 := NUL]"
    have "buf_set (recv_into old d) (int (length d) - 1) NUL = Done buf"
      using two l by (auto simp: buf_set_def buf_def nat_diff_distrib')
    moreover have "buf_set buf (int (length d) - 2) NUL = Done (buf[length d - 2 := NUL])"
      using two l by (auto simp: buf_set_def buf_def nat_diff_distrib')
    moreover have "NUL \<in> set (buf[length d - 2 := NUL])"
      using two l by (intro set_update_memI) (simp add: buf_def)
    ultimately show ?thesis
      using assms(1) x d by (auto simp: read_line_and_answer_def c_string_def bind_out_Crash_iff)
  qed
qed

lemma read_line_one_byte:
  "k_recvs k fd = (old, RData [c]) # rest \<Longrightarrow> length old = 1024 \<Longrightarrow>
   read_line_and_answer func fd k = Crash OutOfBounds"
  by (simp add: read_line_and_answer_def k_recv_def buf_set_def)

section \<open>The table stays in step\<close>

definition poll_ok :: "int set \<Rightarrow> poll_server \<Rightarrow> bool" where
  "poll_ok base s \<longleftrightarrow> slots_ok pfd_fd base (sock_fd (fs_listensock s)) (fs_tab s) (fs_kern s) \<and>
     echo_env (fs_kern s) \<and> length (fs_tab s) = poll_N"

definition no_new_calls :: "kernel \<Rightarrow> kernel \<Rightarrow> bool" where
  "no_new_calls k k' \<longleftrightarrow> (\<forall>fd. set (k_recvs k' fd) \<subseteq> set (k_recvs k fd))"

lemma no_new_calls_refl [simp]: "no_new_calls k k"
  by (simp add: no_new_calls_def)

lemma no_new_calls_trans: "no_new_calls k1 k2 \<Longrightarrow> no_new_calls k2 k3 \<Longrightarrow> no_new_calls k1 k3"
  unfolding no_new_calls_def by blast

lemma no_new_calls_close [simp]: "no_new_calls k (k_close fd k') = no_new_calls k k'"
  by (simp add: no_new_calls_def k_close_def)

lemma poll_Accepter_ok:
  assumes "poll_Accepter s = Done s'" "poll_ok base s"
  shows "poll_ok base s' \<and> no_new_calls (fs_kern s) (fs_kern s')"
proof -
  let ?lfd = "sock_fd (fs_listensock s)"
  from assms(1) obtain r k where r: "k_accept (fs_kern s) = Done (r, k)"
    by (auto simp: poll_Accepter_def sock_Accept_def)
  note s = assms(2) [unfolded poll_ok_def]
  have env: "echo_env k" "no_new_calls (fs_kern s) k"
    using s r by (auto simp: echo_env_accept no_new_calls_def k_accept_def k_new_fd_def Let_def
        split: list.splits accept_res.splits)
  show ?thesis
  proof (cases r)
    case (Inr e)
    with r have "k_open k = k_open (fs_kern s)" by (auto dest!: k_accept_Inr(1))
    with assms(1) r Inr s env show ?thesis
      by (auto simp: poll_Accepter_def sock_Accept_def poll_ok_def elim: slots_ok_kern)
  next
    case (Inl x)
    obtain c ip port where x: "x = (c, ip, port)" by (cases x)
    with Inl r have c: "c = lowest_fd (k_open (fs_kern s))" "k_open k = c # k_open (fs_kern s)"
      by (auto dest: k_accept_Inl)
    then have f: "c \<notin> set (k_open (fs_kern s))" "0 \<le> c" "c \<noteq> default_fd"
      using lowest_fd_nonneg [of "k_open (fs_kern s)"]
      by (simp_all add: lowest_fd_fresh default_fd_def del: lowest_fd_nonneg)
    show ?thesis
    proof (cases "free_slot pfd_fd (fs_tab s)")
      case None
      have "slots_ok pfd_fd base ?lfd (fs_tab s) (k_close c k)"
        by (rule slots_ok_full [OF conjunct1 [OF s] f(1)]) (simp add: k_close_def c(2))
      with None assms(1) r Inl x s f env show ?thesis
        by (auto simp: poll_Accepter_def sock_Accept_def poll_ok_def)
    next
      case (Some pos)
      have "slots_ok pfd_fd base ?lfd ((fs_tab s)[pos := fill_pollfd c [] 0 (fs_tab s ! pos)]) k"
        by (rule pollt.fill_ok [OF conjunct1 [OF s] Some f(1,3) c(2)])
      with Some assms(1) r Inl x s f env show ?thesis
        by (auto simp: poll_Accepter_def sock_Accept_def poll_ok_def)
    qed
  qed
qed

lemma poll_IOService_ok:
  assumes "poll_IOService i s = Done s'" "poll_ok base s" "0 < i" "i < length (fs_tab s)"
    and "pfd_fd (fs_tab s ! i) \<noteq> default_fd"
  shows "poll_ok base s' \<and> no_new_calls (fs_kern s) (fs_kern s')"
proof -
  let ?fd = "pfd_fd (fs_tab s ! i)"
  let ?lfd = "sock_fd (fs_listensock s)"
  from assms(1) obtain alive k where k: "read_line_and_answer (\<lambda>str. Done (echo_reply str)) ?fd (fs_kern s) = Done (alive, k)"
    by (auto simp: poll_IOService_def Let_def)
  note s = assms(2) [unfolded poll_ok_def]
  have k': "k_open k = k_open (fs_kern s)" "echo_env k" "no_new_calls (fs_kern s) k"
    using read_line_Done [OF k] s by (simp_all add: no_new_calls_def)
  have "slots_ok pfd_fd base ?lfd (fs_tab s) k" using s k' by (auto elim: slots_ok_kern)
  moreover have "slots_ok pfd_fd base ?lfd ((fs_tab s)[i := clear_pollfd (fs_tab s ! i)]) (k_close ?fd k)"
    by (rule pollt.clear_ok [OF conjunct1 [OF s] assms(3,4)]) (simp_all add: assms(5) k_close_def k')
  ultimately show ?thesis using assms(1) k s k'
    by (auto simp: poll_IOService_def Let_def poll_ok_def split: if_splits)
qed

lemma poll_handle_slot_ok:
  assumes "poll_handle_slot i s = Done s'" "poll_ok base s" "i < poll_N"
  shows "poll_ok base s' \<and> no_new_calls (fs_kern s) (fs_kern s')"
proof -
  have l: "i < length (fs_tab s)" using assms(2,3) by (simp add: poll_ok_def)
  have z: "pfd_fd (fs_tab s ! 0) = sock_fd (fs_listensock s)" using assms(2) by (simp add: poll_ok_def slots_ok_def)
  from assms(1) consider "s' = s" | "poll_Accepter s = Done s'"
    | "poll_IOService i s = Done s'" "pfd_fd (fs_tab s ! i) \<noteq> default_fd" "pfd_fd (fs_tab s ! i) \<noteq> pfd_fd (fs_tab s ! 0)"
    unfolding z by (fastforce simp: poll_handle_slot_def Let_def split: if_splits)
  then show ?thesis
  proof cases
    case 2
    then show ?thesis using assms(2) by (rule poll_Accepter_ok)
  next
    case 3
    then have "0 < i" by (cases i) simp_all
    show ?thesis by (rule poll_IOService_ok) fact+
  qed (use assms(2) in simp)
qed

lemma poll_handle_slot_Crash:
  assumes "poll_handle_slot i s = Crash e" "poll_ok base s"
  shows "e = OutOfBounds \<and> (\<exists>fd old c. (old, RData [c]) \<in> set (k_recvs (fs_kern s) fd))"
proof -
  have "poll_Accepter s \<noteq> Crash e"
    by (auto simp: poll_Accepter_def sock_Accept_def bind_out_Crash_iff split: sum.splits option.splits if_splits)
  with assms(1) have "read_line_and_answer (\<lambda>str. Done (echo_reply str)) (pfd_fd (fs_tab s ! i)) (fs_kern s) = Crash e"
    by (auto simp: poll_handle_slot_def Let_def poll_IOService_def bind_out_Crash_iff split: if_splits)
  with assms(2) show ?thesis by (auto simp: poll_ok_def dest!: read_line_Crash)
qed

lemma poll_ok_revents:
  "poll_ok base s \<Longrightarrow> poll_ok base (s\<lparr>fs_tab := map (set_revents f) (fs_tab s)\<rparr>)"
proof -
  assume s: "poll_ok base s"
  have "used pfd_fd (map (set_revents f) (fs_tab s)) = used pfd_fd (fs_tab s)"
    by (simp add: used_def comp_def set_revents_def)
  moreover have "fs_tab s \<noteq> []" using s by (simp add: poll_ok_def slots_ok_def)
  moreover from this have "pfd_fd (map (set_revents f) (fs_tab s) ! 0) = pfd_fd (fs_tab s ! 0)"
    by (simp add: set_revents_def)
  ultimately show ?thesis using s by (simp add: poll_ok_def slots_ok_def del: nth_map)
qed

lemma poll_handle_slot_inv:
  assumes "poll_ok base t \<and> no_new_calls k (fs_kern t)" "poll_handle_slot i t = Done t'" "i \<in> set [0..<poll_N]"
  shows "poll_ok base t' \<and> no_new_calls k (fs_kern t')"
proof -
  have "poll_ok base t' \<and> no_new_calls (fs_kern t) (fs_kern t')"
    using assms by (intro poll_handle_slot_ok) simp_all
  then show ?thesis using no_new_calls_trans [of k "fs_kern t"] assms(1) by simp
qed

lemma poll_round_ok:
  assumes "poll_round ret s = Done s'" "poll_ok base s"
  shows "poll_ok base s' \<and> no_new_calls (fs_kern s) (fs_kern s')"
proof (cases ret)
  case (PollReady f)
  let ?s = "s\<lparr>fs_tab := map (set_revents f) (fs_tab s)\<rparr>"
  have l: "length (fs_tab ?s) = poll_N" using assms(2) by (simp add: poll_ok_def)
  have h: "for_each poll_handle_slot [0..<poll_N] ?s = Done s'"
    using assms(1) PollReady l by (simp add: poll_round_def poll_HandlerEvent_def)
  have "poll_ok base ?s \<and> no_new_calls (fs_kern s) (fs_kern ?s)" using poll_ok_revents [OF assms(2)] by simp
  with h show ?thesis
    by (rule for_each_inv [where P = "\<lambda>t. poll_ok base t \<and> no_new_calls (fs_kern s) (fs_kern t)"])
       (rule poll_handle_slot_inv)
qed (use assms poll_ok_revents [OF assms(2), of "\<lambda>_. 0"] in \<open>auto simp: poll_round_def\<close>)

lemma poll_round_Crash:
  assumes "poll_round ret s = Crash e" "poll_ok base s"
  shows "e = OutOfBounds \<and> (\<exists>fd old c. (old, RData [c]) \<in> set (k_recvs (fs_kern s) fd))"
proof (cases ret)
  case (PollReady f)
  let ?s = "s\<lparr>fs_tab := map (set_revents f) (fs_tab s)\<rparr>"
  have l: "length (fs_tab ?s) = poll_N" using assms(2) by (simp add: poll_ok_def)
  have h: "for_each poll_handle_slot [0..<poll_N] ?s = Crash e"
    using assms(1) PollReady l by (simp add: poll_round_def poll_HandlerEvent_def)
  have "poll_ok base ?s \<and> no_new_calls (fs_kern s) (fs_kern ?s)" using poll_ok_revents [OF assms(2)] by simp
  with h show ?thesis
  proof (rule for_each_Crash [where P = "\<lambda>t. poll_ok base t \<and> no_new_calls (fs_kern s) (fs_kern t)"])
    show ?thesis
      if t: "poll_ok base t \<and> no_new_calls (fs_kern s) (fs_kern t)" "poll_handle_slot i t = Crash e" for i t
    proof -
      have "e = OutOfBounds \<and> (\<exists>fd old c. (old, RData [c]) \<in> set (k_recvs (fs_kern t) fd))"
        using t(2) conjunct1 [OF t(1)] by (rule poll_handle_slot_Crash)
      then show ?thesis using t(1) unfolding no_new_calls_def by blast
    qed
  qed (rule poll_handle_slot_inv)
qed (use assms in \<open>auto simp: poll_round_def\<close>)

lemma init_poll_ok:
  assumes "init_poll_server port k = Done s" "echo_env k"
  shows "poll_ok (set (k_open k)) (s\<lparr>fs_tab := (fs_tab s)[0 :=
     (fs_tab s ! 0)\<lparr>pfd_fd := sock_fd (fs_listensock s), pfd_events := POLLIN\<rparr>]\<rparr>) \<and> k_recvs (fs_kern s) = k_recvs k"
proof -
  from assms(1) obtain so k1 where so: "open_listener port k = Done (so, k1)"
    "s = \<lparr>fs_listensock = so, fs_tab = replicate poll_N default_pollfd, fs_kern = k1\<rparr>"
    by (auto simp: init_poll_server_def)
  note o = open_listener_Done [OF so(1)]
  have r: "k_recvs k1 = k_recvs k" using so(1)
    by (auto simp: open_listener_def sock_Socket_def sock_Bind_def sock_Listen_def k_new_fd_def Let_def split: if_splits)
  have f: "0 \<le> sock_fd so" "sock_fd so \<notin> set (k_open k)" "sock_fd so \<noteq> default_fd"
    using o(1) lowest_fd_nonneg [of "k_open k"]
    by (simp_all add: lowest_fd_fresh default_fd_def del: lowest_fd_nonneg)
  obtain n where n: "poll_N = Suc n" by (auto simp: poll_N_def)
  have "used pfd_fd (e # replicate n default_pollfd) = [sock_fd so]" if "pfd_fd e = sock_fd so" for e
    using f that by (simp add: used_def default_pollfd_def)
  with f o r assms(2) show ?thesis
    by (simp add: so(2) poll_ok_def slots_ok_def n echo_env_def)
qed



end
