(* ===== verification/EpollServer1.thy ===== *)
theory EpollServer1
  imports PollServer
begin

text \<open>
  The first epoll server, \<open>8.7/epollServer.1\<close>: no table of connections, the kernel's epoll set is
  the only record of them. One message per event is read, handed to the function the server was
  built with, and answered.
\<close>

section \<open>The server\<close>

record epoll_server1 =
  es_listensock :: sock
  es_epoll :: Epoll
  es_kern :: kernel

text \<open>\<open>EPOLLIN\<close> of \<open>sys/epoll.h\<close>.\<close>

definition EPOLL_IN :: "32 word" where "EPOLL_IN = 0x1"

definition init_epoll1 :: "int \<Rightarrow> kernel \<Rightarrow> epoll_server1 outcome" where
  "init_epoll1 port k =
     bind_out (open_listener port k) (\<lambda>(so, k1).
     bind_out (Epoll_Create k1) (\<lambda>(ep, k2).
       Done \<lparr>es_listensock = so, es_epoll = ep, es_kern = k2\<rparr>))"

text \<open>\<open>AddEvent\<close> with the exit of its callers.\<close>

definition add_or_exit :: "int \<Rightarrow> kernel \<Rightarrow> kernel outcome" where
  "add_or_exit fd k =
     (case Epoll_AddEvent fd EPOLL_IN k of (ret, k') \<Rightarrow>
        if ret then Done k' else Crash (ExitWith EPOLL_CTL_ADD_ERR))"

definition epoll1_Accepter :: "epoll_server1 \<Rightarrow> epoll_server1 outcome" where
  "epoll1_Accepter s =
     bind_out (sock_Accept (es_listensock s) (es_kern s)) (\<lambda>(r, k). case r of (client_sock, addr, err) \<Rightarrow>
       if client_sock < 0 then Done (s\<lparr>es_kern := k\<rparr>)
       else bind_out (add_or_exit client_sock k) (\<lambda>k. Done (s\<lparr>es_kern := k\<rparr>)))"

definition epoll1_IOService :: "(string \<Rightarrow> string outcome) \<Rightarrow> int \<Rightarrow> epoll_server1 \<Rightarrow> epoll_server1 outcome" where
  "epoll1_IOService func fd s =
     bind_out (read_line_and_answer func fd (es_kern s)) (\<lambda>(alive, k).
       if alive then Done (s\<lparr>es_kern := k\<rparr>)
       else (case Epoll_DelEvent fd k of (ret, k) \<Rightarrow> Done (s\<lparr>es_kern := k_close fd k\<rparr>)))"

definition epoll1_handle ::
  "(string \<Rightarrow> string outcome) \<Rightarrow> int \<times> 32 word \<Rightarrow> epoll_server1 \<Rightarrow> epoll_server1 outcome" where
  "epoll1_handle func = (\<lambda>(fd, event) s.
     if event AND EPOLL_IN \<noteq> 0 then
       (if fd = sock_fd (es_listensock s) then epoll1_Accepter s else epoll1_IOService func fd s)
     else Done s)"

definition epoll1_HandlerEvents ::
  "(string \<Rightarrow> string outcome) \<Rightarrow> (int \<times> 32 word) list \<Rightarrow> epoll_server1 \<Rightarrow> epoll_server1 outcome" where
  "epoll1_HandlerEvents func es s = for_each (epoll1_handle func) es s"

text \<open>
  \<open>epoll_wait\<close> answers with at most \<open>gnum\<close> events on distinct watched descriptors; an empty
  answer stands for a timeout or an error, after which the loop goes on.
\<close>

definition gnum :: nat where "gnum = 64"

definition epoll1_Wait :: "(int \<times> 32 word) list \<Rightarrow> kernel \<Rightarrow> (int \<times> 32 word) list outcome" where
  "epoll1_Wait es k =
     (if distinct (map fst es) \<and> length es \<le> gnum \<and> list_all (\<lambda>e. k_epoll k (fst e) \<noteq> None) es
      then Done es else Blocked)"

definition start_epoll1 ::
  "(string \<Rightarrow> string outcome) \<Rightarrow> (int \<times> 32 word) list list \<Rightarrow> epoll_server1 \<Rightarrow> epoll_server1 outcome" where
  "start_epoll1 func rounds s =
     bind_out (add_or_exit (sock_fd (es_listensock s)) (es_kern s)) (\<lambda>k.
       for_each (\<lambda>es s. bind_out (epoll1_Wait es (es_kern s)) (\<lambda>es. epoll1_HandlerEvents func es s))
         rounds (s\<lparr>es_kern := k\<rparr>))"

text \<open>The function the program passes: \<open>handler\<close> of \<open>main.cc\<close>.\<close>

definition echo_handler :: "string \<Rightarrow> string outcome" where
  "echo_handler request = Done (''[echo]:'' @ request @ [CHR 0x0D, CHR 0x0A])"

section \<open>Open and watched descriptors stay in step\<close>

definition epoll1_ok :: "int set \<Rightarrow> kernel \<Rightarrow> epoll_server1 \<Rightarrow> bool" where
  "epoll1_ok base k0 s \<longleftrightarrow>
     (let k = es_kern s; E = epfd (es_epoll s); L = sock_fd (es_listensock s)
      in set (k_open k) = base \<union> {E} \<union> dom (k_epoll k) \<and> L \<in> dom (k_epoll k) \<and>
         dom (k_epoll k) \<inter> insert E base = {} \<and> echo_env k \<and> no_new_calls k0 k \<and> k_watch k = k_watch k0)"

lemma echo_env_ctl [simp]:
  "echo_env (snd (k_ctl_add fd ev k)) = echo_env k" "echo_env (snd (k_ctl_del fd k)) = echo_env k"
  by (simp_all add: k_ctl_add_def k_ctl_del_def echo_env_def)

lemma k_accept_recvs: "k_accept k = Done (r, k') \<Longrightarrow> k_recvs k' = k_recvs k"
  by (auto simp: k_accept_def k_new_fd_def Let_def split: list.splits accept_res.splits)

lemma add_or_exit_fresh:
  assumes "fd \<in> set (k_open k)" "k_epoll k fd = None"
  shows "add_or_exit fd k = (if k_watch k fd then Done (k\<lparr>k_epoll := (k_epoll k)(fd \<mapsto> EPOLL_IN)\<rparr>)
    else Crash (ExitWith EPOLL_CTL_ADD_ERR))"
  using assms by (simp add: add_or_exit_def Epoll_AddEvent_def k_ctl_add_def)

lemma epoll1_Accepter_ok:
  assumes "epoll1_ok base k0 s"
  shows "(\<forall>s'. epoll1_Accepter s = Done s' \<longrightarrow> epoll1_ok base k0 s' \<and>
      dom (k_epoll (es_kern s)) \<subseteq> dom (k_epoll (es_kern s')) \<and> es_listensock s' = es_listensock s) \<and>
    (\<forall>e. epoll1_Accepter s = Crash e \<longrightarrow> e = ExitWith EPOLL_CTL_ADD_ERR \<and> (\<exists>fd. \<not> k_watch k0 fd))"
proof (cases "k_accept (es_kern s)")
  case (Done x)
  then obtain r k where r: "k_accept (es_kern s) = Done (r, k)" by (cases x) auto
  note s = assms [unfolded epoll1_ok_def Let_def]
  have env: "echo_env k" "no_new_calls k0 k"
    using s k_accept_recvs [OF r] echo_env_accept [OF r] by (simp_all add: no_new_calls_def)
  show ?thesis
  proof (cases r)
    case (Inr e)
    note k_accept_Inr [OF r [unfolded Inr]]
    with r Inr s env show ?thesis
      by (auto simp: epoll1_Accepter_def sock_Accept_def epoll1_ok_def Let_def)
  next
    case (Inl x)
    obtain c ip port where x: "x = (c, ip, port)" by (cases x)
    note c = k_accept_Inl [OF r [unfolded Inl x]]
    have f: "c \<notin> set (k_open (es_kern s))" "0 \<le> c" using c(1) by (simp_all add: lowest_fd_fresh)
    then have n: "k_epoll k c = None" "c \<in> set (k_open k)" using s c(2,3) by auto
    have "echo_env (k\<lparr>k_epoll := (k_epoll k)(c \<mapsto> EPOLL_IN)\<rparr>)" using env by (simp add: echo_env_def)
    moreover have "no_new_calls k0 (k\<lparr>k_epoll := (k_epoll k)(c \<mapsto> EPOLL_IN)\<rparr>)" using env by (simp add: no_new_calls_def)
    moreover have a: "epoll1_Accepter s = (if k_watch k c
        then Done (s\<lparr>es_kern := k\<lparr>k_epoll := (k_epoll k)(c \<mapsto> EPOLL_IN)\<rparr>\<rparr>) else Crash (ExitWith EPOLL_CTL_ADD_ERR))"
      using r Inl x f(2) add_or_exit_fresh [OF n(2,1)] by (simp add: epoll1_Accepter_def sock_Accept_def)
    moreover have "c \<notin> insert (epfd (es_epoll s)) base" using f(1) s by blast
    ultimately show ?thesis using s c(2-4) unfolding a
      by (auto simp: epoll1_ok_def Let_def)
  qed
qed (simp_all add: epoll1_Accepter_def sock_Accept_def)

lemma epoll1_IOService_ok:
  assumes "epoll1_ok base k0 s" "epoll1_IOService func fd s = Done s'" "k_epoll (es_kern s) fd \<noteq> None"
    and "fd \<noteq> sock_fd (es_listensock s)"
  shows "epoll1_ok base k0 s' \<and> dom (k_epoll (es_kern s)) - {fd} \<subseteq> dom (k_epoll (es_kern s')) \<and>
    es_listensock s' = es_listensock s"
proof -
  from assms(2) obtain alive k where k: "read_line_and_answer func fd (es_kern s) = Done (alive, k)"
    by (auto simp: epoll1_IOService_def)
  note s = assms(1) [unfolded epoll1_ok_def Let_def]
  have k': "k_open k = k_open (es_kern s)" "k_epoll k = k_epoll (es_kern s)" "k_watch k = k_watch k0"
    "echo_env k" "no_new_calls k0 k"
    using read_line_Done [OF k] s no_new_calls_trans [of k0 "es_kern s" k] by (simp_all add: no_new_calls_def)
  have d: "Epoll_DelEvent fd k = (True, k\<lparr>k_epoll := (k_epoll k)(fd := None)\<rparr>)"
    using assms(3) k' by (simp add: Epoll_DelEvent_def k_ctl_del_def)
  have e: "echo_env (k\<lparr>k_epoll := (k_epoll k)(fd := None)\<rparr>)" "no_new_calls k0 (k\<lparr>k_epoll := (k_epoll k)(fd := None)\<rparr>)"
    using k' by (simp_all add: echo_env_def no_new_calls_def)
  show ?thesis
  proof (cases alive)
    case True
    with assms(2) k have "s' = s\<lparr>es_kern := k\<rparr>" by (simp add: epoll1_IOService_def)
    with s k' show ?thesis by (auto simp: epoll1_ok_def)
  next
    case False
    define k2 where "k2 = k_close fd (k\<lparr>k_epoll := (k_epoll k)(fd := None)\<rparr>)"
    have s': "s' = s\<lparr>es_kern := k2\<rparr>" using assms(2) k False d by (simp add: epoll1_IOService_def k2_def)
    have k2: "set (k_open k2) = set (k_open (es_kern s)) - {fd}"
      "k_epoll k2 = (k_epoll (es_kern s))(fd := None)" "echo_env k2" "no_new_calls k0 k2" "k_watch k2 = k_watch k0"
      using e k' by (auto simp: k2_def k_close_def echo_env_def no_new_calls_def)
    have "fd \<notin> insert (epfd (es_epoll s)) base" using s assms(3) by blast
    with s k2 assms(4) show ?thesis unfolding s' by (auto simp: epoll1_ok_def Let_def)
  qed
qed

lemma epoll1_HandlerEvents_ok:
  assumes "epoll1_ok base k0 s" "distinct (map fst es)" "fst ` set es \<subseteq> dom (k_epoll (es_kern s))"
    and "\<And>str e. func str \<noteq> Crash e"
  shows "(\<forall>s'. epoll1_HandlerEvents func es s = Done s' \<longrightarrow> epoll1_ok base k0 s') \<and>
    (\<forall>e. epoll1_HandlerEvents func es s = Crash e \<longrightarrow>
      e = ExitWith EPOLL_CTL_ADD_ERR \<and> (\<exists>fd. \<not> k_watch k0 fd) \<or>
      e = OutOfBounds \<and> (\<exists>fd old c. (old, RData [c]) \<in> set (k_recvs k0 fd)))"
  using assms(1-3) unfolding epoll1_HandlerEvents_def
proof (induction es arbitrary: s)
  case Nil
  then show ?case by simp
next
  case (Cons x es)
  obtain fd ev where x: "x = (fd, ev)" by (cases x)
  have w: "k_epoll (es_kern s) fd \<noteq> None" using Cons.prems(3) x by auto
  have rest: "fst ` set es \<subseteq> dom (k_epoll (es_kern s)) - {fd}" using Cons.prems(2,3) x by auto
  have one: "epoll1_ok base k0 s1 \<and> dom (k_epoll (es_kern s)) - {fd} \<subseteq> dom (k_epoll (es_kern s1))"
    if s1: "epoll1_handle func x s = Done s1" for s1
  proof (cases "ev AND EPOLL_IN \<noteq> 0 \<and> fd \<noteq> sock_fd (es_listensock s)")
    case True
    with s1 x have "epoll1_IOService func fd s = Done s1" by (simp add: epoll1_handle_def)
    from epoll1_IOService_ok [OF Cons.prems(1) this w] True show ?thesis by blast
  next
    case False
    with s1 x have "s1 = s \<or> epoll1_Accepter s = Done s1" by (auto simp: epoll1_handle_def split: if_splits)
    with epoll1_Accepter_ok [OF Cons.prems(1)] Cons.prems(1) show ?thesis by blast
  qed
  have two: "e = ExitWith EPOLL_CTL_ADD_ERR \<and> (\<exists>fd. \<not> k_watch k0 fd) \<or>
      e = OutOfBounds \<and> (\<exists>fd old c. (old, RData [c]) \<in> set (k_recvs k0 fd))"
    if c: "epoll1_handle func x s = Crash e" for e
  proof (cases "epoll1_Accepter s = Crash e")
    case True
    with epoll1_Accepter_ok [OF Cons.prems(1)] show ?thesis by blast
  next
    case False
    with c x have "read_line_and_answer func fd (es_kern s) = Crash e"
      by (auto simp: epoll1_handle_def epoll1_IOService_def bind_out_Crash_iff split: if_splits prod.splits)
    moreover have "echo_env (es_kern s)" "no_new_calls k0 (es_kern s)"
      using Cons.prems(1) by (simp_all add: epoll1_ok_def Let_def)
    ultimately show ?thesis using assms(4) unfolding no_new_calls_def by (blast dest: read_line_Crash)
  qed
  show ?case
  proof (cases "epoll1_handle func x s")
    case (Done s1)
    have "fst ` set es \<subseteq> dom (k_epoll (es_kern s1))" using one [OF Done] rest by blast
    with Cons.IH [of s1] one [OF Done] Cons.prems(2) Done show ?thesis by simp
  qed (use two in auto)
qed

lemma init_epoll1_ok:
  assumes "init_epoll1 port k = Done s" "echo_env k" "k_epoll k = (\<lambda>_. None)"
    and "add_or_exit (sock_fd (es_listensock s)) (es_kern s) = Done k'"
  shows "epoll1_ok (set (k_open k)) k (s\<lparr>es_kern := k'\<rparr>)"
proof -
  from assms(1) obtain so k1 ep k2 where so: "open_listener port k = Done (so, k1)"
    "Epoll_Create k1 = Done (ep, k2)" "s = \<lparr>es_listensock = so, es_epoll = ep, es_kern = k2\<rparr>"
    by (auto simp: init_epoll1_def)
  note o = open_listener_Done [OF so(1)]
  have r: "k_recvs k1 = k_recvs k" using so(1)
    by (auto simp: open_listener_def sock_Socket_def sock_Bind_def sock_Listen_def k_new_fd_def Let_def split: if_splits)
  have e: "epfd ep = lowest_fd (k_open k1)" "k_open k2 = epfd ep # k_open k1" "k_epoll k2 = k_epoll k1"
    "k_recvs k2 = k_recvs k1" "k_watch k2 = k_watch k1"
    using so(2) by (auto simp: Epoll_Create_def k_new_fd_def Let_def split: if_splits)
  have f: "0 \<le> sock_fd so" "sock_fd so \<notin> set (k_open k)" "0 \<le> epfd ep" "epfd ep \<notin> set (k_open k1)"
    using o(1) e(1) by (simp_all add: lowest_fd_fresh)
  have i: "sock_fd so \<in> set (k_open k2)" "k_epoll k2 (sock_fd so) = None" using o e assms(3) by simp_all
  have "k' = k2\<lparr>k_epoll := (k_epoll k2)(sock_fd so \<mapsto> EPOLL_IN)\<rparr>"
    using assms(4) add_or_exit_fresh [OF i] by (simp add: so(3) split: if_splits)
  with o r e f assms(2,3) show ?thesis
    by (auto simp: epoll1_ok_def so(3) echo_env_def no_new_calls_def)
qed

lemma init_epoll1_watch:
  assumes "init_epoll1 port k = Done s" "k_epoll k = (\<lambda>_. None)"
  shows "add_or_exit (sock_fd (es_listensock s)) (es_kern s) \<noteq> Blocked"
    and "add_or_exit (sock_fd (es_listensock s)) (es_kern s) = Crash e \<Longrightarrow>
      e = ExitWith EPOLL_CTL_ADD_ERR \<and> (\<exists>fd. \<not> k_watch k fd)"
proof -
  from assms(1) obtain so k1 ep k2 where so: "open_listener port k = Done (so, k1)"
    "Epoll_Create k1 = Done (ep, k2)" "s = \<lparr>es_listensock = so, es_epoll = ep, es_kern = k2\<rparr>"
    by (auto simp: init_epoll1_def)
  note o = open_listener_Done [OF so(1)]
  have e: "k_open k2 = epfd ep # k_open k1" "k_epoll k2 = k_epoll k1" "k_watch k2 = k_watch k1"
    using so(2) by (auto simp: Epoll_Create_def k_new_fd_def Let_def split: if_splits)
  then have i: "sock_fd so \<in> set (k_open k2)" "k_epoll k2 (sock_fd so) = None" using o assms(2) by simp_all
  show "add_or_exit (sock_fd (es_listensock s)) (es_kern s) \<noteq> Blocked"
    using add_or_exit_fresh [OF i] by (simp add: so(3))
  show "add_or_exit (sock_fd (es_listensock s)) (es_kern s) = Crash e \<Longrightarrow>
      e = ExitWith EPOLL_CTL_ADD_ERR \<and> (\<exists>fd. \<not> k_watch k fd)"
    using add_or_exit_fresh [OF i] o(7) e(3) by (auto simp: so(3) split: if_splits)
qed



end
