(* ===== verification/Channel.thy ===== *)
theory Channel
  imports Prelude "HOL-Library.Sublist" "HOL-Library.Multiset"
begin

text \<open>
  The contract of a bounded queue between threads. \<open>pushed\<close> and \<open>popped\<close> are the histories of
  what was put in and taken out; \<open>step\<close> is one atomic action of one thread. A provider gives an
  invariant; every client may then use that the queue is first in, first out, that nothing is
  lost, invented or delivered twice, and that it never holds more than its capacity.
\<close>

locale channel =
  fixes step :: "'s \<Rightarrow> 's \<Rightarrow> bool"
    and start :: "'s \<Rightarrow> bool"
    and inv :: "'s \<Rightarrow> bool"
    and pushed :: "'s \<Rightarrow> 'a list"
    and popped :: "'s \<Rightarrow> 'a list"
    and stored :: "'s \<Rightarrow> 'a list"
  assumes start_inv: "start s \<Longrightarrow> inv s"
    and step_inv: "inv s \<Longrightarrow> step s s' \<Longrightarrow> inv s'"
    and inv_split: "inv s \<Longrightarrow> pushed s = popped s @ stored s"
    and step_pushed: "step s s' \<Longrightarrow> prefix (pushed s) (pushed s')"
    and step_popped: "step s s' \<Longrightarrow> prefix (popped s) (popped s')"
begin

lemma reach_inv: "step\<^sup>*\<^sup>* s s' \<Longrightarrow> inv s \<Longrightarrow> inv s'"
  by (induction rule: rtranclp_induct) (auto intro: step_inv)

lemma start_reach_inv: "start s \<Longrightarrow> step\<^sup>*\<^sup>* s s' \<Longrightarrow> inv s'"
  using reach_inv start_inv by blast

lemma reach_prefix:
  "step\<^sup>*\<^sup>* s s' \<Longrightarrow> prefix (pushed s) (pushed s') \<and> prefix (popped s) (popped s')"
  by (induction rule: rtranclp_induct)
    (auto dest: step_pushed step_popped intro: prefix_order.trans)

lemma fifo: "start s \<Longrightarrow> step\<^sup>*\<^sup>* s s' \<Longrightarrow> prefix (popped s') (pushed s')"
  using inv_split [OF start_reach_inv] by (simp add: prefix_def)

lemma conserved:
  "start s \<Longrightarrow> step\<^sup>*\<^sup>* s s' \<Longrightarrow> mset (pushed s') = mset (popped s') + mset (stored s')"
  using inv_split [OF start_reach_inv] by simp

text \<open>What is taken out later is decided by the order of the pushes.\<close>

lemma delivery:
  assumes "start s" "step\<^sup>*\<^sup>* s s1" "step\<^sup>*\<^sup>* s1 s2" "i < length (popped s2)" "i < length (pushed s1)"
  shows "popped s2 ! i = pushed s1 ! i"
proof -
  have "prefix (popped s2) (pushed s2)"
    using assms(1-3) by (intro fifo [of s]) auto
  moreover have "prefix (pushed s1) (pushed s2)" using reach_prefix [OF assms(3)] by simp
  ultimately obtain zs zsa where "pushed s2 = popped s2 @ zs" "pushed s2 = pushed s1 @ zsa"
    by (auto simp: prefix_def)
  then have "popped s2 ! i = pushed s2 ! i" "pushed s1 ! i = pushed s2 ! i"
    using assms(4,5) by (simp_all add: nth_append) (metis nth_append)
  then show ?thesis by simp
qed

end

text \<open>
  Clients that put only certain values into a channel: \<open>dstep\<close> is what they do, \<open>hands\<close> are the values
  on their way into it. Everything taken out is then such a value.
\<close>

locale fed_channel = channel +
  fixes dstep :: "'a \<Rightarrow> 'a \<Rightarrow> bool"
    and hands :: "'a \<Rightarrow> 'b set"
    and ok :: "'b \<Rightarrow> bool"
  assumes dstep_step: "dstep s s' \<Longrightarrow> step s s'"
    and dstep_hands: "dstep s s' \<Longrightarrow> v \<in> hands s' \<union> set (pushed s') \<Longrightarrow> v \<in> hands s \<union> set (pushed s) \<or> ok v"
    and start_hands: "start s \<Longrightarrow> hands s = {} \<and> pushed s = []"
begin

lemma dsteps: "dstep\<^sup>*\<^sup>* s s' \<Longrightarrow> step\<^sup>*\<^sup>* s s'"
  by (induction rule: rtranclp_induct) (auto intro: rtranclp.rtrancl_into_rtrancl dstep_step)

lemma fed: "start s \<Longrightarrow> dstep\<^sup>*\<^sup>* s s' \<Longrightarrow> v \<in> hands s' \<union> set (pushed s') \<Longrightarrow> ok v"
proof (rotate_tac, induction arbitrary: v rule: rtranclp_induct)
  case base
  then show ?case using start_hands by auto
next
  case (step s1 s2)
  then show ?case using dstep_hands by blast
qed

lemma taken_ok:
  assumes "start s" "dstep\<^sup>*\<^sup>* s s'" "v \<in> set (popped s')"
  shows "ok v"
proof -
  have "set (popped s') \<subseteq> set (pushed s')" using fifo [OF assms(1) dsteps [OF assms(2)]] by (auto simp: prefix_def)
  then show ?thesis using fed [OF assms(1,2)] assms(3) by blast
qed

end

text \<open>A queue with a fixed capacity.\<close>

locale bounded_channel = channel +
  fixes cap :: "'s \<Rightarrow> nat"
  assumes inv_bound: "inv s \<Longrightarrow> length (stored s) \<le> cap s"
    and step_cap: "step s s' \<Longrightarrow> cap s' = cap s"
begin

lemma reach_cap: "step\<^sup>*\<^sup>* s s' \<Longrightarrow> cap s' = cap s"
  by (induction rule: rtranclp_induct) (auto dest: step_cap)

lemma bounded: "start s \<Longrightarrow> step\<^sup>*\<^sup>* s s' \<Longrightarrow> length (pushed s') \<le> length (popped s') + cap s"
  using inv_split [OF start_reach_inv] inv_bound [OF start_reach_inv] reach_cap by (metis length_append nat_add_left_cancel_le)

end

end
