(* ===== verification/RingQueue.thy ===== *)
theory RingQueue
  imports Channel
begin

text \<open>
  The ring buffer of \<open>7.9/sem/RingQueue.hpp\<close> (and \<open>7.17/v2_udp_socket_\<close>): two counting
  semaphores, one mutex per side, and a vector used circularly. Any number of threads call
  \<open>push\<close> and \<open>pop\<close>; each statement is one step of the calling thread. The two histories
  \<open>rq_pushed\<close> and \<open>rq_popped\<close> record the values written and read; the code never looks at them.
\<close>

section \<open>State and steps\<close>

datatype 'a rq_pc =
    Rq_Idle
  | Push_P 'a | Push_Lock 'a | Push_Write 'a | Push_Mod | Push_Unlock | Push_V
  | Pop_P | Pop_Lock | Pop_Read | Pop_Mod 'a | Pop_Unlock 'a | Pop_V 'a

record 'a ring =
  rq_buf :: "'a list"
  rq_capacity :: nat
  rq_data_sem :: nat
  rq_space_sem :: nat
  rq_c_pos :: nat
  rq_p_pos :: nat
  rq_c_mtx :: "nat option"
  rq_p_mtx :: "nat option"
  rq_pc :: "nat \<Rightarrow> 'a rq_pc"
  rq_pushed :: "'a list"
  rq_popped :: "'a list"

text \<open>\<open>d\<close> is the value the vector's elements are constructed with.\<close>

definition RingQueue_new :: "'a \<Rightarrow> nat \<Rightarrow> 'a ring" where
  "RingQueue_new d num =
     \<lparr>rq_buf = replicate num d, rq_capacity = num, rq_data_sem = 0, rq_space_sem = num,
      rq_c_pos = 0, rq_p_pos = 0, rq_c_mtx = None, rq_p_mtx = None, rq_pc = (\<lambda>_. Rq_Idle),
      rq_pushed = [], rq_popped = []\<rparr>"

definition rq_goto :: "nat \<Rightarrow> 'a rq_pc \<Rightarrow> 'a ring \<Rightarrow> 'a ring" where
  "rq_goto t p s = s\<lparr>rq_pc := (rq_pc s)(t := p)\<rparr>"

definition rq_P_space :: "'a ring \<Rightarrow> 'a ring outcome" where
  "rq_P_space s = (if rq_space_sem s = 0 then Blocked
     else Done (s\<lparr>rq_space_sem := rq_space_sem s - 1\<rparr>))"

definition rq_P_data :: "'a ring \<Rightarrow> 'a ring outcome" where
  "rq_P_data s = (if rq_data_sem s = 0 then Blocked
     else Done (s\<lparr>rq_data_sem := rq_data_sem s - 1\<rparr>))"

fun push_step :: "nat \<Rightarrow> 'a rq_pc \<Rightarrow> 'a ring \<Rightarrow> 'a ring outcome" where
  "push_step t (Push_P v) s = bind_out (rq_P_space s) (\<lambda>s. Done (rq_goto t (Push_Lock v) s))"
| "push_step t (Push_Lock v) s =
     (if rq_p_mtx s = None then Done (rq_goto t (Push_Write v) (s\<lparr>rq_p_mtx := Some t\<rparr>)) else Blocked)"
| "push_step t (Push_Write v) s =
     (if rq_p_pos s < length (rq_buf s)
      then Done (rq_goto t Push_Mod (s\<lparr>rq_buf := (rq_buf s)[rq_p_pos s := v],
             rq_p_pos := rq_p_pos s + 1, rq_pushed := rq_pushed s @ [v]\<rparr>))
      else Crash OutOfBounds)"
| "push_step t Push_Mod s =
     (if rq_capacity s = 0 then Crash DivideByZero
      else Done (rq_goto t Push_Unlock (s\<lparr>rq_p_pos := rq_p_pos s mod rq_capacity s\<rparr>)))"
| "push_step t Push_Unlock s = Done (rq_goto t Push_V (s\<lparr>rq_p_mtx := None\<rparr>))"
| "push_step t Push_V s = Done (rq_goto t Rq_Idle (s\<lparr>rq_data_sem := rq_data_sem s + 1\<rparr>))"
| "push_step t _ s = Blocked"

fun pop_step :: "nat \<Rightarrow> 'a rq_pc \<Rightarrow> 'a ring \<Rightarrow> 'a ring outcome" where
  "pop_step t Pop_P s = bind_out (rq_P_data s) (\<lambda>s. Done (rq_goto t Pop_Lock s))"
| "pop_step t Pop_Lock s =
     (if rq_c_mtx s = None then Done (rq_goto t Pop_Read (s\<lparr>rq_c_mtx := Some t\<rparr>)) else Blocked)"
| "pop_step t Pop_Read s =
     (if rq_c_pos s < length (rq_buf s)
      then (let v = rq_buf s ! rq_c_pos s
            in Done (rq_goto t (Pop_Mod v) (s\<lparr>rq_c_pos := rq_c_pos s + 1,
                 rq_popped := rq_popped s @ [v]\<rparr>)))
      else Crash OutOfBounds)"
| "pop_step t (Pop_Mod v) s =
     (if rq_capacity s = 0 then Crash DivideByZero
      else Done (rq_goto t (Pop_Unlock v) (s\<lparr>rq_c_pos := rq_c_pos s mod rq_capacity s\<rparr>)))"
| "pop_step t (Pop_Unlock v) s = Done (rq_goto t (Pop_V v) (s\<lparr>rq_c_mtx := None\<rparr>))"
| "pop_step t (Pop_V v) s = Done (rq_goto t Rq_Idle (s\<lparr>rq_space_sem := rq_space_sem s + 1\<rparr>))"
| "pop_step t _ s = Blocked"

text \<open>An idle thread may call \<open>push\<close> or \<open>pop\<close>; any other takes its next statement.\<close>

inductive ring_step :: "'a ring \<Rightarrow> 'a ring \<Rightarrow> bool" where
  call_push: "rq_pc s t = Rq_Idle \<Longrightarrow> ring_step s (rq_goto t (Push_P v) s)"
| call_pop: "rq_pc s t = Rq_Idle \<Longrightarrow> ring_step s (rq_goto t Pop_P s)"
| run_push: "push_step t (rq_pc s t) s = Done s' \<Longrightarrow> ring_step s s'"
| run_pop: "pop_step t (rq_pc s t) s = Done s' \<Longrightarrow> ring_step s s'"

inductive_cases ring_stepE: "ring_step s s'"

section \<open>Invariant\<close>

text \<open>Where a thread stands: before its write (read) with a unit of its semaphore in hand, and
  after it with the other semaphore still to be raised.\<close>

fun will_write :: "'a rq_pc \<Rightarrow> bool" where
  "will_write (Push_Lock v) = True" | "will_write (Push_Write v) = True" | "will_write _ = False"

fun has_written :: "'a rq_pc \<Rightarrow> bool" where
  "has_written Push_Mod = True" | "has_written Push_Unlock = True" | "has_written Push_V = True"
| "has_written _ = False"

fun will_read :: "'a rq_pc \<Rightarrow> bool" where
  "will_read Pop_Lock = True" | "will_read Pop_Read = True" | "will_read _ = False"

fun has_read :: "'a rq_pc \<Rightarrow> bool" where
  "has_read (Pop_Mod v) = True" | "has_read (Pop_Unlock v) = True" | "has_read (Pop_V v) = True"
| "has_read _ = False"

fun p_holds :: "'a rq_pc \<Rightarrow> bool" where
  "p_holds (Push_Write v) = True" | "p_holds Push_Mod = True" | "p_holds Push_Unlock = True"
| "p_holds _ = False"

fun c_holds :: "'a rq_pc \<Rightarrow> bool" where
  "c_holds Pop_Read = True" | "c_holds (Pop_Mod v) = True" | "c_holds (Pop_Unlock v) = True"
| "c_holds _ = False"

definition busy :: "'a rq_pc \<Rightarrow> bool" where
  "busy p \<longleftrightarrow> p \<noteq> Rq_Idle"

definition is_Pop_Mod :: "'a rq_pc \<Rightarrow> bool" where
  "is_Pop_Mod p \<longleftrightarrow> (\<exists>v. p = Pop_Mod v)"

definition ring_locks :: "'a ring \<Rightarrow> bool" where
  "ring_locks s \<longleftrightarrow> finite {t. busy (rq_pc s t)} \<and>
     (\<forall>t. p_holds (rq_pc s t) \<longleftrightarrow> rq_p_mtx s = Some t) \<and>
     (\<forall>t. c_holds (rq_pc s t) \<longleftrightarrow> rq_c_mtx s = Some t)"

definition ring_counts :: "'a ring \<Rightarrow> bool" where
  "ring_counts s \<longleftrightarrow>
     rq_space_sem s + at_pc (rq_pc s) will_write + length (rq_pushed s) + at_pc (rq_pc s) has_read
       = rq_capacity s + length (rq_popped s) \<and>
     rq_data_sem s + at_pc (rq_pc s) will_read + length (rq_popped s) + at_pc (rq_pc s) has_written
       = length (rq_pushed s)"

definition ring_data :: "'a ring \<Rightarrow> bool" where
  "ring_data s \<longleftrightarrow>
     (let n = rq_capacity s; W = length (rq_pushed s); R = length (rq_popped s)
      in 0 < n \<and> length (rq_buf s) = n \<and>
         rq_p_pos s mod n = W mod n \<and> ((\<forall>t. rq_pc s t \<noteq> Push_Mod) \<longrightarrow> rq_p_pos s < n) \<and>
         rq_c_pos s mod n = R mod n \<and> ((\<forall>t. \<not> is_Pop_Mod (rq_pc s t)) \<longrightarrow> rq_c_pos s < n) \<and>
         rq_popped s = take R (rq_pushed s) \<and>
         (\<forall>i. R \<le> i \<and> i < W \<longrightarrow> rq_buf s ! (i mod n) = rq_pushed s ! i))"

definition ring_inv :: "'a ring \<Rightarrow> bool" where
  "ring_inv s \<longleftrightarrow> ring_locks s \<and> ring_counts s \<and> ring_data s"

lemma busy_simps [simp]: "\<not> busy Rq_Idle" "p \<noteq> Rq_Idle \<Longrightarrow> busy p"
  by (simp_all add: busy_def)

lemma role_busy: "will_write p \<Longrightarrow> busy p" "has_written p \<Longrightarrow> busy p" "will_read p \<Longrightarrow> busy p"
  "has_read p \<Longrightarrow> busy p" "p_holds p \<Longrightarrow> busy p" "c_holds p \<Longrightarrow> busy p"
  by (cases p; simp add: busy_def)+

lemma goto_pc [simp]: "rq_pc (rq_goto t p s) = (rq_pc s)(t := p)"
  by (simp add: rq_goto_def)

lemma goto_sel [simp]:
  "rq_buf (rq_goto t p s) = rq_buf s" "rq_capacity (rq_goto t p s) = rq_capacity s"
  "rq_data_sem (rq_goto t p s) = rq_data_sem s" "rq_space_sem (rq_goto t p s) = rq_space_sem s"
  "rq_c_pos (rq_goto t p s) = rq_c_pos s" "rq_p_pos (rq_goto t p s) = rq_p_pos s"
  "rq_c_mtx (rq_goto t p s) = rq_c_mtx s" "rq_p_mtx (rq_goto t p s) = rq_p_mtx s"
  "rq_pushed (rq_goto t p s) = rq_pushed s" "rq_popped (rq_goto t p s) = rq_popped s"
  by (simp_all add: rq_goto_def)

text \<open>How the four counts change when a thread moves.\<close>

lemma ring_finite:
  assumes "ring_locks s" "\<And>p. P p \<Longrightarrow> busy p"
  shows "finite {t. P (rq_pc s t)}"
  using assms by (auto simp: ring_locks_def intro: finite_subset [of _ "{t. busy (rq_pc s t)}"])

lemma ring_counts_move:
  assumes "ring_locks s" "\<And>p. P p \<Longrightarrow> busy p"
  shows "at_pc ((rq_pc s)(t := q)) P =
      at_pc (rq_pc s) P + (if P q then 1 else 0) - (if P (rq_pc s t) then 1 else 0)"
    and "P (rq_pc s t) \<Longrightarrow> 0 < at_pc (rq_pc s) P"
  using at_pc_move [where f = "rq_pc s" and P = P, OF ring_finite [OF assms]]
    at_pc_pos [where f = "rq_pc s" and P = P, OF ring_finite [OF assms]]
  by simp_all

lemmas ring_moves =
  ring_counts_move [where P = will_write, OF _ role_busy(1)] ring_counts_move [where P = has_written, OF _ role_busy(2)]
  ring_counts_move [where P = will_read, OF _ role_busy(3)] ring_counts_move [where P = has_read, OF _ role_busy(4)]

lemma finite_busy_update: "finite {u. busy (f u)} \<Longrightarrow> finite {u. busy ((f(t := q)) u)}"
  by (rule finite_pc_update)

lemma ring_holders:
  "ring_locks s \<Longrightarrow> (p_holds (rq_pc s t) \<longleftrightarrow> rq_p_mtx s = Some t) \<and>
     (c_holds (rq_pc s t) \<longleftrightarrow> rq_c_mtx s = Some t)"
  by (simp add: ring_locks_def)

lemma push_locks:
  assumes "push_step t (rq_pc s t) s = Done s'" "ring_locks s"
  shows "ring_locks s'"
  using assms finite_busy_update [of "rq_pc s" t] ring_holders [OF assms(2), of t]
  by (cases "rq_pc s t") (auto simp: ring_locks_def rq_P_space_def split: if_splits)

lemma pop_locks:
  assumes "pop_step t (rq_pc s t) s = Done s'" "ring_locks s"
  shows "ring_locks s'"
  using assms finite_busy_update [of "rq_pc s" t] ring_holders [OF assms(2), of t]
  by (cases "rq_pc s t") (auto simp: ring_locks_def rq_P_data_def Let_def split: if_splits)

lemma push_counts:
  assumes "push_step t (rq_pc s t) s = Done s'" "ring_locks s" "ring_counts s"
  shows "ring_counts s'"
  using assms ring_moves(2,4,6,8) [OF assms(2), where t = t]
  by (cases "rq_pc s t") (auto simp: ring_counts_def rq_P_space_def ring_moves(1,3,5,7) [OF assms(2)] split: if_splits)

lemma pop_counts:
  assumes "pop_step t (rq_pc s t) s = Done s'" "ring_locks s" "ring_counts s"
  shows "ring_counts s'"
  using assms ring_moves(2,4,6,8) [OF assms(2), where t = t]
  by (cases "rq_pc s t") (auto simp: ring_counts_def rq_P_data_def Let_def ring_moves(1,3,5,7) [OF assms(2)] split: if_splits)


lemma mod_neq_near:
  assumes "i < (w :: nat)" "w < i + n"
  shows "i mod n \<noteq> w mod n"
proof
  assume "i mod n = w mod n"
  then have "n dvd (w - i)" using assms(1) by (metis less_imp_le mod_eq_dvd_iff_nat)
  then have "n \<le> w - i" using assms(1) by (simp add: dvd_imp_le)
  with assms show False by simp
qed

lemma none_before:
  "\<not> P (f t) \<Longrightarrow> \<forall>u. \<not> P ((f(t := q)) u) \<Longrightarrow> \<forall>u. \<not> P (f u)"
  by (metis fun_upd_other)

lemma ring_room:
  assumes "ring_inv s" "will_write (rq_pc s t)"
  shows "length (rq_pushed s) < length (rq_popped s) + rq_capacity s"
proof -
  have "ring_locks s" "ring_counts s" using assms(1) by (simp_all add: ring_inv_def)
  with ring_moves(2) [OF this(1) _ assms(2)] show ?thesis by (simp add: ring_counts_def)
qed

lemma ring_item:
  assumes "ring_inv s" "will_read (rq_pc s t)"
  shows "length (rq_popped s) < length (rq_pushed s)"
proof -
  have "ring_locks s" "ring_counts s" using assms(1) by (simp_all add: ring_inv_def)
  with ring_moves(6) [OF this(1) _ assms(2)] show ?thesis by (simp add: ring_counts_def)
qed

lemma ring_holder_unique:
  assumes "ring_locks s"
  shows "p_holds (rq_pc s t) \<Longrightarrow> p_holds (rq_pc s u) \<Longrightarrow> t = u"
    and "c_holds (rq_pc s t) \<Longrightarrow> c_holds (rq_pc s u) \<Longrightarrow> t = u"
  using assms by (auto simp: ring_locks_def)

lemma ring_write_pos:
  assumes "ring_inv s" "rq_pc s t = Push_Write v"
  shows "rq_p_pos s < rq_capacity s" "rq_p_pos s = length (rq_pushed s) mod rq_capacity s"
proof -
  have "rq_pc s u \<noteq> Push_Mod" for u
    using ring_holder_unique(1) [of s t u] assms by (auto simp: ring_inv_def)
  then show "rq_p_pos s < rq_capacity s" "rq_p_pos s = length (rq_pushed s) mod rq_capacity s"
    using assms(1) by (auto simp: ring_inv_def ring_data_def Let_def)
qed

lemma ring_read_pos:
  assumes "ring_inv s" "rq_pc s t = Pop_Read"
  shows "rq_c_pos s < rq_capacity s" "rq_c_pos s = length (rq_popped s) mod rq_capacity s"
proof -
  have "\<not> is_Pop_Mod (rq_pc s u)" for u
    using ring_holder_unique(2) [of s t u] assms by (auto simp: ring_inv_def is_Pop_Mod_def)
  then show "rq_c_pos s < rq_capacity s" "rq_c_pos s = length (rq_popped s) mod rq_capacity s"
    using assms(1) by (auto simp: ring_inv_def ring_data_def Let_def)
qed

lemma ring_data_frame:
  assumes "ring_data s" "rq_buf s' = rq_buf s" "rq_capacity s' = rq_capacity s"
    "rq_pushed s' = rq_pushed s" "rq_popped s' = rq_popped s" "rq_p_pos s' = rq_p_pos s"
    "rq_c_pos s' = rq_c_pos s" "rq_pc s' = (rq_pc s)(t := q)"
    "rq_pc s t \<noteq> Push_Mod" "\<not> is_Pop_Mod (rq_pc s t)"
  shows "ring_data s'"
proof -
  have "(\<forall>u. rq_pc s' u \<noteq> Push_Mod) \<Longrightarrow> (\<forall>u. rq_pc s u \<noteq> Push_Mod)"
    using assms(8,9) by (auto split: if_splits)
  moreover have "(\<forall>u. \<not> is_Pop_Mod (rq_pc s' u)) \<Longrightarrow> (\<forall>u. \<not> is_Pop_Mod (rq_pc s u))"
    using assms(8,10) by (auto split: if_splits)
  ultimately show ?thesis using assms(1-7) by (simp add: ring_data_def Let_def)
qed

lemma push_write_data:
  assumes "ring_inv s" "rq_pc s t = Push_Write v"
  shows "ring_data (rq_goto t Push_Mod (s\<lparr>rq_buf := (rq_buf s)[rq_p_pos s := v],
             rq_p_pos := rq_p_pos s + 1, rq_pushed := rq_pushed s @ [v]\<rparr>))"
proof -
  let ?n = "rq_capacity s" and ?W = "length (rq_pushed s)" and ?R = "length (rq_popped s)"
  have d: "0 < ?n" "length (rq_buf s) = ?n" "rq_popped s = take ?R (rq_pushed s)"
    "rq_c_pos s mod ?n = ?R mod ?n" "(\<forall>t. \<not> is_Pop_Mod (rq_pc s t)) \<longrightarrow> rq_c_pos s < ?n"
    "\<And>i. ?R \<le> i \<Longrightarrow> i < ?W \<Longrightarrow> rq_buf s ! (i mod ?n) = rq_pushed s ! i"
    using assms(1) by (simp_all add: ring_inv_def ring_data_def Let_def)
  note pos = ring_write_pos [OF assms]
  have room: "?W < ?R + ?n" using ring_room [OF assms(1), of t] assms(2) by simp
  have "(rq_buf s)[rq_p_pos s := v] ! (i mod ?n) = (rq_pushed s @ [v]) ! i"
    if "?R \<le> i" "i < Suc ?W" for i
  proof (cases "i = ?W")
    case True
    with pos d(1,2) show ?thesis by simp
  next
    case False
    with that room d(6) [of i] pos(2) mod_neq_near [of i ?W ?n] show ?thesis
      by (simp add: nth_append)
  qed
  moreover have "?R \<le> ?W" using d(3) by (metis length_take min.cobounded1 nat_le_linear take_all)
  then have "rq_popped s = take ?R (rq_pushed s @ [v])" using d(3) by simp
  moreover have "Suc (rq_p_pos s) mod ?n = Suc ?W mod ?n" using pos(2) by (simp add: mod_Suc_eq)
  moreover have "(\<forall>u. \<not> is_Pop_Mod (((rq_pc s)(t := Push_Mod)) u)) \<longrightarrow> rq_c_pos s < ?n"
    using d(5) assms(2) none_before [of is_Pop_Mod "rq_pc s" t Push_Mod]
    by (auto simp: is_Pop_Mod_def simp del: fun_upd_apply)
  ultimately show ?thesis using d by (auto simp: ring_data_def Let_def)
qed

lemma pop_read_data:
  assumes "ring_inv s" "rq_pc s t = Pop_Read"
  shows "ring_data (rq_goto t (Pop_Mod v) (s\<lparr>rq_c_pos := rq_c_pos s + 1,
                 rq_popped := rq_popped s @ [rq_buf s ! rq_c_pos s]\<rparr>))"
proof -
  let ?n = "rq_capacity s" and ?W = "length (rq_pushed s)" and ?R = "length (rq_popped s)"
  have d: "0 < ?n" "length (rq_buf s) = ?n" "rq_popped s = take ?R (rq_pushed s)"
    "rq_p_pos s mod ?n = ?W mod ?n" "(\<forall>t. rq_pc s t \<noteq> Push_Mod) \<longrightarrow> rq_p_pos s < ?n"
    "\<And>i. ?R \<le> i \<Longrightarrow> i < ?W \<Longrightarrow> rq_buf s ! (i mod ?n) = rq_pushed s ! i"
    using assms(1) by (simp_all add: ring_inv_def ring_data_def Let_def)
  note pos = ring_read_pos [OF assms]
  have item: "?R < ?W" using ring_item [OF assms(1), of t] assms(2) by simp
  then have "rq_popped s @ [rq_buf s ! rq_c_pos s] = take (Suc ?R) (rq_pushed s)"
    using d(3) d(6) [of ?R] pos(2) by (metis order_refl take_Suc_conv_app_nth)
  moreover have "Suc (rq_c_pos s) mod ?n = Suc ?R mod ?n" using pos(2) by (simp add: mod_Suc_eq)
  moreover have "(\<forall>u. ((rq_pc s)(t := Pop_Mod v)) u \<noteq> Push_Mod) \<longrightarrow> rq_p_pos s < ?n"
    using d(5) assms(2) none_before [of "\<lambda>p. p = Push_Mod" "rq_pc s" t "Pop_Mod v"]
    by (auto simp del: fun_upd_apply)
  moreover have "(\<forall>u. \<not> is_Pop_Mod (((rq_pc s)(t := Pop_Mod v)) u)) = False"
    by (auto simp: is_Pop_Mod_def)
  ultimately show ?thesis using d(1,2,4,6) item
    by (auto simp add: ring_data_def Let_def min_absorb2 simp del: fun_upd_apply)
qed

lemma push_mod_data:
  assumes "ring_inv s" "rq_pc s t = Push_Mod"
  shows "ring_data (rq_goto t Push_Unlock (s\<lparr>rq_p_pos := rq_p_pos s mod rq_capacity s\<rparr>))"
proof -
  have "(\<forall>u. \<not> is_Pop_Mod (((rq_pc s)(t := Push_Unlock)) u)) \<Longrightarrow> (\<forall>u. \<not> is_Pop_Mod (rq_pc s u))"
    using assms(2) none_before [of is_Pop_Mod "rq_pc s" t Push_Unlock]
    by (auto simp: is_Pop_Mod_def simp del: fun_upd_apply)
  then show ?thesis using assms by (auto simp: ring_inv_def ring_data_def Let_def)
qed

lemma pop_mod_data:
  assumes "ring_inv s" "rq_pc s t = Pop_Mod v"
  shows "ring_data (rq_goto t (Pop_Unlock v) (s\<lparr>rq_c_pos := rq_c_pos s mod rq_capacity s\<rparr>))"
proof -
  have "(\<forall>u. ((rq_pc s)(t := Pop_Unlock v)) u \<noteq> Push_Mod) \<Longrightarrow> (\<forall>u. rq_pc s u \<noteq> Push_Mod)"
    using assms(2) none_before [of "\<lambda>p. p = Push_Mod" "rq_pc s" t "Pop_Unlock v"]
    by (auto simp del: fun_upd_apply)
  then show ?thesis using assms by (auto simp: ring_inv_def ring_data_def Let_def)
qed

lemma push_data:
  assumes "push_step t (rq_pc s t) s = Done s'" "ring_inv s"
  shows "ring_data s'"
proof -
  have d: "ring_data s" using assms(2) by (simp add: ring_inv_def)
  show ?thesis
    using assms push_write_data [OF assms(2)] push_mod_data [OF assms(2)]
    by (cases "rq_pc s t") (auto simp: rq_P_space_def is_Pop_Mod_def split: if_splits
        intro: ring_data_frame [OF d])
qed

lemma pop_data:
  assumes "pop_step t (rq_pc s t) s = Done s'" "ring_inv s"
  shows "ring_data s'"
proof -
  have d: "ring_data s" using assms(2) by (simp add: ring_inv_def)
  show ?thesis
    using assms pop_read_data [OF assms(2)] pop_mod_data [OF assms(2)]
    by (cases "rq_pc s t") (auto simp: rq_P_data_def is_Pop_Mod_def Let_def split: if_splits
        intro: ring_data_frame [OF d])
qed

lemma call_inv:
  assumes "ring_inv s" "rq_pc s t = Rq_Idle" "q = Push_P v \<or> q = Pop_P"
  shows "ring_inv (rq_goto t q s)"
proof -
  have l: "ring_locks s" "ring_counts s" "ring_data s" using assms(1) by (simp_all add: ring_inv_def)
  have "ring_locks (rq_goto t q s)"
    using l(1) assms(2,3) finite_busy_update [of "rq_pc s" t] ring_holders [OF l(1), of t]
    by (auto simp: ring_locks_def)
  moreover have "ring_counts (rq_goto t q s)"
    using l(2) assms(2,3) by (auto simp: ring_counts_def ring_moves(1,3,5,7) [OF l(1)])
  moreover have "ring_data (rq_goto t q s)"
    by (rule ring_data_frame [OF l(3), where t = t and q = q])
      (use assms(2) in \<open>simp_all add: is_Pop_Mod_def\<close>)
  ultimately show ?thesis by (simp add: ring_inv_def)
qed

lemma ring_step_inv:
  assumes "ring_step s s'" "ring_inv s"
  shows "ring_inv s'"
  using assms
proof (cases rule: ring_step.cases)
  case (run_push t)
  with assms(2) push_data [OF run_push assms(2)] push_locks push_counts show ?thesis
    by (auto simp: ring_inv_def)
next
  case (run_pop t)
  with assms(2) pop_data [OF run_pop assms(2)] pop_locks pop_counts show ?thesis
    by (auto simp: ring_inv_def)
next
  case (call_push t v)
  with assms(2) call_inv [of s t "Push_P v" v] show ?thesis by simp
next
  case (call_pop t)
  with assms(2) call_inv [of s t Pop_P undefined] show ?thesis by simp
qed

lemma RingQueue_new_inv: "0 < n \<Longrightarrow> ring_inv (RingQueue_new d n)"
  by (simp add: ring_inv_def ring_locks_def ring_counts_def ring_data_def RingQueue_new_def
      at_pc_zero is_Pop_Mod_def Let_def)


section \<open>The ring queue is a channel\<close>

definition ring_contents :: "'a ring \<Rightarrow> 'a list" where
  "ring_contents s = map (\<lambda>i. rq_buf s ! (i mod rq_capacity s)) [length (rq_popped s)..<length (rq_pushed s)]"

lemma ring_contents_rest:
  assumes "ring_inv s"
  shows "rq_pushed s = rq_popped s @ ring_contents s"
proof -
  have d: "rq_popped s = take (length (rq_popped s)) (rq_pushed s)"
    "\<And>i. length (rq_popped s) \<le> i \<Longrightarrow> i < length (rq_pushed s) \<Longrightarrow>
       rq_buf s ! (i mod rq_capacity s) = rq_pushed s ! i"
    using assms by (simp_all add: ring_inv_def ring_data_def Let_def)
  have "ring_contents s = map ((!) (rq_pushed s)) [length (rq_popped s)..<length (rq_pushed s)]"
    using d(2) by (simp add: ring_contents_def)
  also have "\<dots> = drop (length (rq_popped s)) (rq_pushed s)"
    by (metis drop_map drop_upt map_nth add_0)
  finally show ?thesis using d(1) by (metis append_take_drop_id)
qed

lemma ring_contents_bound: "ring_inv s \<Longrightarrow> length (ring_contents s) \<le> rq_capacity s"
  by (auto simp: ring_inv_def ring_counts_def ring_contents_def)

lemma push_frame:
  "push_step t p s = Done s' \<Longrightarrow> rq_capacity s' = rq_capacity s \<and> rq_popped s' = rq_popped s \<and>
     prefix (rq_pushed s) (rq_pushed s')"
  by (cases p) (auto simp: rq_P_space_def split: if_splits)

lemma pop_frame:
  "pop_step t p s = Done s' \<Longrightarrow> rq_capacity s' = rq_capacity s \<and> rq_pushed s' = rq_pushed s \<and>
     prefix (rq_popped s) (rq_popped s')"
  by (cases p) (auto simp: rq_P_data_def Let_def split: if_splits)

lemma ring_step_frame:
  assumes "ring_step s s'"
  shows "rq_capacity s' = rq_capacity s \<and> prefix (rq_pushed s) (rq_pushed s') \<and>
    prefix (rq_popped s) (rq_popped s')"
  using assms by cases (auto dest: push_frame pop_frame)

definition ring_start :: "'a ring \<Rightarrow> bool" where
  "ring_start s \<longleftrightarrow> (\<exists>d n. 0 < n \<and> s = RingQueue_new d n)"

interpretation ring: bounded_channel ring_step ring_start ring_inv rq_pushed rq_popped ring_contents rq_capacity
  by unfold_locales
    (auto simp: ring_start_def ring_contents_rest ring_contents_bound
      dest: ring_step_frame RingQueue_new_inv ring_step_inv)

section \<open>Schedules\<close>

text \<open>Running a list of threads, each taking its next statement, from a given state.\<close>

definition ring_next :: "nat \<Rightarrow> 'a ring \<Rightarrow> 'a ring outcome" where
  "ring_next t s = (case push_step t (rq_pc s t) s of
     Blocked \<Rightarrow> pop_step t (rq_pc s t) s | r \<Rightarrow> r)"

fun ring_exec :: "nat list \<Rightarrow> 'a ring \<Rightarrow> 'a ring outcome" where
  "ring_exec [] s = Done s"
| "ring_exec (t # ts) s = bind_out (ring_next t s) (ring_exec ts)"

lemma ring_exec_reach: "ring_exec ts s = Done s' \<Longrightarrow> ring_step\<^sup>*\<^sup>* s s'"
proof (induction ts arbitrary: s)
  case Nil
  then show ?case by simp
next
  case (Cons t ts)
  then obtain s1 where s1: "ring_next t s = Done s1" "ring_step\<^sup>*\<^sup>* s1 s'" by auto
  have "ring_step s s1"
    using s1(1) by (auto simp: ring_next_def split: outcome.splits intro: run_push run_pop)
  then show ?case using s1(2) by (rule converse_rtranclp_into_rtranclp)
qed

definition demo_ring :: "nat ring" where
  "demo_ring = rq_goto 2 (Push_P 8) (rq_goto 1 (Push_P 7) (RingQueue_new 0 1))"

lemma demo_ring_reach:
  assumes "ring_exec ts demo_ring = Done s"
  shows "ring_step\<^sup>*\<^sup>* (RingQueue_new 0 1) s"
proof -
  have "ring_step (RingQueue_new 0 1) (rq_goto 1 (Push_P 7) (RingQueue_new (0 :: nat) 1))"
    by (rule call_push) (simp add: RingQueue_new_def)
  moreover have "ring_step (rq_goto 1 (Push_P 7) (RingQueue_new 0 1)) demo_ring"
    unfolding demo_ring_def by (rule call_push) (simp add: RingQueue_new_def)
  ultimately show ?thesis using ring_exec_reach [OF assms] by (meson converse_rtranclp_into_rtranclp)
qed

lemma ring_next_other:
  assumes "ring_next t s = Done s'" "u \<noteq> t"
  shows "rq_pc s' u = rq_pc s u"
  using assms
  by (cases "rq_pc s t")
    (auto simp: ring_next_def rq_P_space_def rq_P_data_def Let_def split: if_splits)

lemma ring_exec_other:
  "ring_exec ts s = Done s' \<Longrightarrow> u \<notin> set ts \<Longrightarrow> rq_pc s' u = rq_pc s u"
  by (induction ts arbitrary: s) (auto dest: ring_next_other)

text \<open>Thread 1 runs its \<open>push\<close> to the end; thread 2 then finds the queue full.\<close>

definition demo_run :: "nat ring outcome" where
  "demo_run = ring_exec [1, 1, 1, 1, 1, 1] demo_ring"

lemma demo_run_eval:
  "case demo_run of
     Done s \<Rightarrow> rq_pushed s = [7] \<and> rq_popped s = [] \<and> rq_pc s 2 = Push_P 8 \<and> rq_pc s 1 = Rq_Idle \<and>
       (case ring_next 2 s of Blocked \<Rightarrow> True | _ \<Rightarrow> False)
   | _ \<Rightarrow> False"
  by code_simp

lemma demo_ring_run:
  obtains s where "ring_step\<^sup>*\<^sup>* (RingQueue_new (0 :: nat) 1) s" "rq_pushed s = [7]" "rq_popped s = []"
    "rq_pc s 2 = Push_P 8" "ring_next 2 s = Blocked" "\<forall>t. t \<noteq> 2 \<longrightarrow> rq_pc s t = Rq_Idle"
proof -
  obtain s where s: "demo_run = Done s" "rq_pushed s = [7]" "rq_popped s = []" "rq_pc s 2 = Push_P 8"
    "rq_pc s 1 = Rq_Idle" "ring_next 2 s = Blocked"
    using demo_run_eval by (cases demo_run) (auto split: outcome.splits)
  have "rq_pc s t = Rq_Idle" if "t \<noteq> 2" for t
    using s(1,5) that ring_exec_other [of "[1, 1, 1, 1, 1, 1]" demo_ring s t]
    by (cases "t = 1") (simp_all add: demo_run_def demo_ring_def RingQueue_new_def del: ring_exec.simps)
  with that s(2-) demo_ring_reach s(1) show ?thesis unfolding demo_run_def by blast
qed

section \<open>Properties\<close>

text \<open>No access leaves the vector, each side has one thread between lock and unlock, and the slots differ.\<close>

lemma ring_access:
  assumes "0 < n" "ring_step\<^sup>*\<^sup>* (RingQueue_new d n) s"
  shows "push_step t (rq_pc s t) s \<noteq> Crash e \<and> pop_step t (rq_pc s t) s \<noteq> Crash e \<and>
    (p_holds (rq_pc s t) \<and> p_holds (rq_pc s u) \<or> c_holds (rq_pc s t) \<and> c_holds (rq_pc s u) \<longrightarrow> t = u) \<and>
    (rq_pc s t = Push_Write v \<and> rq_pc s u = Pop_Read \<longrightarrow> rq_p_pos s \<noteq> rq_c_pos s)"
proof -
  have inv: "ring_inv s"
    using ring.reach_inv [OF assms(2) RingQueue_new_inv [OF assms(1)]] .
  then have n: "0 < rq_capacity s" "length (rq_buf s) = rq_capacity s" and l: "ring_locks s"
    by (simp_all add: ring_inv_def ring_data_def Let_def)
  have "push_step t (rq_pc s t) s \<noteq> Crash e"
    using ring_write_pos(1) [OF inv, of t] n by (cases "rq_pc s t") (auto simp: rq_P_space_def)
  moreover have "pop_step t (rq_pc s t) s \<noteq> Crash e"
    using ring_read_pos(1) [OF inv, of t] n by (cases "rq_pc s t") (auto simp: rq_P_data_def Let_def)
  moreover have "rq_p_pos s \<noteq> rq_c_pos s" if "rq_pc s t = Push_Write v" "rq_pc s u = Pop_Read"
  proof -
    have "length (rq_popped s) mod rq_capacity s \<noteq> length (rq_pushed s) mod rq_capacity s"
      using ring_room [OF inv, of t] ring_item [OF inv, of u] that by (intro mod_neq_near) auto
    with ring_write_pos(2) [OF inv that(1)] ring_read_pos(2) [OF inv that(2)] show ?thesis by simp
  qed
  ultimately show ?thesis using ring_holder_unique [OF l] by blast
qed

text \<open>The queue cannot deadlock: when every thread inside a call is blocked, all of them are
  producers waiting because the queue is full, or all of them are consumers waiting because it is
  empty.\<close>

lemma ring_progress:
  assumes "0 < n" "ring_step\<^sup>*\<^sup>* (RingQueue_new d n) s"
    and "\<forall>t. busy (rq_pc s t) \<longrightarrow> ring_next t s = Blocked"
  shows "(\<forall>t. busy (rq_pc s t) \<longrightarrow> (\<exists>v. rq_pc s t = Push_P v)) \<and>
      length (ring_contents s) = n \<or>
    (\<forall>t. busy (rq_pc s t) \<longrightarrow> rq_pc s t = Pop_P) \<and> ring_contents s = [] \<or>
    (\<forall>t. \<not> busy (rq_pc s t))"
proof -
  have inv: "ring_inv s"
    using ring.reach_inv [OF assms(2) RingQueue_new_inv [OF assms(1)]] .
  then have l: "ring_locks s" and c: "ring_counts s" by (simp_all add: ring_inv_def)
  have cap: "rq_capacity s = n" using ring.reach_cap [OF assms(2)] by (simp add: RingQueue_new_def)
  have pos: "0 < rq_capacity s" "length (rq_buf s) = rq_capacity s"
    using inv by (simp_all add: ring_inv_def ring_data_def Let_def)
  have blocked: "push_step t (rq_pc s t) s = Blocked \<and> pop_step t (rq_pc s t) s = Blocked"
    if "busy (rq_pc s t)" for t
    using assms(3) [rule_format, OF that]
    by (cases "push_step t (rq_pc s t) s") (simp_all add: ring_next_def)
  have holds: "\<not> p_holds (rq_pc s t) \<and> \<not> c_holds (rq_pc s t)" for t
    using blocked [of t] ring_write_pos(1) [OF inv, of t] ring_read_pos(1) [OF inv, of t] pos
    by (cases "rq_pc s t") (auto simp: Let_def)
  then have free: "rq_p_mtx s = None" "rq_c_mtx s = None"
    using l by (auto simp: ring_locks_def)
  have only: "(\<exists>v. rq_pc s t = Push_P v) \<and> rq_space_sem s = 0 \<or> rq_pc s t = Pop_P \<and> rq_data_sem s = 0"
    if "busy (rq_pc s t)" for t
    using blocked [OF that] holds [of t] free that
    by (cases "rq_pc s t") (auto simp: busy_def rq_P_space_def rq_P_data_def split: if_splits)
  have none: "\<not> P (rq_pc s t)" if "P = will_write \<or> P = has_written \<or> P = will_read \<or> P = has_read" for P t
    using only [of t] that by (cases "busy (rq_pc s t)") (auto dest: role_busy)
  have z: "at_pc (rq_pc s) will_write = 0" "at_pc (rq_pc s) has_written = 0"
    "at_pc (rq_pc s) will_read = 0" "at_pc (rq_pc s) has_read = 0"
    by (rule at_pc_zero, rule none, simp)+
  have full: "length (ring_contents s) = n" if "rq_space_sem s = 0"
    using c z that cap by (simp add: ring_counts_def ring_contents_def)
  have empty: "ring_contents s = []" if "rq_data_sem s = 0"
    using c z that by (simp add: ring_counts_def ring_contents_def)
  show ?thesis
  proof (cases "\<exists>t v. rq_pc s t = Push_P v")
    case True
    then obtain t v where "rq_pc s t = Push_P v" by blast
    with only [of t] have "rq_space_sem s = 0" by (auto simp: busy_def)
    with full have len: "length (ring_contents s) = n" by simp
    with empty assms(1) have "rq_data_sem s \<noteq> 0" by auto
    then have "\<exists>v. rq_pc s u = Push_P v" if "busy (rq_pc s u)" for u
      using only [OF that] by simp
    with len show ?thesis by simp
  next
    case False
    then have all: "rq_pc s u = Pop_P \<and> rq_data_sem s = 0" if "busy (rq_pc s u)" for u
      using only [OF that] by blast
    show ?thesis
    proof (cases "\<exists>u. busy (rq_pc s u)")
      case True
      with all empty have "ring_contents s = []" by metis
      with all show ?thesis by simp
    qed simp
  qed
qed

text \<open>C12. However the threads interleave, values are taken out in the order they were put in, each
  once; the buffer holds exactly the values put in and not taken out, and never more than its
  capacity. No access leaves the vector, at most one thread is between lock and unlock on each side,
  and a thread about to write never addresses the slot another is about to read, although the two
  sides hold different locks. And the queue cannot deadlock: when every thread inside a call is
  blocked, all of them are producers and it is full, or all are consumers and it is empty.\<close>

theorem ring_queue_fifo:
  assumes "0 < n" "ring_step\<^sup>*\<^sup>* (RingQueue_new d n) s"
  shows "rq_pushed s = rq_popped s @ ring_contents s \<and>
    length (rq_pushed s) \<le> length (rq_popped s) + n \<and>
    push_step t (rq_pc s t) s \<noteq> Crash e \<and> pop_step t (rq_pc s t) s \<noteq> Crash e \<and>
    (p_holds (rq_pc s t) \<and> p_holds (rq_pc s u) \<or> c_holds (rq_pc s t) \<and> c_holds (rq_pc s u) \<longrightarrow> t = u) \<and>
    (rq_pc s t = Push_Write v \<and> rq_pc s u = Pop_Read \<longrightarrow> rq_p_pos s \<noteq> rq_c_pos s) \<and>
    ((\<forall>t. busy (rq_pc s t) \<longrightarrow> ring_next t s = Blocked) \<longrightarrow>
      (\<forall>t. busy (rq_pc s t) \<longrightarrow> (\<exists>v. rq_pc s t = Push_P v)) \<and> length (ring_contents s) = n \<or>
      (\<forall>t. busy (rq_pc s t) \<longrightarrow> rq_pc s t = Pop_P) \<and> ring_contents s = [] \<or>
      (\<forall>t. \<not> busy (rq_pc s t)))"
proof -
  have st: "ring_start (RingQueue_new d n)" using assms(1) by (auto simp: ring_start_def)
  have "rq_pushed s = rq_popped s @ ring_contents s" "length (rq_pushed s) \<le> length (rq_popped s) + n"
    using ring.inv_split [OF ring.reach_inv [OF assms(2) ring.start_inv [OF st]]] ring.bounded [OF st assms(2)]
    by (simp_all add: RingQueue_new_def)
  with ring_access [OF assms, of t e u v] ring_progress [OF assms] show ?thesis by simp
qed

lemma ring_queue_fifo_witness:
  "\<exists>s. ring_step\<^sup>*\<^sup>* (RingQueue_new (0 :: nat) 1) s \<and> rq_popped s = [] \<and> ring_contents s = [7]"
proof -
  obtain s where s: "ring_step\<^sup>*\<^sup>* (RingQueue_new (0 :: nat) 1) s" "rq_pushed s = [7]" "rq_popped s = []"
    by (rule demo_ring_run)
  have "rq_pushed s = rq_popped s @ ring_contents s"
    using ring_queue_fifo [OF zero_less_one s(1)] by (rule conjunct1)
  with s(2,3) have "ring_contents s = [7]" by simp
  with s show ?thesis by blast
qed

lemma ring_full_demo:
  "\<exists>s. rq_pc s 2 = Push_P (8 :: nat) \<and> length (ring_contents s) = 1"
proof -
  obtain s where s: "ring_step\<^sup>*\<^sup>* (RingQueue_new (0 :: nat) 1) s" "rq_pc s 2 = Push_P 8"
    "ring_next 2 s = Blocked" "\<forall>t. t \<noteq> 2 \<longrightarrow> rq_pc s t = Rq_Idle"
    by (rule demo_ring_run)
  have "\<forall>t. busy (rq_pc s t) \<longrightarrow> ring_next t s = Blocked"
    using s(3,4) by (metis busy_simps(1))
  note prog = ring_progress [OF zero_less_one s(1) this]
  have "busy (rq_pc s 2)" "rq_pc s 2 \<noteq> Pop_P" using s(2) by (simp_all add: busy_def)
  with prog have "length (ring_contents s) = 1" by blast
  with s(2) show ?thesis by blast
qed

end
