(* ===== verification/BlockQueue.thy ===== *)
theory BlockQueue
  imports Channel
begin

text \<open>
  The blocking queue of \<open>7.3/blockingQueue/blockQueue.hpp\<close>: one mutex, a condition variable for
  the consumers and one for the producers. A thread in \<open>pthread_cond_wait\<close> has released the
  mutex; it is woken by a signal, or without one (POSIX allows spurious wake-ups), and must then
  take the mutex again. The histories \<open>bq_pushed\<close> and \<open>bq_popped\<close> are never read by the code.
\<close>

section \<open>State and steps\<close>

datatype 'a bq_pc =
    Bq_Idle
  | BPush_Lock 'a | BPush_Check 'a | BPush_Wait 'a | BPush_Relock 'a | BPush_Enq 'a
  | BPush_Signal | BPush_Unlock
  | BPop_Lock | BPop_Check | BPop_Wait | BPop_Relock | BPop_Deq
  | BPop_Signal 'a | BPop_Unlock 'a

record 'a bqueue =
  bq_q :: "'a list"
  bq_cap :: nat
  bq_mutex :: "nat option"
  bq_pc :: "nat \<Rightarrow> 'a bq_pc"
  bq_pushed :: "'a list"
  bq_popped :: "'a list"

definition BlockQueue_new :: "nat \<Rightarrow> 'a bqueue" where
  "BlockQueue_new cap = \<lparr>bq_q = [], bq_cap = cap, bq_mutex = None, bq_pc = (\<lambda>_. Bq_Idle),
     bq_pushed = [], bq_popped = []\<rparr>"

definition bq_isFull :: "'a bqueue \<Rightarrow> bool" where
  "bq_isFull s \<longleftrightarrow> length (bq_q s) = bq_cap s"

definition bq_isEmpty :: "'a bqueue \<Rightarrow> bool" where
  "bq_isEmpty s \<longleftrightarrow> bq_q s = []"

definition bq_goto :: "nat \<Rightarrow> 'a bq_pc \<Rightarrow> 'a bqueue \<Rightarrow> 'a bqueue" where
  "bq_goto t p s = s\<lparr>bq_pc := (bq_pc s)(t := p)\<rparr>"

definition bq_lock :: "nat \<Rightarrow> 'a bq_pc \<Rightarrow> 'a bqueue \<Rightarrow> 'a bqueue outcome" where
  "bq_lock t p s = (if bq_mutex s = None then Done (bq_goto t p (s\<lparr>bq_mutex := Some t\<rparr>)) else Blocked)"

text \<open>
  \<open>pthread_cond_signal\<close>: \<open>w\<close> is the thread the scheduler picks among those that wait on the
  condition variable; with none waiting the signal is lost. \<open>woken\<close> gives the program point at
  which a waiting thread goes on.
\<close>

definition bq_signal :: "('a bq_pc \<Rightarrow> 'a bq_pc option) \<Rightarrow> nat \<Rightarrow> 'a bqueue \<Rightarrow> 'a bqueue" where
  "bq_signal woken w s = (case woken (bq_pc s w) of None \<Rightarrow> s | Some p \<Rightarrow> bq_goto w p s)"

fun wake_consumer :: "'a bq_pc \<Rightarrow> 'a bq_pc option" where
  "wake_consumer BPop_Wait = Some BPop_Relock"
| "wake_consumer _ = None"

fun wake_producer :: "'a bq_pc \<Rightarrow> 'a bq_pc option" where
  "wake_producer (BPush_Wait v) = Some (BPush_Relock v)"
| "wake_producer _ = None"

fun bq_push_step :: "nat \<Rightarrow> nat \<Rightarrow> 'a bq_pc \<Rightarrow> 'a bqueue \<Rightarrow> 'a bqueue outcome" where
  "bq_push_step t w (BPush_Lock v) s = bq_lock t (BPush_Check v) s"
| "bq_push_step t w (BPush_Check v) s =
     (if bq_isFull s then Done (bq_goto t (BPush_Wait v) (s\<lparr>bq_mutex := None\<rparr>))
      else Done (bq_goto t (BPush_Enq v) s))"
| "bq_push_step t w (BPush_Relock v) s = bq_lock t (BPush_Check v) s"
| "bq_push_step t w (BPush_Enq v) s =
     Done (bq_goto t BPush_Signal (s\<lparr>bq_q := bq_q s @ [v], bq_pushed := bq_pushed s @ [v]\<rparr>))"
| "bq_push_step t w BPush_Signal s = Done (bq_goto t BPush_Unlock (bq_signal wake_consumer w s))"
| "bq_push_step t w BPush_Unlock s = Done (bq_goto t Bq_Idle (s\<lparr>bq_mutex := None\<rparr>))"
| "bq_push_step t w _ s = Blocked"

fun bq_pop_step :: "nat \<Rightarrow> nat \<Rightarrow> 'a bq_pc \<Rightarrow> 'a bqueue \<Rightarrow> 'a bqueue outcome" where
  "bq_pop_step t w BPop_Lock s = bq_lock t BPop_Check s"
| "bq_pop_step t w BPop_Check s =
     (if bq_isEmpty s then Done (bq_goto t BPop_Wait (s\<lparr>bq_mutex := None\<rparr>))
      else Done (bq_goto t BPop_Deq s))"
| "bq_pop_step t w BPop_Relock s = bq_lock t BPop_Check s"
| "bq_pop_step t w BPop_Deq s =
     (case bq_q s of
        [] \<Rightarrow> Crash OutOfBounds   \<comment> \<open>\<open>front\<close> and \<open>pop\<close> of an empty queue\<close>
      | v # q \<Rightarrow> Done (bq_goto t (BPop_Signal v) (s\<lparr>bq_q := q, bq_popped := bq_popped s @ [v]\<rparr>)))"
| "bq_pop_step t w (BPop_Signal v) s = Done (bq_goto t (BPop_Unlock v) (bq_signal wake_producer w s))"
| "bq_pop_step t w (BPop_Unlock v) s = Done (bq_goto t Bq_Idle (s\<lparr>bq_mutex := None\<rparr>))"
| "bq_pop_step t w _ s = Blocked"

text \<open>A signal may only miss (\<open>w\<close> is not waiting) when no thread waits.\<close>

definition signal_ok :: "('a bq_pc \<Rightarrow> 'a bq_pc option) \<Rightarrow> nat \<Rightarrow> 'a bqueue \<Rightarrow> bool" where
  "signal_ok woken w s \<longleftrightarrow> woken (bq_pc s w) \<noteq> None \<or> (\<forall>u. woken (bq_pc s u) = None)"

inductive bq_step :: "'a bqueue \<Rightarrow> 'a bqueue \<Rightarrow> bool" where
  bq_call_push: "bq_pc s t = Bq_Idle \<Longrightarrow> bq_step s (bq_goto t (BPush_Lock v) s)"
| bq_call_pop: "bq_pc s t = Bq_Idle \<Longrightarrow> bq_step s (bq_goto t BPop_Lock s)"
| bq_run_push: "bq_push_step t w (bq_pc s t) s = Done s' \<Longrightarrow> signal_ok wake_consumer w s \<Longrightarrow> bq_step s s'"
| bq_run_pop: "bq_pop_step t w (bq_pc s t) s = Done s' \<Longrightarrow> signal_ok wake_producer w s \<Longrightarrow> bq_step s s'"
| bq_spurious_c: "wake_consumer (bq_pc s t) = Some p \<Longrightarrow> bq_step s (bq_goto t p s)"
| bq_spurious_p: "wake_producer (bq_pc s t) = Some p \<Longrightarrow> bq_step s (bq_goto t p s)"

section \<open>Invariant\<close>

fun bq_holds :: "'a bq_pc \<Rightarrow> bool" where
  "bq_holds (BPush_Check v) = True" | "bq_holds (BPush_Enq v) = True" | "bq_holds BPush_Signal = True"
| "bq_holds BPush_Unlock = True" | "bq_holds BPop_Check = True" | "bq_holds BPop_Deq = True"
| "bq_holds (BPop_Signal v) = True" | "bq_holds (BPop_Unlock v) = True" | "bq_holds _ = False"

text \<open>Threads that will look at the queue on behalf of the consumers (producers) without being
  woken, or will wake one.\<close>

fun serves_pop :: "'a bq_pc \<Rightarrow> bool" where
  "serves_pop BPop_Relock = True" | "serves_pop BPop_Check = True" | "serves_pop BPop_Deq = True"
| "serves_pop BPush_Signal = True" | "serves_pop _ = False"

fun serves_push :: "'a bq_pc \<Rightarrow> bool" where
  "serves_push (BPush_Relock v) = True" | "serves_push (BPush_Check v) = True"
| "serves_push (BPush_Enq v) = True" | "serves_push (BPop_Signal v) = True" | "serves_push _ = False"

definition bq_busy :: "'a bq_pc \<Rightarrow> bool" where
  "bq_busy p \<longleftrightarrow> p \<noteq> Bq_Idle"

fun bq_pc_ok :: "'a bqueue \<Rightarrow> 'a bq_pc \<Rightarrow> bool" where
  "bq_pc_ok s (BPush_Enq v) = (length (bq_q s) < bq_cap s)"
| "bq_pc_ok s BPop_Deq = (bq_q s \<noteq> [])"
| "bq_pc_ok s _ = True"

definition bq_locks :: "'a bqueue \<Rightarrow> bool" where
  "bq_locks s \<longleftrightarrow> finite {t. bq_busy (bq_pc s t)} \<and>
     (\<forall>t. bq_holds (bq_pc s t) \<longleftrightarrow> bq_mutex s = Some t)"

definition bq_data :: "'a bqueue \<Rightarrow> bool" where
  "bq_data s \<longleftrightarrow> 0 < bq_cap s \<and> (\<forall>t. bq_pc_ok s (bq_pc s t)) \<and>
     length (bq_q s) \<le> bq_cap s \<and> bq_pushed s = bq_popped s @ bq_q s"

text \<open>While a consumer sleeps, every value in the queue has somebody who will fetch it; while a
  producer sleeps, every free place has somebody who will fill it.\<close>

definition bq_signals :: "'a bqueue \<Rightarrow> bool" where
  "bq_signals s \<longleftrightarrow>
     ((\<exists>t. wake_consumer (bq_pc s t) \<noteq> None) \<longrightarrow> length (bq_q s) \<le> at_pc (bq_pc s) serves_pop) \<and>
     ((\<exists>t. wake_producer (bq_pc s t) \<noteq> None) \<longrightarrow>
        bq_cap s \<le> length (bq_q s) + at_pc (bq_pc s) serves_push)"

definition bq_inv :: "'a bqueue \<Rightarrow> bool" where
  "bq_inv s \<longleftrightarrow> bq_locks s \<and> bq_data s \<and> bq_signals s"

lemma bq_goto_sel [simp]:
  "bq_pc (bq_goto t p s) = (bq_pc s)(t := p)" "bq_q (bq_goto t p s) = bq_q s"
  "bq_cap (bq_goto t p s) = bq_cap s" "bq_mutex (bq_goto t p s) = bq_mutex s"
  "bq_pushed (bq_goto t p s) = bq_pushed s" "bq_popped (bq_goto t p s) = bq_popped s"
  by (simp_all add: bq_goto_def)

lemma bq_busy_simps [simp]: "\<not> bq_busy Bq_Idle" "p \<noteq> Bq_Idle \<Longrightarrow> bq_busy p"
  by (simp_all add: bq_busy_def)

lemma bq_role_busy: "serves_pop p \<Longrightarrow> bq_busy p" "serves_push p \<Longrightarrow> bq_busy p"
  "bq_holds p \<Longrightarrow> bq_busy p"
  by (cases p; simp add: bq_busy_def)+

lemma bq_pc_ok_free: "\<not> bq_holds p \<Longrightarrow> bq_pc_ok s p"
  by (cases p) auto

lemma wake_consumer_Some: "wake_consumer p = Some q \<longleftrightarrow> p = BPop_Wait \<and> q = BPop_Relock"
  by (cases p) auto

lemma wake_producer_Some: "wake_producer p = Some q \<longleftrightarrow> (\<exists>v. p = BPush_Wait v \<and> q = BPush_Relock v)"
  by (cases p) auto

lemma bq_signal_sel [simp]:
  "bq_q (bq_signal k w s) = bq_q s" "bq_cap (bq_signal k w s) = bq_cap s"
  "bq_mutex (bq_signal k w s) = bq_mutex s" "bq_pushed (bq_signal k w s) = bq_pushed s"
  "bq_popped (bq_signal k w s) = bq_popped s"
  by (simp_all add: bq_signal_def split: option.splits)

lemma bq_moves:
  assumes "finite {t. bq_busy (f t)}"
  shows "at_pc (f(t := q)) serves_pop =
      at_pc f serves_pop + (if serves_pop q then 1 else 0) - (if serves_pop (f t) then 1 else 0)"
    "at_pc (f(t := q)) serves_push =
      at_pc f serves_push + (if serves_push q then 1 else 0) - (if serves_push (f t) then 1 else 0)"
    "serves_pop (f t) \<Longrightarrow> 0 < at_pc f serves_pop"
    "serves_push (f t) \<Longrightarrow> 0 < at_pc f serves_push"
proof -
  have "finite {t. serves_pop (f t)}" "finite {t. serves_push (f t)}"
    by (rule finite_subset [OF _ assms], auto dest: bq_role_busy)+
  then show "at_pc (f(t := q)) serves_pop =
      at_pc f serves_pop + (if serves_pop q then 1 else 0) - (if serves_pop (f t) then 1 else 0)"
    "at_pc (f(t := q)) serves_push =
      at_pc f serves_push + (if serves_push q then 1 else 0) - (if serves_push (f t) then 1 else 0)"
    "serves_pop (f t) \<Longrightarrow> 0 < at_pc f serves_pop"
    "serves_push (f t) \<Longrightarrow> 0 < at_pc f serves_push"
    by (simp_all only: at_pc_move) (auto intro: at_pc_pos [where f = f and t = t])
qed

text \<open>One thread moves, nobody's waiting changes.\<close>

lemma bq_move:
  assumes "bq_inv s"
    and s': "bq_pc s' = (bq_pc s)(t := q)" "bq_cap s' = bq_cap s"
      "bq_mutex s' = (if bq_holds q then Some t else if bq_holds (bq_pc s t) then None else bq_mutex s)"
      "bq_q s' \<noteq> bq_q s \<Longrightarrow> bq_holds (bq_pc s t)" "bq_pushed s' = bq_popped s' @ bq_q s'"
    and own: "bq_holds q \<Longrightarrow> \<not> bq_holds (bq_pc s t) \<Longrightarrow> bq_mutex s = None"
      "bq_pc_ok s' q" "length (bq_q s') \<le> bq_cap s"
    and cs: "wake_consumer q \<noteq> None \<Longrightarrow> bq_q s' = []" "wake_producer q \<noteq> None \<Longrightarrow> length (bq_q s') = bq_cap s"
      "length (bq_q s') + (if serves_pop (bq_pc s t) then 1 else 0) \<le> length (bq_q s) + (if serves_pop q then 1 else 0) \<or> bq_q s' = []"
      "length (bq_q s) + (if serves_push (bq_pc s t) then 1 else 0) \<le> length (bq_q s') + (if serves_push q then 1 else 0) \<or> length (bq_q s') = bq_cap s"
  shows "bq_inv s'"
proof -
  have l: "bq_locks s" "bq_data s" "bq_signals s" using assms(1) by (simp_all add: bq_inv_def)
  have fin: "finite {t. bq_busy (bq_pc s t)}" using l(1) by (simp add: bq_locks_def)
  have hold: "bq_holds (bq_pc s u) \<longleftrightarrow> bq_mutex s = Some u" for u using l(1) by (simp add: bq_locks_def)
  have "bq_holds (bq_pc s' u) \<longleftrightarrow> bq_mutex s' = Some u" for u
    using s'(1,3) own(1) hold [of u] hold [of t] by (cases "u = t") (auto split: if_splits)
  then have "bq_locks s'"
    using s'(1) finite_pc_update [of bq_busy "bq_pc s" t q] fin by (simp add: bq_locks_def)
  moreover have "bq_pc_ok s' (bq_pc s' u)" for u
  proof (cases "u = t")
    case True
    with own(2) s'(1) show ?thesis by simp
  next
    case False
    then have pc: "bq_pc s' u = bq_pc s u" using s'(1) by simp
    show ?thesis
    proof (cases "bq_holds (bq_pc s u)")
      case True
      with hold False s'(4) have "bq_q s' = bq_q s" by (metis option.inject)
      moreover have "bq_pc_ok s (bq_pc s u)" using l(2) by (simp add: bq_data_def)
      ultimately show ?thesis using s'(2) unfolding pc by (cases "bq_pc s u") auto
    qed (simp add: pc bq_pc_ok_free)
  qed
  then have "bq_data s'"
    using l(2) s'(2,5) own(3) by (simp add: bq_data_def)
  moreover have "bq_signals s'"
  proof -
    note mv = bq_moves [OF fin, of t]
    have "length (bq_q s') \<le> at_pc ((bq_pc s)(t := q)) serves_pop"
      if "wake_consumer (((bq_pc s)(t := q)) u) \<noteq> None" for u
    proof (cases "bq_q s' = []")
      case False
      with cs(1) that have "wake_consumer (bq_pc s u) \<noteq> None" by (auto split: if_splits)
      with l(3) have "length (bq_q s) \<le> at_pc (bq_pc s) serves_pop" by (auto simp: bq_signals_def)
      with cs(3) False mv(1) [of q] mv(3) show ?thesis by (auto split: if_splits)
    qed simp
    moreover have "bq_cap s \<le> length (bq_q s') + at_pc ((bq_pc s)(t := q)) serves_push"
      if "wake_producer (((bq_pc s)(t := q)) u) \<noteq> None" for u
    proof (cases "length (bq_q s') = bq_cap s")
      case False
      with cs(2) that have "wake_producer (bq_pc s u) \<noteq> None" by (auto split: if_splits)
      with l(3) have "bq_cap s \<le> length (bq_q s) + at_pc (bq_pc s) serves_push" by (auto simp: bq_signals_def)
      with cs(4) False mv(2) [of q] mv(4) show ?thesis by (auto split: if_splits)
    qed simp
    ultimately show ?thesis unfolding bq_signals_def s'(1,2) by blast
  qed
  ultimately show ?thesis by (simp add: bq_inv_def)
qed


lemma bq_holder: "bq_inv s \<Longrightarrow> bq_holds (bq_pc s t) \<longleftrightarrow> bq_mutex s = Some t"
  by (simp add: bq_inv_def bq_locks_def)

lemma bq_ok_at: "bq_inv s \<Longrightarrow> bq_pc_ok s (bq_pc s t)"
  by (simp add: bq_inv_def bq_data_def)

lemma bq_facts:
  "bq_inv s \<Longrightarrow> 0 < bq_cap s \<and> length (bq_q s) \<le> bq_cap s \<and> bq_pushed s = bq_popped s @ bq_q s"
  by (simp add: bq_inv_def bq_data_def)

lemma bq_wake_inv:
  assumes "bq_inv s" "wake_consumer (bq_pc s t) = Some p \<or> wake_producer (bq_pc s t) = Some p"
  shows "bq_inv (bq_goto t p s)"
  by (rule bq_move [OF assms(1), where t = t and q = p])
    (use assms bq_facts [OF assms(1)] in \<open>auto simp: wake_consumer_Some wake_producer_Some\<close>)

lemma bq_finite_update:
  "finite {t. bq_busy (f t)} \<Longrightarrow> finite {u. bq_busy ((f(t := q)) u)}"
  by (rule finite_pc_update)

lemma bq_locks_goto:
  assumes "bq_locks s" "bq_holds q = bq_holds (bq_pc s t)"
  shows "bq_locks (bq_goto t q s)"
proof -
  have "bq_holds (((bq_pc s)(t := q)) u) \<longleftrightarrow> bq_mutex s = Some u" for u
    using assms by (simp add: bq_locks_def)
  with assms(1) bq_finite_update [of "bq_pc s" t q] show ?thesis by (simp add: bq_locks_def)
qed

lemma bq_data_goto:
  assumes "bq_data s" "bq_pc_ok s q"
  shows "bq_data (bq_goto t q s)"
proof -
  have "bq_pc_ok (bq_goto t q s) p = bq_pc_ok s p" for p by (cases p) simp_all
  with assms show ?thesis by (simp add: bq_data_def)
qed

lemma bq_signal_inv:
  assumes "bq_inv s" "signal_ok k w s"
    and "k = wake_consumer \<and> bq_pc s t = BPush_Signal \<and> q = BPush_Unlock \<or>
      k = wake_producer \<and> (\<exists>v. bq_pc s t = BPop_Signal v \<and> q = BPop_Unlock v)"
  shows "bq_inv (bq_goto t q (bq_signal k w s))"
proof -
  have l: "bq_locks s" "bq_data s" "bq_signals s" using assms(1) by (simp_all add: bq_inv_def)
  have fin: "finite {t. bq_busy (bq_pc s t)}" using l(1) by (simp add: bq_locks_def)
  show ?thesis
  proof (cases "k (bq_pc s w)")
    case None
    with assms(2) have none: "\<And>u. k (bq_pc s u) = None" by (auto simp: signal_ok_def)
    have eq: "bq_signal k w s = s" using None by (simp add: bq_signal_def)
    have "bq_locks (bq_goto t q s)"
      by (rule bq_locks_goto [OF l(1)]) (use assms(3) in auto)
    moreover have "bq_data (bq_goto t q s)"
      by (rule bq_data_goto [OF l(2)]) (use assms(3) in auto)
    moreover have "bq_signals (bq_goto t q s)"
    proof -
      have wc: "wake_consumer (((bq_pc s)(t := q)) u) = wake_consumer (bq_pc s u)"
        "wake_producer (((bq_pc s)(t := q)) u) = wake_producer (bq_pc s u)" for u
        using assms(3) by auto
      show ?thesis
        using assms(3)
      proof
        assume c: "k = wake_consumer \<and> bq_pc s t = BPush_Signal \<and> q = BPush_Unlock"
        then have "at_pc ((bq_pc s)(t := q)) serves_push = at_pc (bq_pc s) serves_push"
          using bq_moves(2) [OF fin, of t q] by simp
        with l(3) none c show ?thesis unfolding bq_signals_def bq_goto_sel wc by simp
      next
        assume c: "k = wake_producer \<and> (\<exists>v. bq_pc s t = BPop_Signal v \<and> q = BPop_Unlock v)"
        then have "at_pc ((bq_pc s)(t := q)) serves_pop = at_pc (bq_pc s) serves_pop"
          using bq_moves(1) [OF fin, of t q] by auto
        with l(3) none c show ?thesis unfolding bq_signals_def bq_goto_sel wc by simp
      qed
    qed
    ultimately show ?thesis by (simp add: bq_inv_def eq)
  next
    case (Some p)
    define f where "f = (bq_pc s)(w := p)"
    have w: "w \<noteq> t" using Some assms(3) by auto
    have eq: "bq_signal k w s = bq_goto w p s" using Some by (simp add: bq_signal_def)
    have fin1: "finite {t. bq_busy (f t)}" unfolding f_def by (rule bq_finite_update [OF fin])
    have i: "bq_inv (bq_goto w p s)" using assms(1,3) Some by (auto intro: bq_wake_inv)
    then have l1: "bq_locks (bq_goto w p s)" "bq_data (bq_goto w p s)" by (simp_all add: bq_inv_def)
    have "bq_locks (bq_goto t q (bq_goto w p s))"
      by (rule bq_locks_goto [OF l1(1)]) (use assms(3) w in auto)
    moreover have "bq_data (bq_goto t q (bq_goto w p s))"
      by (rule bq_data_goto [OF l1(2)]) (use assms(3) in auto)
    moreover have "bq_signals (bq_goto t q (bq_goto w p s))"
    proof -
      have sub: "wake_consumer ((f(t := q)) u) \<noteq> None \<Longrightarrow> wake_consumer (bq_pc s u) \<noteq> None"
        "wake_producer ((f(t := q)) u) \<noteq> None \<Longrightarrow> wake_producer (bq_pc s u) \<noteq> None" for u
        using assms(3) Some by (auto simp: f_def wake_consumer_Some wake_producer_Some split: if_splits)
      have ft: "f t = bq_pc s t" using w by (simp add: f_def)
      have "at_pc (bq_pc s) serves_pop \<le> at_pc (f(t := q)) serves_pop"
        using assms(3) Some w ft bq_moves(1) [OF fin, of w p, folded f_def] bq_moves(3) [OF fin, of w] bq_moves(1) [OF fin1, of t q] bq_moves(3) [OF fin1, of t]
        by (auto simp: wake_consumer_Some wake_producer_Some)
      moreover have "at_pc (bq_pc s) serves_push \<le> at_pc (f(t := q)) serves_push"
        using assms(3) Some w ft bq_moves(2) [OF fin, of w p, folded f_def] bq_moves(4) [OF fin, of w] bq_moves(2) [OF fin1, of t q] bq_moves(4) [OF fin1, of t]
        by (auto simp: wake_consumer_Some wake_producer_Some)
      ultimately show ?thesis
        using l(3) sub unfolding bq_signals_def bq_goto_sel f_def [symmetric]
        by (meson add_left_mono order_trans)
    qed
    ultimately show ?thesis by (simp add: bq_inv_def eq)
  qed
qed


lemma bq_push_inv:
  assumes "bq_push_step t w (bq_pc s t) s = Done s'" "signal_ok wake_consumer w s" "bq_inv s"
  shows "bq_inv s'"
proof -
  note h = bq_holder [OF assms(3)] and ok = bq_ok_at [OF assms(3), of t] and f = bq_facts [OF assms(3)]
  show ?thesis
  proof (cases "bq_pc s t")
    case BPush_Signal
    with assms show ?thesis by (auto intro: bq_signal_inv)
  qed (use assms(1) h [of t] ok f in \<open>auto simp: bq_lock_def bq_isFull_def split: if_splits
      intro!: bq_move [OF assms(3), where t = t]\<close>)
qed

lemma bq_pop_inv:
  assumes "bq_pop_step t w (bq_pc s t) s = Done s'" "signal_ok wake_producer w s" "bq_inv s"
  shows "bq_inv s'"
proof -
  note h = bq_holder [OF assms(3)] and ok = bq_ok_at [OF assms(3), of t] and f = bq_facts [OF assms(3)]
  show ?thesis
  proof (cases "bq_pc s t")
    case (BPop_Signal v)
    with assms show ?thesis by (auto intro: bq_signal_inv)
  qed (use assms(1) h [of t] ok f in \<open>auto simp: bq_lock_def bq_isEmpty_def split: if_splits list.splits
      intro!: bq_move [OF assms(3), where t = t]\<close>)
qed

lemma bq_step_inv:
  assumes "bq_step s s'" "bq_inv s"
  shows "bq_inv s'"
  using assms(1)
proof cases
  case (bq_call_push t v)
  with assms(2) bq_facts [OF assms(2)] bq_holder [OF assms(2), of t] show ?thesis
    by (auto intro!: bq_move [OF assms(2), where t = t and q = "BPush_Lock v"])
next
  case (bq_call_pop t)
  with assms(2) bq_facts [OF assms(2)] bq_holder [OF assms(2), of t] show ?thesis
    by (auto intro!: bq_move [OF assms(2), where t = t and q = BPop_Lock])
qed (use assms(2) in \<open>auto intro: bq_push_inv bq_pop_inv bq_wake_inv\<close>)


lemma BlockQueue_new_inv: "0 < cap \<Longrightarrow> bq_inv (BlockQueue_new cap)"
  by (simp add: bq_inv_def bq_locks_def bq_data_def bq_signals_def BlockQueue_new_def)

section \<open>The blocking queue is a channel\<close>

lemma bq_push_frame:
  "bq_push_step t w p s = Done s' \<Longrightarrow> bq_cap s' = bq_cap s \<and> bq_popped s' = bq_popped s \<and>
     prefix (bq_pushed s) (bq_pushed s')"
  by (cases p) (auto simp: bq_lock_def split: if_splits)

lemma bq_pop_frame:
  "bq_pop_step t w p s = Done s' \<Longrightarrow> bq_cap s' = bq_cap s \<and> bq_pushed s' = bq_pushed s \<and>
     prefix (bq_popped s) (bq_popped s')"
  by (cases p) (auto simp: bq_lock_def split: if_splits list.splits)

lemma bq_step_frame:
  assumes "bq_step s s'"
  shows "bq_cap s' = bq_cap s \<and> prefix (bq_pushed s) (bq_pushed s') \<and> prefix (bq_popped s) (bq_popped s')"
  using assms by cases (auto dest: bq_push_frame bq_pop_frame)

definition bq_start :: "'a bqueue \<Rightarrow> bool" where
  "bq_start s \<longleftrightarrow> (\<exists>cap. 0 < cap \<and> s = BlockQueue_new cap)"

interpretation bq: bounded_channel bq_step bq_start bq_inv bq_pushed bq_popped bq_q bq_cap
  by unfold_locales
    (auto simp: bq_start_def BlockQueue_new_inv bq_facts dest: bq_step_frame intro: bq_step_inv)

section \<open>Progress of one thread\<close>

definition bq_next :: "nat \<Rightarrow> nat \<Rightarrow> 'a bqueue \<Rightarrow> 'a bqueue outcome" where
  "bq_next t w s = (case bq_push_step t w (bq_pc s t) s of
     Blocked \<Rightarrow> bq_pop_step t w (bq_pc s t) s | r \<Rightarrow> r)"

text \<open>While nobody waits, a signal wakes nobody.\<close>

lemma bq_quiet_step:
  assumes "bq_next t t s = Done s'"
    and "\<forall>u. wake_consumer (bq_pc s u) = None \<and> wake_producer (bq_pc s u) = None"
  shows "bq_step s s'"
proof -
  have "signal_ok wake_consumer t s" "signal_ok wake_producer t s"
    using assms(2) by (simp_all add: signal_ok_def)
  with assms(1) show ?thesis
    by (auto simp: bq_next_def split: outcome.splits intro: bq_run_push bq_run_pop)
qed

section \<open>Properties\<close>

text \<open>No wake-up is lost: in a state in which no thread inside a call can go on, either all of
  them are producers asleep in front of a full queue, or all of them are consumers asleep in front
  of an empty one.\<close>

lemma block_progress:
  assumes "0 < cap" "bq_step\<^sup>*\<^sup>* (BlockQueue_new cap) s"
    and "\<forall>t. bq_busy (bq_pc s t) \<longrightarrow> bq_next t w s = Blocked"
  shows "(\<forall>t. bq_busy (bq_pc s t) \<longrightarrow> (\<exists>v. bq_pc s t = BPush_Wait v)) \<and> length (bq_q s) = cap \<or>
    (\<forall>t. bq_busy (bq_pc s t) \<longrightarrow> bq_pc s t = BPop_Wait) \<and> bq_q s = [] \<or>
    (\<forall>t. \<not> bq_busy (bq_pc s t))"
proof -
  have inv: "bq_inv s" using bq.reach_inv [OF assms(2) BlockQueue_new_inv [OF assms(1)]] .
  have cap: "bq_cap s = cap" using bq.reach_cap [OF assms(2)] by (simp add: BlockQueue_new_def)
  have sig: "bq_signals s" using inv by (simp add: bq_inv_def)
  have blocked: "bq_push_step t w (bq_pc s t) s = Blocked \<and> bq_pop_step t w (bq_pc s t) s = Blocked"
    if "bq_busy (bq_pc s t)" for t
    using assms(3) [rule_format, OF that]
    by (cases "bq_push_step t w (bq_pc s t) s") (simp_all add: bq_next_def)
  have holds: "\<not> bq_holds (bq_pc s t)" for t
    using blocked [of t] bq_ok_at [OF inv, of t]
    by (cases "bq_pc s t") (auto split: if_splits list.splits)
  then have free: "bq_mutex s = None"
    using bq_holder [OF inv] by (cases "bq_mutex s") auto
  have only: "(\<exists>v. bq_pc s t = BPush_Wait v) \<or> bq_pc s t = BPop_Wait" if "bq_busy (bq_pc s t)" for t
    using blocked [OF that] holds [of t] free that
    by (cases "bq_pc s t") (auto simp: bq_busy_def bq_lock_def)
  have none: "\<not> serves_pop (bq_pc s t) \<and> \<not> serves_push (bq_pc s t)" for t
    using only [of t] by (cases "bq_busy (bq_pc s t)") (auto dest: bq_role_busy)
  then have z: "at_pc (bq_pc s) serves_pop = 0" "at_pc (bq_pc s) serves_push = 0"
    by (auto intro: at_pc_zero)
  have full: "length (bq_q s) = cap" if "bq_pc s t = BPush_Wait v" for t v
  proof -
    have "\<exists>t. wake_producer (bq_pc s t) \<noteq> None" using that by (intro exI [of _ t]) simp
    with sig z(2) cap bq_facts [OF inv] show ?thesis by (auto simp: bq_signals_def)
  qed
  have empty: "bq_q s = []" if "bq_pc s t = BPop_Wait" for t
  proof -
    have "\<exists>t. wake_consumer (bq_pc s t) \<noteq> None" using that by (intro exI [of _ t]) simp
    with sig z(1) show ?thesis by (auto simp: bq_signals_def)
  qed
  show ?thesis
  proof (cases "\<exists>t. bq_pc s t = BPop_Wait")
    case True
    then have e: "bq_q s = []" using empty by blast
    with full assms(1) have "bq_pc s t \<noteq> BPush_Wait v" for t v by fastforce
    with only have "bq_busy (bq_pc s t) \<Longrightarrow> bq_pc s t = BPop_Wait" for t by blast
    with e show ?thesis by simp
  next
    case False
    then have p: "bq_busy (bq_pc s t) \<Longrightarrow> \<exists>v. bq_pc s t = BPush_Wait v" for t using only by blast
    show ?thesis
    proof (cases "\<exists>u. bq_busy (bq_pc s u)")
      case True
      with p full have "length (bq_q s) = cap" by metis
      with p show ?thesis by simp
    qed simp
  qed
qed

text \<open>C13. However the threads interleave and whichever waiting thread a signal wakes, spurious
  wake-ups included, values are taken out in the order they were put in, each once; the queue
  holds exactly the rest and never more than its capacity, and \<open>front\<close> is never called on an empty
  queue. And no wake-up is lost: in a state in which no thread inside a call can go on, either all
  of them are producers asleep in front of a full queue, or all are consumers asleep in front of an
  empty one.\<close>

theorem block_queue_fifo:
  assumes "0 < cap" "bq_step\<^sup>*\<^sup>* (BlockQueue_new cap) s"
  shows "bq_pushed s = bq_popped s @ bq_q s \<and> length (bq_q s) \<le> cap \<and>
    bq_pop_step t w (bq_pc s t) s \<noteq> Crash e \<and>
    ((\<forall>t. bq_busy (bq_pc s t) \<longrightarrow> bq_next t w s = Blocked) \<longrightarrow>
      (\<forall>t. bq_busy (bq_pc s t) \<longrightarrow> (\<exists>v. bq_pc s t = BPush_Wait v)) \<and> length (bq_q s) = cap \<or>
      (\<forall>t. bq_busy (bq_pc s t) \<longrightarrow> bq_pc s t = BPop_Wait) \<and> bq_q s = [] \<or>
      (\<forall>t. \<not> bq_busy (bq_pc s t)))"
proof -
  have inv: "bq_inv s" using bq.reach_inv [OF assms(2) BlockQueue_new_inv [OF assms(1)]] .
  have "bq_cap s = cap" using bq.reach_cap [OF assms(2)] by (simp add: BlockQueue_new_def)
  moreover have "bq_pop_step t w (bq_pc s t) s \<noteq> Crash e"
    using bq_ok_at [OF inv, of t]
    by (cases "bq_pc s t") (auto simp: bq_lock_def split: list.splits)
  ultimately show ?thesis using bq.inv_split [OF inv] bq.inv_bound [OF inv] block_progress [OF assms, of w] by simp
qed

lemma block_queue_fifo_witness:
  "\<exists>s. bq_step\<^sup>*\<^sup>* (BlockQueue_new 1) s \<and> bq_popped s = [] \<and> bq_q s = [7 :: nat]"
proof -
  let ?s0 = "bq_goto 2 (BPush_Lock 7) (BlockQueue_new 1) :: nat bqueue"
  let ?s1 = "bq_goto 2 (BPush_Check 7) (?s0\<lparr>bq_mutex := Some 2\<rparr>)"
  let ?s2 = "bq_goto 2 (BPush_Enq 7) ?s1"
  let ?s3 = "bq_goto 2 BPush_Signal (?s2\<lparr>bq_q := [7], bq_pushed := [7]\<rparr>)"
  have "bq_step (BlockQueue_new 1) ?s0" by (rule bq_call_push) (simp add: BlockQueue_new_def)
  moreover have "bq_step ?s0 ?s1"
    by (rule bq_quiet_step [of 2]) (simp_all add: bq_next_def bq_lock_def BlockQueue_new_def)
  moreover have "bq_step ?s1 ?s2"
    by (rule bq_quiet_step [of 2]) (simp_all add: bq_next_def bq_isFull_def BlockQueue_new_def)
  moreover have "bq_step ?s2 ?s3"
    by (rule bq_quiet_step [of 2]) (simp_all add: bq_next_def BlockQueue_new_def)
  ultimately have r: "bq_step\<^sup>*\<^sup>* (BlockQueue_new 1) ?s3"
    by (meson converse_rtranclp_into_rtranclp r_into_rtranclp)
  have "bq_pushed ?s3 = bq_popped ?s3 @ bq_q ?s3"
    using block_queue_fifo [OF zero_less_one r] by blast
  moreover have "bq_pushed ?s3 = [7]" "bq_popped ?s3 = []" by (simp_all add: BlockQueue_new_def)
  ultimately show ?thesis using r by (intro exI [of _ ?s3] conjI) simp_all
qed

lemma block_empty_demo:
  "\<exists>s :: nat bqueue. bq_pc s 1 = BPop_Wait \<and> bq_q s = []"
proof -
  let ?s0 = "bq_goto 1 BPop_Lock (BlockQueue_new 1) :: nat bqueue"
  let ?s1 = "bq_goto 1 BPop_Check (?s0\<lparr>bq_mutex := Some 1\<rparr>)"
  let ?s2 = "bq_goto 1 BPop_Wait (?s1\<lparr>bq_mutex := None\<rparr>)"
  have "bq_step (BlockQueue_new 1) ?s0" by (rule bq_call_pop) (simp add: BlockQueue_new_def)
  moreover have "bq_step ?s0 ?s1"
    by (rule bq_quiet_step [of 1]) (simp_all add: bq_next_def bq_lock_def BlockQueue_new_def)
  moreover have "bq_step ?s1 ?s2"
    by (rule bq_quiet_step [of 1]) (simp_all add: bq_next_def bq_isEmpty_def BlockQueue_new_def)
  ultimately have r: "bq_step\<^sup>*\<^sup>* (BlockQueue_new 1) ?s2"
    by (meson converse_rtranclp_into_rtranclp r_into_rtranclp)
  have "\<forall>t. bq_busy (bq_pc ?s2 t) \<longrightarrow> bq_next t 1 ?s2 = Blocked"
    by (simp add: bq_next_def BlockQueue_new_def)
  note prog = block_progress [OF zero_less_one r this]
  have pc: "bq_pc ?s2 1 = BPop_Wait" by simp
  have "bq_busy (bq_pc ?s2 1)" "\<not> (\<exists>v. bq_pc ?s2 1 = BPush_Wait v)" by (simp_all add: pc)
  with prog have "bq_q ?s2 = []" by blast
  with pc show ?thesis by blast
qed

end
