(* ===== verification/ThreadPool.thy ===== *)
theory ThreadPool
  imports Channel
begin

text \<open>
  The thread pool of \<open>7.10/threadPool/thread_pool.hpp\<close> (version 4; \<open>7.19/tcp_socket\<close> and, without
  the singleton, \<open>7.9/threadPool\<close> have the same machine): a queue of tasks under one mutex and one
  condition variable, worker threads that wait, take a task, release the mutex and run it, and
  the double-checked creation of the only instance in \<open>get_instance\<close>. Threads \<open>0 .. cap - 1\<close> are
  the workers, the others are clients. The histories are never read by the code.
\<close>

section \<open>State and steps\<close>

datatype 'a tp_pc =
    Tp_Off | Tp_Idle | Tp_Has
  | Gi_Check | Gi_Lock | Gi_Check2 | Gi_New | Gi_Init | Gi_Start nat | Gi_Unlock
  | Pt_Lock 'a | Pt_Enq 'a | Pt_Signal | Pt_Unlock
  | W_Lock | W_Check | W_Wait | W_Relock | W_Pop | W_Unlock 'a | W_Run 'a

record 'a pool =
  tp_tasks :: "'a list"
  tp_thread_cap :: nat
  tp_threads :: nat
  tp_mtx :: "nat option"
  tp_instance :: bool
  tp_static_mtx :: "nat option"
  tp_pc :: "nat \<Rightarrow> 'a tp_pc"
  tp_made :: nat
  tp_pushed :: "'a list"
  tp_taken :: "'a list"
  tp_executed :: "'a list"

text \<open>Before the first call: \<open>_instance\<close> is null, no worker runs.\<close>

definition pool_initial :: "nat \<Rightarrow> 'a pool" where
  "pool_initial cap =
     \<lparr>tp_tasks = [], tp_thread_cap = cap, tp_threads = 0, tp_mtx = None, tp_instance = False,
      tp_static_mtx = None, tp_pc = (\<lambda>t. if t < cap then Tp_Off else Tp_Idle), tp_made = 0,
      tp_pushed = [], tp_taken = [], tp_executed = []\<rparr>"

definition tp_goto :: "nat \<Rightarrow> 'a tp_pc \<Rightarrow> 'a pool \<Rightarrow> 'a pool" where
  "tp_goto t p s = s\<lparr>tp_pc := (tp_pc s)(t := p)\<rparr>"

definition tp_isEmpty :: "'a pool \<Rightarrow> bool" where
  "tp_isEmpty s \<longleftrightarrow> tp_tasks s = []"

text \<open>\<open>LockGuard\<close>: the constructor locks, the destructor unlocks at the end of the block.\<close>

definition guard_lock :: "nat \<Rightarrow> 'a tp_pc \<Rightarrow> 'a pool \<Rightarrow> 'a pool outcome" where
  "guard_lock t p s = (if tp_mtx s = None then Done (tp_goto t p (s\<lparr>tp_mtx := Some t\<rparr>)) else Blocked)"

definition guard_unlock :: "nat \<Rightarrow> 'a tp_pc \<Rightarrow> 'a pool \<Rightarrow> 'a pool outcome" where
  "guard_unlock t p s = Done (tp_goto t p (s\<lparr>tp_mtx := None\<rparr>))"

text \<open>\<open>threadWakeup\<close>; \<open>w\<close> is the waiting worker that the signal wakes, if any waits.\<close>

definition threadWakeup :: "nat \<Rightarrow> 'a pool \<Rightarrow> 'a pool" where
  "threadWakeup w s = (case tp_pc s w of W_Wait \<Rightarrow> tp_goto w W_Relock s | _ \<Rightarrow> s)"

fun instance_step :: "nat \<Rightarrow> 'a tp_pc \<Rightarrow> 'a pool \<Rightarrow> 'a pool outcome" where
  "instance_step t Gi_Check s = Done (tp_goto t (if tp_instance s then Tp_Has else Gi_Lock) s)"
| "instance_step t Gi_Lock s =
     (if tp_static_mtx s = None then Done (tp_goto t Gi_Check2 (s\<lparr>tp_static_mtx := Some t\<rparr>)) else Blocked)"
| "instance_step t Gi_Check2 s = Done (tp_goto t (if tp_instance s then Gi_Unlock else Gi_New) s)"
| "instance_step t Gi_New s =
     Done (tp_goto t Gi_Init (s\<lparr>tp_instance := True, tp_made := tp_made s + 1\<rparr>))"
| "instance_step t Gi_Init s = Done (tp_goto t (Gi_Start 0) (s\<lparr>tp_threads := tp_thread_cap s\<rparr>))"
| "instance_step t (Gi_Start i) s =
     (if i < tp_threads s then Done (tp_goto t (Gi_Start (Suc i)) (tp_goto i W_Lock s))
      else Done (tp_goto t Gi_Unlock s))"
| "instance_step t Gi_Unlock s = Done (tp_goto t Tp_Has (s\<lparr>tp_static_mtx := None\<rparr>))"
| "instance_step t _ s = Blocked"

fun pushTask_step :: "nat \<Rightarrow> nat \<Rightarrow> 'a tp_pc \<Rightarrow> 'a pool \<Rightarrow> 'a pool outcome" where
  "pushTask_step t w (Pt_Lock v) s = guard_lock t (Pt_Enq v) s"
| "pushTask_step t w (Pt_Enq v) s =
     Done (tp_goto t Pt_Signal (s\<lparr>tp_tasks := tp_tasks s @ [v], tp_pushed := tp_pushed s @ [v]\<rparr>))"
| "pushTask_step t w Pt_Signal s = Done (tp_goto t Pt_Unlock (threadWakeup w s))"
| "pushTask_step t w Pt_Unlock s = guard_unlock t Tp_Has s"
| "pushTask_step t w _ s = Blocked"

text \<open>\<open>popTask\<close>, called with the mutex held.\<close>

definition popTask :: "'a pool \<Rightarrow> ('a \<times> 'a pool) outcome" where
  "popTask s = (case tp_tasks s of
      [] \<Rightarrow> Crash OutOfBounds
    | v # q \<Rightarrow> Done (v, s\<lparr>tp_tasks := q, tp_taken := tp_taken s @ [v]\<rparr>))"

fun worker_step :: "nat \<Rightarrow> 'a tp_pc \<Rightarrow> 'a pool \<Rightarrow> 'a pool outcome" where
  "worker_step t W_Lock s = guard_lock t W_Check s"
| "worker_step t W_Check s =
     (if tp_isEmpty s then guard_unlock t W_Wait s else Done (tp_goto t W_Pop s))"
| "worker_step t W_Relock s = guard_lock t W_Check s"
| "worker_step t W_Pop s = bind_out (popTask s) (\<lambda>(v, s). Done (tp_goto t (W_Unlock v) s))"
| "worker_step t (W_Unlock v) s = guard_unlock t (W_Run v) s"
| "worker_step t (W_Run v) s = Done (tp_goto t W_Lock (s\<lparr>tp_executed := tp_executed s @ [v]\<rparr>))"
| "worker_step t _ s = Blocked"

definition wakeup_ok :: "nat \<Rightarrow> 'a pool \<Rightarrow> bool" where
  "wakeup_ok w s \<longleftrightarrow> tp_pc s w = W_Wait \<or> (\<forall>u. tp_pc s u \<noteq> W_Wait)"

inductive pool_step :: "'a pool \<Rightarrow> 'a pool \<Rightarrow> bool" where
  pool_call_get: "tp_pc s t = Tp_Idle \<or> tp_pc s t = Tp_Has \<Longrightarrow> pool_step s (tp_goto t Gi_Check s)"
| pool_call_push: "tp_pc s t = Tp_Has \<Longrightarrow> pool_step s (tp_goto t (Pt_Lock v) s)"
| pool_run_get: "instance_step t (tp_pc s t) s = Done s' \<Longrightarrow> pool_step s s'"
| pool_run_push: "pushTask_step t w (tp_pc s t) s = Done s' \<Longrightarrow> wakeup_ok w s \<Longrightarrow> pool_step s s'"
| pool_run_worker: "worker_step t (tp_pc s t) s = Done s' \<Longrightarrow> pool_step s s'"
| pool_spurious: "tp_pc s t = W_Wait \<Longrightarrow> pool_step s (tp_goto t W_Relock s)"

section \<open>Invariant\<close>

fun tp_holds :: "'a tp_pc \<Rightarrow> bool" where
  "tp_holds (Pt_Enq v) = True" | "tp_holds Pt_Signal = True" | "tp_holds Pt_Unlock = True"
| "tp_holds W_Check = True" | "tp_holds W_Pop = True" | "tp_holds (W_Unlock v) = True"
| "tp_holds _ = False"

fun tp_static_holds :: "'a tp_pc \<Rightarrow> bool" where
  "tp_static_holds Gi_Check2 = True" | "tp_static_holds Gi_New = True"
| "tp_static_holds Gi_Init = True" | "tp_static_holds (Gi_Start i) = True"
| "tp_static_holds Gi_Unlock = True" | "tp_static_holds _ = False"

text \<open>Threads that will look at the queue without being woken, or will wake a worker.\<close>

fun tp_serves :: "'a tp_pc \<Rightarrow> bool" where
  "tp_serves W_Relock = True" | "tp_serves W_Check = True" | "tp_serves W_Pop = True"
| "tp_serves Pt_Signal = True" | "tp_serves _ = False"

fun is_worker :: "'a tp_pc \<Rightarrow> bool" where
  "is_worker W_Lock = True" | "is_worker W_Check = True" | "is_worker W_Wait = True"
| "is_worker W_Relock = True" | "is_worker W_Pop = True" | "is_worker (W_Unlock v) = True"
| "is_worker (W_Run v) = True" | "is_worker _ = False"

fun in_hand :: "'a tp_pc \<Rightarrow> 'a list" where
  "in_hand (W_Unlock v) = [v]" | "in_hand (W_Run v) = [v]" | "in_hand _ = []"

definition tp_busy :: "'a tp_pc \<Rightarrow> bool" where
  "tp_busy p \<longleftrightarrow> p \<notin> {Tp_Off, Tp_Idle, Tp_Has}"

definition starting :: "'a tp_pc \<Rightarrow> bool" where
  "starting p \<longleftrightarrow> p = Gi_New \<or> p = Gi_Init \<or> (\<exists>i. p = Gi_Start i)"

fun has_instance :: "'a tp_pc \<Rightarrow> bool" where
  "has_instance Tp_Off = False" | "has_instance Tp_Idle = False" | "has_instance Gi_Check = False"
| "has_instance Gi_Lock = False" | "has_instance Gi_Check2 = False" | "has_instance Gi_New = False"
| "has_instance _ = True"

definition pool_locks :: "'a pool \<Rightarrow> bool" where
  "pool_locks s \<longleftrightarrow> finite {t. tp_busy (tp_pc s t)} \<and>
     (\<forall>t. tp_holds (tp_pc s t) \<longleftrightarrow> tp_mtx s = Some t) \<and>
     (\<forall>t. tp_static_holds (tp_pc s t) \<longleftrightarrow> tp_static_mtx s = Some t)"

text \<open>The start-up: who may exist at which point of it.\<close>

definition pool_phase :: "'a pool \<Rightarrow> bool" where
  "pool_phase s \<longleftrightarrow>
     tp_made s = (if tp_instance s then 1 else 0) \<and>
     (\<forall>t. t < tp_thread_cap s \<longleftrightarrow> is_worker (tp_pc s t) \<or> tp_pc s t = Tp_Off) \<and>
     (\<forall>t. has_instance (tp_pc s t) \<longrightarrow> tp_instance s) \<and>
     (\<forall>t. tp_pc s t = Gi_New \<longrightarrow> \<not> tp_instance s) \<and>
     (\<forall>t. tp_pc s t = Gi_Init \<longrightarrow> (\<forall>j < tp_thread_cap s. tp_pc s j = Tp_Off)) \<and>
     (\<forall>t i. tp_pc s t = Gi_Start i \<longrightarrow> tp_threads s = tp_thread_cap s \<and> i \<le> tp_thread_cap s \<and>
        (\<forall>j < tp_thread_cap s. if j < i then is_worker (tp_pc s j) else tp_pc s j = Tp_Off)) \<and>
     (tp_instance s \<longrightarrow> (\<exists>t. starting (tp_pc s t)) \<or> (\<forall>j < tp_thread_cap s. is_worker (tp_pc s j)))"

definition pool_data :: "'a pool \<Rightarrow> bool" where
  "pool_data s \<longleftrightarrow> tp_pushed s = tp_taken s @ tp_tasks s \<and>
     (\<forall>t. tp_pc s t = W_Pop \<longrightarrow> tp_tasks s \<noteq> []) \<and>
     (\<forall>v. count (mset (tp_taken s)) v =
        count (mset (tp_executed s)) v + at_pc (tp_pc s) (\<lambda>p. in_hand p = [v]))"

definition pool_signals :: "'a pool \<Rightarrow> bool" where
  "pool_signals s \<longleftrightarrow> ((\<exists>t. tp_pc s t = W_Wait) \<longrightarrow> length (tp_tasks s) \<le> at_pc (tp_pc s) tp_serves)"

definition pool_inv :: "'a pool \<Rightarrow> bool" where
  "pool_inv s \<longleftrightarrow> pool_locks s \<and> pool_phase s \<and> pool_data s \<and> pool_signals s"

lemma tp_goto_sel [simp]:
  "tp_pc (tp_goto t p s) = (tp_pc s)(t := p)" "tp_tasks (tp_goto t p s) = tp_tasks s"
  "tp_thread_cap (tp_goto t p s) = tp_thread_cap s" "tp_threads (tp_goto t p s) = tp_threads s"
  "tp_mtx (tp_goto t p s) = tp_mtx s" "tp_instance (tp_goto t p s) = tp_instance s"
  "tp_static_mtx (tp_goto t p s) = tp_static_mtx s" "tp_made (tp_goto t p s) = tp_made s"
  "tp_pushed (tp_goto t p s) = tp_pushed s" "tp_taken (tp_goto t p s) = tp_taken s"
  "tp_executed (tp_goto t p s) = tp_executed s"
  by (simp_all add: tp_goto_def)

lemma tp_finite_update:
  "finite {t. tp_busy (f t)} \<Longrightarrow> finite {u. tp_busy ((f(t := q)) u)}"
  by (rule finite_pc_update)

lemma tp_role_busy: "tp_serves p \<Longrightarrow> tp_busy p" "in_hand p = [v] \<Longrightarrow> tp_busy p"
  by (cases p; simp add: tp_busy_def)+

lemma pool_locks_move:
  assumes "pool_locks s" "tp_pc s' = (tp_pc s)(t := q)"
    and "tp_mtx s' = (if tp_holds q then Some t else if tp_holds (tp_pc s t) then None else tp_mtx s)"
    and "tp_static_mtx s' = (if tp_static_holds q then Some t
      else if tp_static_holds (tp_pc s t) then None else tp_static_mtx s)"
    and "tp_holds q \<Longrightarrow> \<not> tp_holds (tp_pc s t) \<Longrightarrow> tp_mtx s = None"
    and "tp_static_holds q \<Longrightarrow> \<not> tp_static_holds (tp_pc s t) \<Longrightarrow> tp_static_mtx s = None"
  shows "pool_locks s'"
proof -
  have h: "tp_holds (tp_pc s u) \<longleftrightarrow> tp_mtx s = Some u"
    "tp_static_holds (tp_pc s u) \<longleftrightarrow> tp_static_mtx s = Some u" for u
    using assms(1) by (simp_all add: pool_locks_def)
  have "tp_holds (tp_pc s' u) \<longleftrightarrow> tp_mtx s' = Some u" for u
    using assms(2,3,5) h(1) [of u] h(1) [of t] by (cases "u = t") (auto split: if_splits)
  moreover have "tp_static_holds (tp_pc s' u) \<longleftrightarrow> tp_static_mtx s' = Some u" for u
    using assms(2,4,6) h(2) [of u] h(2) [of t] by (cases "u = t") (auto split: if_splits)
  moreover have "finite {u. tp_busy (tp_pc s' u)}"
    using assms(1,2) tp_finite_update [of "tp_pc s" t q] by (simp add: pool_locks_def)
  ultimately show ?thesis by (simp add: pool_locks_def)
qed

lemma pool_phase_move:
  assumes "pool_phase s" "tp_pc s' = (tp_pc s)(t := q)" "tp_instance s' = tp_instance s"
    "tp_made s' = tp_made s" "tp_threads s' = tp_threads s" "tp_thread_cap s' = tp_thread_cap s"
    and "is_worker q = is_worker (tp_pc s t)" "tp_pc s t \<noteq> Tp_Off" "q \<noteq> Tp_Off"
    and "\<not> starting (tp_pc s t)" "\<not> starting q" "has_instance q \<Longrightarrow> tp_instance s"
  shows "pool_phase s'"
proof -
  have w: "is_worker (tp_pc s' u) = is_worker (tp_pc s u)" "(tp_pc s' u = Tp_Off) = (tp_pc s u = Tp_Off)" for u
    using assms(2,7-9) by auto
  have g: "starting (tp_pc s' u) \<Longrightarrow> tp_pc s' u = tp_pc s u" "starting (tp_pc s u) \<Longrightarrow> tp_pc s' u = tp_pc s u" for u
    using assms(2,10,11) by (auto split: if_splits)
  have n: "tp_pc s' u = Gi_New \<Longrightarrow> tp_pc s u = Gi_New" "tp_pc s' u = Gi_Init \<Longrightarrow> tp_pc s u = Gi_Init"
    "tp_pc s' u = Gi_Start i \<Longrightarrow> tp_pc s u = Gi_Start i" for u i
    using g(1) [of u] by (simp_all add: starting_def)
  have hi: "has_instance (tp_pc s u) \<Longrightarrow> tp_instance s" for u
    using assms(1) unfolding pool_phase_def by blast
  have "has_instance (tp_pc s' u) \<Longrightarrow> tp_instance s" for u
    using assms(2,12) hi [of u] by (cases "u = t") simp_all
  moreover have "(\<exists>u. starting (tp_pc s u)) \<Longrightarrow> (\<exists>u. starting (tp_pc s' u))"
    using g(2) by metis
  ultimately show ?thesis
    using assms(1) n unfolding pool_phase_def w assms(3-6) by blast
qed

lemma pool_data_move:
  assumes "pool_data s" "pool_locks s" "tp_pc s' = (tp_pc s)(t := q)" "tp_tasks s' = tp_tasks s"
    "tp_pushed s' = tp_pushed s" "tp_taken s' = tp_taken s" "tp_executed s' = tp_executed s"
    and "in_hand q = in_hand (tp_pc s t)" "q = W_Pop \<Longrightarrow> tp_tasks s \<noteq> []"
  shows "pool_data s'"
proof -
  have "{u. in_hand (tp_pc s' u) = [v]} = {u. in_hand (tp_pc s u) = [v]}" for v
    using assms(3,8) by auto
  then have "at_pc (tp_pc s') (\<lambda>p. in_hand p = [v]) = at_pc (tp_pc s) (\<lambda>p. in_hand p = [v])" for v
    by (simp add: at_pc_def)
  with assms show ?thesis by (auto simp: pool_data_def split: if_splits)
qed

lemma tp_serves_move:
  assumes "finite {t. tp_busy (f t)}"
  shows "at_pc (f(t := q)) tp_serves =
      at_pc f tp_serves + (if tp_serves q then 1 else 0) - (if tp_serves (f t) then 1 else 0)"
    and "tp_serves (f t) \<Longrightarrow> 0 < at_pc f tp_serves"
proof -
  have "finite {t. tp_serves (f t)}" by (rule finite_subset [OF _ assms]) (auto dest: tp_role_busy)
  then show "at_pc (f(t := q)) tp_serves =
      at_pc f tp_serves + (if tp_serves q then 1 else 0) - (if tp_serves (f t) then 1 else 0)"
    and "tp_serves (f t) \<Longrightarrow> 0 < at_pc f tp_serves"
    by (simp_all only: at_pc_move) (auto intro: at_pc_pos [where f = f and t = t])
qed

lemma pool_signals_move:
  assumes "pool_signals s" "pool_locks s" "tp_pc s' = (tp_pc s)(t := q)"
    and "q = W_Wait \<Longrightarrow> tp_tasks s' = []"
    and "length (tp_tasks s') + (if tp_serves (tp_pc s t) then 1 else 0)
      \<le> length (tp_tasks s) + (if tp_serves q then 1 else 0) \<or> tp_tasks s' = []"
  shows "pool_signals s'"
proof -
  have fin: "finite {t. tp_busy (tp_pc s t)}" using assms(2) by (simp add: pool_locks_def)
  have "length (tp_tasks s') \<le> at_pc ((tp_pc s)(t := q)) tp_serves"
    if "((tp_pc s)(t := q)) u = W_Wait" for u
  proof (cases "tp_tasks s' = []")
    case False
    with assms(4) that have "tp_pc s u = W_Wait" by (auto split: if_splits)
    with assms(1) have "length (tp_tasks s) \<le> at_pc (tp_pc s) tp_serves" by (auto simp: pool_signals_def)
    with assms(5) False tp_serves_move [OF fin, of t] show ?thesis by (auto split: if_splits)
  qed simp
  then show ?thesis unfolding pool_signals_def assms(3) by blast
qed


lemma hands_move:
  assumes "finite {t. tp_busy (f t)}"
  shows "at_pc (f(t := q)) (\<lambda>p. in_hand p = [v]) =
      at_pc f (\<lambda>p. in_hand p = [v]) + (if in_hand q = [v] then 1 else 0)
        - (if in_hand (f t) = [v] then 1 else 0)"
    and "in_hand (f t) = [v] \<Longrightarrow> 0 < at_pc f (\<lambda>p. in_hand p = [v])"
proof -
  have "finite {t. in_hand (f t) = [v]}" by (rule finite_subset [OF _ assms]) (auto dest: tp_role_busy)
  then show "at_pc (f(t := q)) (\<lambda>p. in_hand p = [v]) =
      at_pc f (\<lambda>p. in_hand p = [v]) + (if in_hand q = [v] then 1 else 0)
        - (if in_hand (f t) = [v] then 1 else 0)"
    and "in_hand (f t) = [v] \<Longrightarrow> 0 < at_pc f (\<lambda>p. in_hand p = [v])"
    using at_pc_move [where P = "\<lambda>p. in_hand p = [v]" and f = f and t = t and v = q]
      at_pc_pos [where f = f and t = t and P = "\<lambda>p. in_hand p = [v]"] by simp_all
qed

lemma pool_data_hand:
  assumes "pool_data s" "pool_locks s" "tp_pc s' = (tp_pc s)(t := q)"
    and "tp_pushed s' = tp_taken s' @ tp_tasks s'"
    and "\<forall>u. u \<noteq> t \<longrightarrow> tp_pc s u = W_Pop \<longrightarrow> tp_tasks s' \<noteq> []" "q \<noteq> W_Pop"
    and "\<forall>v. count (mset (tp_taken s')) v + count (mset (tp_executed s)) v
        + count (mset (in_hand (tp_pc s t))) v
      = count (mset (tp_taken s)) v + count (mset (tp_executed s')) v + count (mset (in_hand q)) v"
  shows "pool_data s'"
proof -
  have fin: "finite {t. tp_busy (tp_pc s t)}" using assms(2) by (simp add: pool_locks_def)
  have one: "count (mset (in_hand p)) v = (if in_hand p = [v] then 1 else 0)" for p :: "'a tp_pc" and v
    by (cases p) auto
  have old: "count (mset (tp_taken s)) v =
        count (mset (tp_executed s)) v + at_pc (tp_pc s) (\<lambda>p. in_hand p = [v])" for v
    using assms(1) by (simp add: pool_data_def)
  have "count (mset (tp_taken s')) v =
        count (mset (tp_executed s')) v + at_pc (tp_pc s') (\<lambda>p. in_hand p = [v])" for v
    using assms(7) [rule_format, of v] old [of v] hands_move [OF fin, of t] one assms(3)
    by (auto split: if_splits)
  moreover have "tp_pc s' u = W_Pop \<Longrightarrow> tp_tasks s' \<noteq> []" for u
    using assms(3,5,6) by (auto split: if_splits)
  ultimately show ?thesis using assms(4) by (simp add: pool_data_def)
qed

text \<open>The mutex and the static mutex admit one thread each.\<close>

lemma pool_unique:
  assumes "pool_locks s"
  shows "tp_holds (tp_pc s t) \<Longrightarrow> tp_holds (tp_pc s u) \<Longrightarrow> t = u"
    and "tp_static_holds (tp_pc s t) \<Longrightarrow> tp_static_holds (tp_pc s u) \<Longrightarrow> t = u"
  using assms unfolding pool_locks_def by (metis option.inject)+

lemma starting_holds: "starting p \<Longrightarrow> tp_static_holds p"
  by (auto simp: starting_def)

text \<open>The four statements that change the phase of the start-up.\<close>

lemma pool_phase_facts:
  assumes "pool_phase s"
  shows "tp_made s = (if tp_instance s then 1 else 0)"
    and "t < tp_thread_cap s \<longleftrightarrow> is_worker (tp_pc s t) \<or> tp_pc s t = Tp_Off"
    and "has_instance (tp_pc s t) \<Longrightarrow> tp_instance s"
    and "tp_pc s t = Gi_New \<Longrightarrow> \<not> tp_instance s"
    and "tp_pc s t = Gi_Init \<Longrightarrow> j < tp_thread_cap s \<Longrightarrow> tp_pc s j = Tp_Off"
    and "tp_pc s t = Gi_Start i \<Longrightarrow> tp_threads s = tp_thread_cap s \<and> i \<le> tp_thread_cap s"
    and "tp_pc s t = Gi_Start i \<Longrightarrow> j < i \<Longrightarrow> is_worker (tp_pc s j)"
    and "tp_pc s t = Gi_Start i \<Longrightarrow> i \<le> j \<Longrightarrow> j < tp_thread_cap s \<Longrightarrow> tp_pc s j = Tp_Off"
    and "tp_instance s \<Longrightarrow> (\<exists>t. starting (tp_pc s t)) \<or> (\<forall>j < tp_thread_cap s. is_worker (tp_pc s j))"
proof -
  note f = assms [unfolded pool_phase_def]
  show "tp_made s = (if tp_instance s then 1 else 0)"
    "t < tp_thread_cap s \<longleftrightarrow> is_worker (tp_pc s t) \<or> tp_pc s t = Tp_Off"
    "has_instance (tp_pc s t) \<Longrightarrow> tp_instance s"
    "tp_pc s t = Gi_New \<Longrightarrow> \<not> tp_instance s"
    "tp_pc s t = Gi_Init \<Longrightarrow> j < tp_thread_cap s \<Longrightarrow> tp_pc s j = Tp_Off"
    "tp_pc s t = Gi_Start i \<Longrightarrow> tp_threads s = tp_thread_cap s \<and> i \<le> tp_thread_cap s"
    "tp_instance s \<Longrightarrow> (\<exists>t. starting (tp_pc s t)) \<or> (\<forall>j < tp_thread_cap s. is_worker (tp_pc s j))"
    using f by blast+
  show "is_worker (tp_pc s j)" if "tp_pc s t = Gi_Start i" "j < i"
  proof -
    have "j < tp_thread_cap s" "\<forall>j < tp_thread_cap s. if j < i then is_worker (tp_pc s j) else tp_pc s j = Tp_Off"
      using f that by (meson order_less_le_trans)+
    with that(2) show ?thesis by metis
  qed
  show "tp_pc s j = Tp_Off" if "tp_pc s t = Gi_Start i" "i \<le> j" "j < tp_thread_cap s"
  proof -
    have "\<forall>j < tp_thread_cap s. if j < i then is_worker (tp_pc s j) else tp_pc s j = Tp_Off"
      using f that(1) by meson
    with that(2,3) show ?thesis by (metis linorder_not_less)
  qed
qed


lemma pool_phase_at:
  assumes "\<And>u. u \<noteq> t \<Longrightarrow> \<not> starting (tp_pc s u)"
    and "tp_made s = (if tp_instance s then 1 else 0)"
    and "\<And>u. u < tp_thread_cap s \<longleftrightarrow> is_worker (tp_pc s u) \<or> tp_pc s u = Tp_Off"
    and "\<And>u. has_instance (tp_pc s u) \<Longrightarrow> tp_instance s"
    and "tp_pc s t = Gi_New \<Longrightarrow> \<not> tp_instance s"
    and "\<And>j. tp_pc s t = Gi_Init \<Longrightarrow> j < tp_thread_cap s \<Longrightarrow> tp_pc s j = Tp_Off"
    and "\<And>i. tp_pc s t = Gi_Start i \<Longrightarrow> tp_threads s = tp_thread_cap s \<and> i \<le> tp_thread_cap s"
    and "\<And>i j. tp_pc s t = Gi_Start i \<Longrightarrow> j < tp_thread_cap s \<Longrightarrow>
        if j < i then is_worker (tp_pc s j) else tp_pc s j = Tp_Off"
    and "tp_instance s \<Longrightarrow> starting (tp_pc s t) \<or> (\<forall>j < tp_thread_cap s. is_worker (tp_pc s j))"
  shows "pool_phase s"
proof -
  have t: "tp_pc s u = Gi_New \<Longrightarrow> u = t" "tp_pc s u = Gi_Init \<Longrightarrow> u = t" "tp_pc s u = Gi_Start i \<Longrightarrow> u = t" for u i
    using assms(1) [of u] by (auto simp: starting_def)
  show ?thesis
    unfolding pool_phase_def
  proof (intro conjI)
    show "\<forall>u. tp_pc s u = Gi_New \<longrightarrow> \<not> tp_instance s"
      "\<forall>u. tp_pc s u = Gi_Init \<longrightarrow> (\<forall>j < tp_thread_cap s. tp_pc s j = Tp_Off)"
      using t(1,2) assms(5,6) by metis+
    show "\<forall>u i. tp_pc s u = Gi_Start i \<longrightarrow> tp_threads s = tp_thread_cap s \<and> i \<le> tp_thread_cap s \<and>
        (\<forall>j < tp_thread_cap s. if j < i then is_worker (tp_pc s j) else tp_pc s j = Tp_Off)"
      using t(3) assms(7,8) by metis
  qed (use assms(2-4,9) in blast)+
qed

lemma pool_phase_step:
  assumes step: "instance_step t (tp_pc s t) s = Done s'" and ph: "pool_phase s" and lk: "pool_locks s"
    and st: "starting (tp_pc s t) \<or> tp_pc s t = Gi_Check2 \<and> \<not> tp_instance s"
  shows "pool_phase s'"
proof -
  note f = pool_phase_facts [OF ph]
  have hold: "tp_static_holds (tp_pc s t)" using st by (auto simp: starting_def)
  then have only: "u \<noteq> t \<Longrightarrow> \<not> starting (tp_pc s u)" for u
    using pool_unique(2) [OF lk, of u t] starting_holds by blast
  have t: "\<not> t < tp_thread_cap s" using f(2) [of t] st by (auto simp: starting_def)
  have t1: "t < tp_thread_cap s \<longleftrightarrow> is_worker (tp_pc s t) \<or> tp_pc s t = Tp_Off" by (rule f(2))
  show ?thesis
  proof (cases "tp_pc s t")
    case Gi_Check2
    with step st have s': "s' = tp_goto t Gi_New s" "\<not> tp_instance s" by (auto simp: starting_def)
    show ?thesis
    proof (rule pool_phase_at [where t = t])
      show "u \<noteq> t \<Longrightarrow> \<not> starting (tp_pc s' u)" for u using only [of u] s' by simp
      show "u < tp_thread_cap s' \<longleftrightarrow> is_worker (tp_pc s' u) \<or> tp_pc s' u = Tp_Off" for u
        using f(2) [of u] s' t by (cases "u = t") simp_all
      show "has_instance (tp_pc s' u) \<Longrightarrow> tp_instance s'" for u
        using f(3) [of u] s' by (cases "u = t") simp_all
    qed (use s' f(1) in simp_all)
  next
    case Gi_New
    with step have s': "s' = tp_goto t Gi_Init (s\<lparr>tp_instance := True, tp_made := tp_made s + 1\<rparr>)"
      by simp
    have no: "\<not> tp_instance s" using f(4) Gi_New by blast
    then have "tp_pc s j = Tp_Off" if "j < tp_thread_cap s" for j
      using f(2) [of j] f(3) [of j] that by (cases "tp_pc s j") auto
    note off = this
    show ?thesis
    proof (rule pool_phase_at [where t = t])
      show "u \<noteq> t \<Longrightarrow> \<not> starting (tp_pc s' u)" for u using only [of u] s' by simp
      show "u < tp_thread_cap s' \<longleftrightarrow> is_worker (tp_pc s' u) \<or> tp_pc s' u = Tp_Off" for u
        using f(2) [of u] s' t by (cases "u = t") simp_all
      show "tp_pc s' t = Gi_Init \<Longrightarrow> j < tp_thread_cap s' \<Longrightarrow> tp_pc s' j = Tp_Off" for j
        using off [of j] s' t by (cases "j = t") simp_all
    qed (use s' f(1) no in \<open>simp_all add: starting_def\<close>)
  next
    case Gi_Init
    with step have s': "s' = tp_goto t (Gi_Start 0) (s\<lparr>tp_threads := tp_thread_cap s\<rparr>)" by simp
    have "tp_instance s" using f(3) [of t] Gi_Init by simp
    note inst = this
    show ?thesis
    proof (rule pool_phase_at [where t = t])
      show "u \<noteq> t \<Longrightarrow> \<not> starting (tp_pc s' u)" for u using only [of u] s' by simp
      show "u < tp_thread_cap s' \<longleftrightarrow> is_worker (tp_pc s' u) \<or> tp_pc s' u = Tp_Off" for u
        using f(2) [of u] s' t by (cases "u = t") simp_all
      show "if j < k then is_worker (tp_pc s' j) else tp_pc s' j = Tp_Off"
        if "tp_pc s' t = Gi_Start k" "j < tp_thread_cap s'" for k j
        using that f(5) [OF Gi_Init, of j] s' t by (cases "j = t") simp_all
    qed (use s' f(1) inst in \<open>simp_all add: starting_def\<close>)
  next
    case (Gi_Start i)
    have th: "tp_threads s = tp_thread_cap s" "i \<le> tp_thread_cap s" using f(6) Gi_Start by blast+
    have inst: "tp_instance s" using f(3) [of t] Gi_Start by simp
    show ?thesis
    proof (cases "i < tp_threads s")
      case True
      with Gi_Start step have s': "s' = tp_goto t (Gi_Start (Suc i)) (tp_goto i W_Lock s)" by simp
      have it: "i \<noteq> t" using t True th by auto
      have on: "j < i \<Longrightarrow> is_worker (tp_pc s j)" "i \<le> j \<Longrightarrow> j < tp_thread_cap s \<Longrightarrow> tp_pc s j = Tp_Off" for j
        using f(7,8) Gi_Start by blast+
      show ?thesis
      proof (rule pool_phase_at [where t = t])
        show "u \<noteq> t \<Longrightarrow> \<not> starting (tp_pc s' u)" for u
          using only [of u] s' by (auto simp: starting_def)
        show "u < tp_thread_cap s' \<longleftrightarrow> is_worker (tp_pc s' u) \<or> tp_pc s' u = Tp_Off" for u
          using f(2) [of u] s' t True th by auto
        show "if j < k then is_worker (tp_pc s' j) else tp_pc s' j = Tp_Off"
          if "tp_pc s' t = Gi_Start k" "j < tp_thread_cap s'" for k j
          using that s' on [of j] t it by (auto simp: less_Suc_eq)
      qed (use s' f(1) inst True th in \<open>auto simp: starting_def\<close>)
    next
      case False
      with Gi_Start step have s': "s' = tp_goto t Gi_Unlock s" by simp
      have "is_worker (tp_pc s j)" if "j < tp_thread_cap s" for j
        using f(7) Gi_Start that False th by (metis order_less_le_trans linorder_not_less)
      note on = this
      show ?thesis
      proof (rule pool_phase_at [where t = t])
        show "u \<noteq> t \<Longrightarrow> \<not> starting (tp_pc s' u)" for u using only [of u] s' by simp
        show "u < tp_thread_cap s' \<longleftrightarrow> is_worker (tp_pc s' u) \<or> tp_pc s' u = Tp_Off" for u
          using f(2) [of u] s' t by (cases "u = t") simp_all
        have "is_worker (tp_pc s' j)" if "j < tp_thread_cap s'" for j
          using on [of j] that s' t by (cases "j = t") simp_all
        then show "tp_instance s' \<Longrightarrow> starting (tp_pc s' t) \<or> (\<forall>j < tp_thread_cap s'. is_worker (tp_pc s' j))"
          by blast
      qed (use s' f(1) inst in \<open>simp_all add: starting_def\<close>)
    qed
  qed (use st in \<open>simp_all add: starting_def\<close>)
qed


lemma pool_inv_parts:
  "pool_inv s \<Longrightarrow> pool_locks s" "pool_inv s \<Longrightarrow> pool_phase s" "pool_inv s \<Longrightarrow> pool_data s"
  "pool_inv s \<Longrightarrow> pool_signals s"
  by (simp_all add: pool_inv_def)

text \<open>A move that touches neither the queue nor the histories nor the start-up.\<close>

lemma pool_plain_move:
  assumes inv: "pool_inv s" and pc: "tp_pc s' = (tp_pc s)(t := q)"
    and same: "tp_tasks s' = tp_tasks s" "tp_pushed s' = tp_pushed s" "tp_taken s' = tp_taken s"
      "tp_executed s' = tp_executed s" "tp_instance s' = tp_instance s" "tp_made s' = tp_made s"
      "tp_threads s' = tp_threads s" "tp_thread_cap s' = tp_thread_cap s"
    and mtx: "tp_mtx s' = (if tp_holds q then Some t else if tp_holds (tp_pc s t) then None else tp_mtx s)"
      "tp_static_mtx s' = (if tp_static_holds q then Some t
        else if tp_static_holds (tp_pc s t) then None else tp_static_mtx s)"
      "tp_holds q \<Longrightarrow> \<not> tp_holds (tp_pc s t) \<Longrightarrow> tp_mtx s = None"
      "tp_static_holds q \<Longrightarrow> \<not> tp_static_holds (tp_pc s t) \<Longrightarrow> tp_static_mtx s = None"
    and role: "is_worker q = is_worker (tp_pc s t)" "tp_pc s t \<noteq> Tp_Off" "q \<noteq> Tp_Off"
      "\<not> starting (tp_pc s t)" "\<not> starting q" "has_instance q \<Longrightarrow> tp_instance s"
      "in_hand q = in_hand (tp_pc s t)" "q = W_Pop \<Longrightarrow> tp_tasks s \<noteq> []"
      "q = W_Wait \<Longrightarrow> tp_tasks s = []"
      "tp_serves (tp_pc s t) \<Longrightarrow> tp_serves q \<or> tp_tasks s = []"
  shows "pool_inv s'"
  unfolding pool_inv_def
proof (intro conjI)
  note p = pool_inv_parts [OF inv]
  show "pool_locks s'" by (rule pool_locks_move [OF p(1) pc mtx])
  show "pool_phase s'" by (rule pool_phase_move [OF p(2) pc same(5-8) role(1-6)])
  show "pool_data s'" by (rule pool_data_move [OF p(3) p(1) pc same(1-4) role(7,8)])
  show "pool_signals s'"
    by (rule pool_signals_move [OF p(4) p(1) pc]) (use same(1) role(9,10) in auto)
qed

lemma pool_holder:
  "pool_inv s \<Longrightarrow> tp_holds (tp_pc s t) \<longleftrightarrow> tp_mtx s = Some t"
  "pool_inv s \<Longrightarrow> tp_static_holds (tp_pc s t) \<longleftrightarrow> tp_static_mtx s = Some t"
  by (simp_all add: pool_inv_def pool_locks_def)

lemma pool_wake_inv:
  assumes "pool_inv s" "tp_pc s t = W_Wait"
  shows "pool_inv (tp_goto t W_Relock s)"
  using assms(2) pool_phase_facts(3) [OF pool_inv_parts(2) [OF assms(1)], of t]
  by (intro pool_plain_move [OF assms(1), where t = t and q = W_Relock]) (simp_all add: starting_def)

lemma pool_call_inv:
  assumes "pool_inv s" "tp_pc s t = Tp_Has \<or> tp_pc s t = Tp_Idle \<and> q = Gi_Check"
    "q = Gi_Check \<or> q = Pt_Lock v"
  shows "pool_inv (tp_goto t q s)"
  using assms(2,3) pool_phase_facts(3) [OF pool_inv_parts(2) [OF assms(1)], of t]
  by (intro pool_plain_move [OF assms(1), where t = t and q = q]) (auto simp add: starting_def)

lemma pool_start_worker:
  assumes "pool_inv s" "tp_pc s t = Gi_Start i" "i < tp_threads s"
  shows "pool_inv (tp_goto t (Gi_Start (Suc i)) (tp_goto i W_Lock s))" (is "pool_inv ?s")
  unfolding pool_inv_def
proof (intro conjI)
  note p = pool_inv_parts [OF assms(1)]
  have cap: "i < tp_thread_cap s" using pool_phase_facts(6) [OF p(2) assms(2)] assms(3) by simp
  have off: "tp_pc s i = Tp_Off" using pool_phase_facts(8) [OF p(2) assms(2) order_refl cap] .
  have it: "i \<noteq> t" using off assms(2) by auto
  have hold: "tp_static_mtx s = Some t" "tp_mtx s \<noteq> Some t"
    using pool_holder [OF assms(1), of t] assms(2) by simp_all
  have l1: "pool_locks (tp_goto i W_Lock s)"
    by (rule pool_locks_move [OF p(1), where t = i and q = W_Lock]) (use off hold in simp_all)
  have d1: "pool_data (tp_goto i W_Lock s)"
    by (rule pool_data_move [OF p(3) p(1), where t = i and q = W_Lock]) (use off in simp_all)
  have s1: "pool_signals (tp_goto i W_Lock s)"
    by (rule pool_signals_move [OF p(4) p(1), where t = i and q = W_Lock]) (use off in simp_all)
  show "pool_locks ?s"
    by (rule pool_locks_move [OF l1, where t = t and q = "Gi_Start (Suc i)"]) (use assms(2) it hold in simp_all)
  show "pool_data ?s"
    by (rule pool_data_move [OF d1 l1, where t = t and q = "Gi_Start (Suc i)"]) (use assms(2) it in simp_all)
  show "pool_signals ?s"
    by (rule pool_signals_move [OF s1 l1, where t = t and q = "Gi_Start (Suc i)"]) (use assms(2) it in simp_all)
  show "pool_phase ?s"
    by (rule pool_phase_step [OF _ p(2) p(1), where t = t]) (use assms(2,3) in \<open>simp_all add: starting_def\<close>)
qed

lemma pool_instance_inv:
  assumes "instance_step t (tp_pc s t) s = Done s'" "pool_inv s"
  shows "pool_inv s'"
proof (cases "starting (tp_pc s t) \<or> tp_pc s t = Gi_Check2 \<and> \<not> tp_instance s")
  case False
  with assms(1) pool_holder [OF assms(2), of t] pool_phase_facts(3) [OF pool_inv_parts(2) [OF assms(2)], of t]
  show ?thesis
    by (cases "tp_pc s t")
      (auto simp: starting_def split: if_splits intro!: pool_plain_move [OF assms(2), where t = t])
next
  case True
  note p = pool_inv_parts [OF assms(2)]
  have ph: "pool_phase s'" by (rule pool_phase_step [OF assms(1) p(2) p(1) True])
  have hold: "tp_static_mtx s = Some t" "tp_mtx s \<noteq> Some t"
    using pool_holder [OF assms(2), of t] True by (auto simp: starting_def)
  show ?thesis
  proof (cases "\<exists>i. tp_pc s t = Gi_Start i \<and> i < tp_threads s")
    case True
    with assms pool_start_worker [OF assms(2)] show ?thesis by auto
  next
    case False
    with True assms(1) obtain q where q: "tp_pc s' = (tp_pc s)(t := q)" "tp_static_holds q" "\<not> tp_holds q"
      "in_hand q = []" "\<not> tp_serves q" "q \<noteq> W_Wait" "q \<noteq> W_Pop" "tp_tasks s' = tp_tasks s"
      "tp_pushed s' = tp_pushed s" "tp_taken s' = tp_taken s" "tp_executed s' = tp_executed s"
      "tp_mtx s' = tp_mtx s" "tp_static_mtx s' = tp_static_mtx s"
      by (cases "tp_pc s t") (auto simp: starting_def)
    have t: "in_hand (tp_pc s t) = []" "\<not> tp_serves (tp_pc s t)" "\<not> tp_holds (tp_pc s t)"
      "tp_static_holds (tp_pc s t)" using True by (auto simp: starting_def)
    have "pool_locks s'"
      by (rule pool_locks_move [OF p(1) q(1)]) (use q t hold in simp_all)
    moreover have "pool_data s'"
      by (rule pool_data_move [OF p(3) p(1) q(1)]) (use q t in simp_all)
    moreover have "pool_signals s'"
      by (rule pool_signals_move [OF p(4) p(1) q(1)]) (use q t in simp_all)
    ultimately show ?thesis using ph by (simp add: pool_inv_def)
  qed
qed


lemma pool_enq_inv:
  assumes "pool_inv s" "tp_pc s t = Pt_Enq v"
  shows "pool_inv (tp_goto t Pt_Signal (s\<lparr>tp_tasks := tp_tasks s @ [v], tp_pushed := tp_pushed s @ [v]\<rparr>))"
    (is "pool_inv ?s")
  unfolding pool_inv_def
proof (intro conjI)
  note p = pool_inv_parts [OF assms(1)] and h = pool_holder [OF assms(1), of t]
  show "pool_locks ?s"
    by (rule pool_locks_move [OF p(1), where t = t and q = Pt_Signal]) (use assms(2) h in simp_all)
  show "pool_phase ?s"
    by (rule pool_phase_move [OF p(2), where t = t and q = Pt_Signal])
      (use assms(2) pool_phase_facts(3) [OF p(2), of t] in \<open>simp_all add: starting_def\<close>)
  have "tp_pushed s = tp_taken s @ tp_tasks s" using p(3) by (simp add: pool_data_def)
  then show "pool_data ?s"
    by (intro pool_data_hand [OF p(3) p(1), where t = t and q = Pt_Signal]) (use assms(2) in simp_all)
  show "pool_signals ?s"
    by (rule pool_signals_move [OF p(4) p(1), where t = t and q = Pt_Signal]) (use assms(2) in simp_all)
qed

lemma pool_wakeup_inv:
  assumes "pool_inv s" "tp_pc s t = Pt_Signal" "wakeup_ok w s"
  shows "pool_inv (tp_goto t Pt_Unlock (threadWakeup w s))" (is "pool_inv ?s")
proof -
  define s1 where "s1 = threadWakeup w s"
  have i1: "pool_inv s1" using pool_wake_inv [OF assms(1), of w] assms(1)
    by (simp add: s1_def threadWakeup_def split: tp_pc.split)
  have pc1: "tp_pc s1 t = Pt_Signal" "tp_tasks s1 = tp_tasks s"
    using assms(2) by (auto simp: s1_def threadWakeup_def split: tp_pc.split)
  note p = pool_inv_parts [OF i1]
  have "pool_locks (tp_goto t Pt_Unlock s1)"
    by (rule pool_locks_move [OF p(1), where t = t and q = Pt_Unlock])
      (use pc1 pool_holder [OF i1, of t] in simp_all)
  moreover have "pool_phase (tp_goto t Pt_Unlock s1)"
    by (rule pool_phase_move [OF p(2), where t = t and q = Pt_Unlock])
      (use pc1 pool_phase_facts(3) [OF p(2), of t] in \<open>simp_all add: starting_def\<close>)
  moreover have "pool_data (tp_goto t Pt_Unlock s1)"
    by (rule pool_data_move [OF p(3) p(1), where t = t and q = Pt_Unlock]) (use pc1 in simp_all)
  moreover have "pool_signals (tp_goto t Pt_Unlock s1)"
  proof (cases "tp_pc s w = W_Wait")
    case True
    have fin: "finite {t. tp_busy (tp_pc s t)}" "finite {t. tp_busy (tp_pc s1 t)}"
      using pool_inv_parts(1) [OF assms(1)] p(1) by (simp_all add: pool_locks_def)
    have s1: "tp_pc s1 = (tp_pc s)(w := W_Relock)" using True by (simp add: s1_def threadWakeup_def)
    have "at_pc (tp_pc s1) tp_serves = at_pc (tp_pc s) tp_serves + 1"
      unfolding s1 using tp_serves_move(1) [OF fin(1), of w W_Relock] True by simp
    moreover have "at_pc ((tp_pc s1)(t := Pt_Unlock)) tp_serves = at_pc (tp_pc s1) tp_serves - 1"
      using tp_serves_move(1) [OF fin(2), of t Pt_Unlock] pc1(1) by simp
    moreover have "length (tp_tasks s) \<le> at_pc (tp_pc s) tp_serves"
      using pool_inv_parts(4) [OF assms(1)] True by (auto simp: pool_signals_def)
    ultimately show ?thesis by (simp add: pool_signals_def pc1(2))
  next
    case False
    then have "\<forall>u. tp_pc s u \<noteq> W_Wait" "s1 = s"
      using assms(3) by (auto simp: wakeup_ok_def s1_def threadWakeup_def split: tp_pc.split)
    then show ?thesis by (auto simp: pool_signals_def split: if_splits)
  qed
  ultimately show ?thesis by (simp add: pool_inv_def s1_def)
qed

lemma pool_push_inv:
  assumes "pushTask_step t w (tp_pc s t) s = Done s'" "wakeup_ok w s" "pool_inv s"
  shows "pool_inv s'"
proof (cases "tp_pc s t")
  case (Pt_Enq v)
  with assms(1) pool_enq_inv [OF assms(3) Pt_Enq] show ?thesis by simp
next
  case Pt_Signal
  with assms(1) pool_wakeup_inv [OF assms(3) Pt_Signal assms(2)] show ?thesis by simp
qed (use assms(1) pool_holder [OF assms(3), of t]
    pool_phase_facts(3) [OF pool_inv_parts(2) [OF assms(3)], of t] in
    \<open>auto simp: guard_lock_def guard_unlock_def starting_def split: if_splits
      intro!: pool_plain_move [OF assms(3), where t = t]\<close>)

lemma pool_pop_inv:
  assumes "pool_inv s" "tp_pc s t = W_Pop" "tp_tasks s = v # q"
  shows "pool_inv (tp_goto t (W_Unlock v) (s\<lparr>tp_tasks := q, tp_taken := tp_taken s @ [v]\<rparr>))"
    (is "pool_inv ?s")
  unfolding pool_inv_def
proof (intro conjI)
  note p = pool_inv_parts [OF assms(1)] and h = pool_holder [OF assms(1), of t]
  show "pool_locks ?s"
    by (rule pool_locks_move [OF p(1), where t = t and q = "W_Unlock v"]) (use assms(2) h in simp_all)
  show "pool_phase ?s"
    by (rule pool_phase_move [OF p(2), where t = t and q = "W_Unlock v"])
      (use assms(2) pool_phase_facts(3) [OF p(2), of t] in \<open>simp_all add: starting_def\<close>)
  have "tp_pushed s = tp_taken s @ v # q" using p(3) assms(3) by (simp add: pool_data_def)
  moreover have "tp_pc s u \<noteq> W_Pop" if "u \<noteq> t" for u
    using pool_unique(1) [OF p(1), of u t] that assms(2) by auto
  ultimately show "pool_data ?s"
    by (intro pool_data_hand [OF p(3) p(1), where t = t and q = "W_Unlock v"]) (use assms(2) in simp_all)
  show "pool_signals ?s"
    by (rule pool_signals_move [OF p(4) p(1), where t = t and q = "W_Unlock v"]) (use assms(2,3) in simp_all)
qed

lemma pool_run_inv:
  assumes "pool_inv s" "tp_pc s t = W_Run v"
  shows "pool_inv (tp_goto t W_Lock (s\<lparr>tp_executed := tp_executed s @ [v]\<rparr>))" (is "pool_inv ?s")
  unfolding pool_inv_def
proof (intro conjI)
  note p = pool_inv_parts [OF assms(1)] and h = pool_holder [OF assms(1), of t]
  show "pool_locks ?s"
    by (rule pool_locks_move [OF p(1), where t = t and q = W_Lock]) (use assms(2) h in simp_all)
  show "pool_phase ?s"
    by (rule pool_phase_move [OF p(2), where t = t and q = W_Lock])
      (use assms(2) pool_phase_facts(3) [OF p(2), of t] in \<open>simp_all add: starting_def\<close>)
  have "tp_pushed s = tp_taken s @ tp_tasks s" "\<And>u. tp_pc s u = W_Pop \<Longrightarrow> tp_tasks s \<noteq> []"
    using p(3) unfolding pool_data_def by blast+
  then show "pool_data ?s"
    by (intro pool_data_hand [OF p(3) p(1), where t = t and q = W_Lock]) (use assms(2) in auto)
  show "pool_signals ?s"
    by (rule pool_signals_move [OF p(4) p(1), where t = t and q = W_Lock]) (use assms(2) in simp_all)
qed

lemma pool_worker_inv:
  assumes "worker_step t (tp_pc s t) s = Done s'" "pool_inv s"
  shows "pool_inv s'"
proof (cases "tp_pc s t")
  case W_Pop
  with assms(1) pool_pop_inv [OF assms(2) W_Pop] show ?thesis
    by (auto simp: popTask_def split: list.splits)
next
  case (W_Run v)
  with assms(1) pool_run_inv [OF assms(2) W_Run] show ?thesis by simp
qed (use assms(1) pool_holder [OF assms(2), of t]
    pool_phase_facts(3) [OF pool_inv_parts(2) [OF assms(2)], of t] in
    \<open>auto simp: guard_lock_def guard_unlock_def starting_def tp_isEmpty_def split: if_splits
      intro!: pool_plain_move [OF assms(2), where t = t]\<close>)

lemma pool_step_inv: "pool_step s s' \<Longrightarrow> pool_inv s \<Longrightarrow> pool_inv s'"
proof (induction rule: pool_step.induct)
  case (pool_call_get s t)
  then show ?case by (intro pool_call_inv [where q = Gi_Check and v = undefined]) auto
next
  case (pool_call_push s t v)
  then show ?case by (intro pool_call_inv [where v = v]) auto
qed (auto intro: pool_instance_inv pool_push_inv pool_worker_inv pool_wake_inv)

lemma pool_initial_inv: "pool_inv (pool_initial cap)"
proof -
  have "finite {t. tp_busy (tp_pc (pool_initial cap :: 'a pool) t)}"
    by (simp add: pool_initial_def tp_busy_def)
  then show ?thesis
    by (auto simp: pool_inv_def pool_locks_def pool_phase_def pool_data_def pool_signals_def
        pool_initial_def at_pc_zero)
qed

section \<open>The pool's queue is a channel\<close>

lemma pool_step_frame:
  assumes "pool_step s s'"
  shows "prefix (tp_pushed s) (tp_pushed s') \<and> prefix (tp_taken s) (tp_taken s') \<and>
    tp_thread_cap s' = tp_thread_cap s"
  using assms
proof cases
  case (pool_run_get t)
  then show ?thesis by (cases "tp_pc s t") (auto split: if_splits)
next
  case (pool_run_push t w)
  then show ?thesis
    by (cases "tp_pc s t") (auto simp: guard_lock_def guard_unlock_def threadWakeup_def
        split: if_splits tp_pc.splits)
next
  case (pool_run_worker t)
  then show ?thesis
    by (cases "tp_pc s t") (auto simp: guard_lock_def guard_unlock_def popTask_def
        split: if_splits list.splits)
qed auto

definition pool_start :: "'a pool \<Rightarrow> bool" where
  "pool_start s \<longleftrightarrow> (\<exists>cap. s = pool_initial cap)"

interpretation pool: channel pool_step pool_start pool_inv tp_pushed tp_taken tp_tasks
  by unfold_locales
    (auto simp: pool_start_def pool_initial_inv pool_data_def dest: pool_step_frame pool_inv_parts(3)
      intro: pool_step_inv)


section \<open>Properties\<close>

definition tp_next :: "nat \<Rightarrow> nat \<Rightarrow> 'a pool \<Rightarrow> 'a pool outcome" where
  "tp_next t w s = (case instance_step t (tp_pc s t) s of
     Blocked \<Rightarrow> (case pushTask_step t w (tp_pc s t) s of
        Blocked \<Rightarrow> worker_step t (tp_pc s t) s | r \<Rightarrow> r)
   | r \<Rightarrow> r)"

text \<open>A step while no worker waits.\<close>

lemma pool_quiet_step:
  assumes "tp_next t t s = Done s'" "\<forall>u. tp_pc s u \<noteq> W_Wait"
  shows "pool_step s s'"
proof -
  have "wakeup_ok t s" using assms(2) by (simp add: wakeup_ok_def)
  with assms(1) show ?thesis
    by (auto simp: tp_next_def split: outcome.splits
        intro: pool_run_get pool_run_push pool_run_worker)
qed

section \<open>Running a pool with one worker\<close>

datatype 'a pool_do = Get nat | Push nat 'a | Run nat

fun pool_act :: "'a pool_do \<Rightarrow> 'a pool \<Rightarrow> 'a pool outcome" where
  "pool_act (Get t) s = (case tp_pc s t of
     Tp_Idle \<Rightarrow> Done (tp_goto t Gi_Check s) | Tp_Has \<Rightarrow> Done (tp_goto t Gi_Check s) | _ \<Rightarrow> Blocked)"
| "pool_act (Push t v) s = (case tp_pc s t of Tp_Has \<Rightarrow> Done (tp_goto t (Pt_Lock v) s) | _ \<Rightarrow> Blocked)"
| "pool_act (Run t) s = (case tp_pc s 0 of W_Wait \<Rightarrow> Blocked | _ \<Rightarrow> tp_next t t s)"

fun pool_acts :: "'a pool_do list \<Rightarrow> 'a pool \<Rightarrow> 'a pool outcome" where
  "pool_acts [] s = Done s"
| "pool_acts (a # as) s = bind_out (pool_act a s) (pool_acts as)"

fun actor :: "'a pool_do \<Rightarrow> nat" where
  "actor (Get t) = t" | "actor (Push t v) = t" | "actor (Run t) = t"

lemma pool_act_step:
  assumes "pool_step\<^sup>*\<^sup>* (pool_initial 1) s" "pool_act a s = Done s'"
  shows "pool_step s s' \<and> (\<forall>u. u \<noteq> 0 \<longrightarrow> u \<noteq> actor a \<longrightarrow> tp_pc s' u = tp_pc s u)"
proof -
  have inv: "pool_inv s" using pool.reach_inv [OF assms(1) pool_initial_inv] .
  note ph = pool_phase_facts [OF pool_inv_parts(2) [OF inv]]
  have cap: "tp_thread_cap s = 1"
    using assms(1) by (induction rule: rtranclp_induct) (auto simp: pool_initial_def dest: pool_step_frame)
  show ?thesis
  proof (cases a)
    case (Get t)
    with assms(2) show ?thesis by (auto split: tp_pc.splits intro: pool_call_get)
  next
    case (Push t v)
    with assms(2) show ?thesis by (auto split: tp_pc.splits intro: pool_call_push)
  next
    case (Run t)
    with assms(2) have n: "tp_next t t s = Done s'" "tp_pc s 0 \<noteq> W_Wait" by (auto split: tp_pc.splits)
    have "tp_pc s u \<noteq> W_Wait" for u using n(2) ph(2) [of u] cap by (cases "u = 0") auto
    with pool_quiet_step [OF n(1)] have "pool_step s s'" by blast
    moreover have "tp_pc s' u = tp_pc s u" if "u \<noteq> 0" "u \<noteq> t" for u
    proof (cases "\<exists>i. tp_pc s t = Gi_Start i")
      case True
      then obtain i where i: "tp_pc s t = Gi_Start i" by blast
      with ph(6) [OF i] cap n(1) that show ?thesis by (auto simp: tp_next_def split: if_splits)
    next
      case False
      with n(1) that show ?thesis
        by (cases "tp_pc s t") (auto simp: tp_next_def guard_lock_def guard_unlock_def
            threadWakeup_def popTask_def split: if_splits list.splits tp_pc.splits)
    qed
    ultimately show ?thesis by (simp add: Run)
  qed
qed

lemma pool_acts_reach:
  assumes "pool_step\<^sup>*\<^sup>* (pool_initial 1) s" "pool_acts as s = Done s'"
  shows "pool_step\<^sup>*\<^sup>* (pool_initial 1) s' \<and>
    (\<forall>u. u \<noteq> 0 \<longrightarrow> u \<notin> actor ` set as \<longrightarrow> tp_pc s' u = tp_pc s u)"
  using assms
proof (induction as arbitrary: s)
  case Nil
  then show ?case by simp
next
  case (Cons a as)
  then obtain s1 where s1: "pool_act a s = Done s1" "pool_acts as s1 = Done s'" by auto
  note st = pool_act_step [OF Cons.prems(1) s1(1)]
  with Cons.prems(1) have "pool_step\<^sup>*\<^sup>* (pool_initial 1) s1" by auto
  from Cons.IH [OF this s1(2)] st show ?case by simp
qed

text \<open>Client 2 creates the pool and pushes a task; worker 0 runs it and falls asleep.\<close>

definition pool_demo_acts :: "nat pool_do list" where
  "pool_demo_acts = [Get 2] @ replicate 8 (Run 2) @ [Push 2 7] @ replicate 4 (Run 2) @ replicate 7 (Run 0)"

definition pool_demo :: "nat pool outcome" where
  "pool_demo = pool_acts pool_demo_acts (pool_initial 1)"

lemma pool_demo_eval:
  "case pool_demo of
     Done s \<Rightarrow> tp_pushed s = [7] \<and> tp_pc s 0 = W_Wait \<and> tp_pc s 2 = Tp_Has \<and> tp_executed s = [7]
   | _ \<Rightarrow> False"
  by code_simp

lemma pool_demo_reach:
  obtains s where "pool_step\<^sup>*\<^sup>* (pool_initial 1) s" "tp_pushed s = [7 :: nat]" "tp_pc s 0 = W_Wait"
    "tp_pc s 2 = Tp_Has" "\<forall>u. u \<noteq> 0 \<longrightarrow> u \<noteq> 2 \<longrightarrow> tp_pc s u = Tp_Idle"
proof -
  obtain s where s: "pool_demo = Done s" "tp_pushed s = [7]" "tp_pc s 0 = W_Wait" "tp_pc s 2 = Tp_Has"
    using pool_demo_eval by (cases pool_demo) (auto split: outcome.splits)
  have "actor ` set pool_demo_acts = {0, 2}" by (auto simp: pool_demo_acts_def)
  with pool_acts_reach [OF rtranclp.rtrancl_refl s(1) [unfolded pool_demo_def]]
  have "pool_step\<^sup>*\<^sup>* (pool_initial 1) s" "\<And>u. u \<noteq> 0 \<Longrightarrow> u \<noteq> 2 \<Longrightarrow> tp_pc s u = tp_pc (pool_initial 1) u"
    by auto
  with that s show ?thesis by (simp add: pool_initial_def)
qed

lemma pool_no_push:
  assumes "pool_step\<^sup>*\<^sup>* (pool_initial cap) s"
  shows "\<not> tp_instance s \<Longrightarrow> tp_pushed s = []"
  using assms
proof (induction rule: rtranclp_induct)
  case base
  then show ?case by (simp add: pool_initial_def)
next
  case (step s s')
  have inv: "pool_inv s" using pool.reach_inv [OF step.hyps(1) pool_initial_inv] .
  note inst = pool_phase_facts(3) [OF pool_inv_parts(2) [OF inv]]
  from step.hyps(2) have "(tp_instance s \<longrightarrow> tp_instance s') \<and> (\<not> tp_instance s \<longrightarrow> tp_pushed s' = tp_pushed s)"
  proof cases
    case (pool_run_get t)
    then show ?thesis by (cases "tp_pc s t") (auto split: if_splits)
  next
    case (pool_run_push t w)
    then show ?thesis using inst [of t]
      by (cases "tp_pc s t") (auto simp: guard_lock_def guard_unlock_def threadWakeup_def
          split: if_splits tp_pc.splits)
  next
    case (pool_run_worker t)
    then show ?thesis
      by (cases "tp_pc s t") (auto simp: guard_lock_def guard_unlock_def popTask_def
          split: if_splits list.splits)
  qed auto
  with step show ?case by auto
qed

text \<open>C14. \<open>get_instance\<close> constructs the pool at most once. Tasks are handed to the workers in the order
  they were pushed, each to one worker: what was taken is what was run plus what workers hold in
  their hands, and \<open>popTask\<close> never meets an empty queue.\<close>

theorem pool_dispatch:
  assumes "pool_step\<^sup>*\<^sup>* (pool_initial cap) s"
  shows "tp_made s \<le> 1 \<and> (tp_pc s t = Tp_Has \<longrightarrow> tp_made s = 1) \<and>
    tp_pushed s = tp_taken s @ tp_tasks s \<and>
    count (mset (tp_taken s)) v =
      count (mset (tp_executed s)) v + card {t. in_hand (tp_pc s t) = [v]} \<and>
    worker_step t (tp_pc s t) s \<noteq> Crash e"
proof -
  have d: "pool_data s" using pool_inv_parts(3) [OF pool.reach_inv [OF assms pool_initial_inv]] .
  then have "tp_pc s t = W_Pop \<Longrightarrow> tp_tasks s \<noteq> []" unfolding pool_data_def by blast
  then have "worker_step t (tp_pc s t) s \<noteq> Crash e"
    by (cases "tp_pc s t") (auto simp: guard_lock_def guard_unlock_def popTask_def split: list.splits)
  moreover have ph: "pool_phase s" using pool_inv_parts(2) [OF pool.reach_inv [OF assms pool_initial_inv]] .
  have "tp_made s \<le> 1 \<and> (tp_pc s t = Tp_Has \<longrightarrow> tp_made s = 1)"
    using pool_phase_facts(1) [OF ph] pool_phase_facts(3) [OF ph, of t] by auto
  ultimately show ?thesis using d unfolding pool_data_def at_pc_def by blast
qed

lemma pool_dispatch_witness:
  "\<exists>s :: nat pool. tp_pushed s = [7] \<and> count (mset (tp_taken s)) 7 =
      count (mset (tp_executed s)) 7 + card {t. in_hand (tp_pc s t) = [7]}"
proof -
  obtain s where s: "pool_step\<^sup>*\<^sup>* (pool_initial 1) s" "tp_pushed s = [7 :: nat]"
    by (rule pool_demo_reach)
  from pool_dispatch [OF s(1)] s(2) show ?thesis by blast
qed

text \<open>At rest: every thread is outside the calls or waits for a task.\<close>

lemma pool_quiet:
  assumes "0 < cap" "pool_step\<^sup>*\<^sup>* (pool_initial cap) s"
    and "\<forall>t. tp_busy (tp_pc s t) \<longrightarrow> tp_next t w s = Blocked"
  shows "tp_tasks s = [] \<and> mset (tp_executed s) = mset (tp_pushed s) \<and> (tp_busy (tp_pc s t) \<longrightarrow> tp_pc s t = W_Wait)"
proof -
  have inv: "pool_inv s" using pool.reach_inv [OF assms(2) pool_initial_inv] .
  note p = pool_inv_parts [OF inv]
  have d: "tp_pushed s = tp_taken s @ tp_tasks s" "\<And>t. tp_pc s t = W_Pop \<Longrightarrow> tp_tasks s \<noteq> []"
    "\<And>v. count (mset (tp_taken s)) v =
        count (mset (tp_executed s)) v + at_pc (tp_pc s) (\<lambda>p. in_hand p = [v])"
    using p(3) unfolding pool_data_def by blast+
  have blocked: "instance_step t (tp_pc s t) s = Blocked" "pushTask_step t w (tp_pc s t) s = Blocked"
    "worker_step t (tp_pc s t) s = Blocked" if "tp_busy (tp_pc s t)" for t
    using assms(3) [rule_format, OF that]
    by (cases "instance_step t (tp_pc s t) s"; cases "pushTask_step t w (tp_pc s t) s";
        simp add: tp_next_def)+
  have idle: "\<not> tp_holds (tp_pc s t)" "\<not> tp_static_holds (tp_pc s t)" "in_hand (tp_pc s t) = []" for t
    using blocked [of t] d(2) [of t]
    by (cases "tp_pc s t"; auto simp: tp_busy_def guard_unlock_def popTask_def split: if_splits list.splits)+
  have free: "tp_mtx s = None" "tp_static_mtx s = None"
    using pool_holder [OF inv] idle(1,2) by (cases "tp_mtx s"; cases "tp_static_mtx s"; auto)+
  have wait: "is_worker (tp_pc s t) \<Longrightarrow> tp_pc s t = W_Wait" for t
    using blocked [of t] free idle [of t]
    by (cases "tp_pc s t") (auto simp: tp_busy_def guard_lock_def)
  have "\<not> tp_serves (tp_pc s t)" for t
    using blocked [of t] free idle(1) [of t]
    by (cases "tp_pc s t") (auto simp: tp_busy_def guard_lock_def)
  then have z: "at_pc (tp_pc s) tp_serves = 0" by (rule at_pc_zero)
  have zh: "at_pc (tp_pc s) (\<lambda>p. in_hand p = [v]) = 0" for v
    by (rule at_pc_zero) (simp add: idle(3))
  have ran: "mset (tp_taken s) = mset (tp_executed s)"
    using d(3) zh by (simp add: multiset_eq_iff)
  have "tp_tasks s = []"
  proof (cases "tp_instance s")
    case False
    with pool_no_push [OF assms(2)] d(1) show ?thesis by simp
  next
    case True
    have "\<not> starting (tp_pc s t)" for t using idle(2) starting_holds by blast
    with pool_phase_facts(9) [OF p(2) True] have "\<forall>j < tp_thread_cap s. is_worker (tp_pc s j)" by blast
    moreover have "tp_thread_cap s = cap"
      using assms(2) by (induction rule: rtranclp_induct) (auto simp: pool_initial_def dest: pool_step_frame)
    ultimately have "tp_pc s 0 = W_Wait" using assms(1) wait by simp
    with p(4) z show ?thesis by (auto simp: pool_signals_def)
  qed
  moreover have "tp_busy (tp_pc s t) \<longrightarrow> tp_pc s t = W_Wait"
    using blocked [of t] free idle [of t] wait [of t]
    by (cases "tp_pc s t") (auto simp: tp_busy_def guard_lock_def split: if_splits)
  ultimately show ?thesis using d(1) ran by simp
qed



text \<open>The pointer is published before \<open>init\<close> and \<open>startRunning\<close>: a second caller can
  return with the instance while it has no thread yet.\<close>

lemma pool_singleton:
  assumes "pool_step\<^sup>*\<^sup>* (pool_initial cap) (s :: 'a pool)"
  shows "tp_made s \<le> 1 \<and> (tp_pc s t = Tp_Has \<longrightarrow> tp_made s = 1) \<and>
    (\<exists>s1 :: 'a pool. pool_step\<^sup>*\<^sup>* (pool_initial 1) s1 \<and> tp_pc s1 3 = Tp_Has \<and> tp_threads s1 = 0 \<and>
       (\<forall>u. \<not> is_worker (tp_pc s1 u)))"
proof -
  have ph: "pool_phase s" using pool_inv_parts(2) [OF pool.reach_inv [OF assms pool_initial_inv]] .
  let ?i = "pool_initial 1 :: 'a pool"
  let ?a = "tp_goto 2 Gi_Check ?i" and ?b = "tp_goto 2 Gi_Lock (tp_goto 2 Gi_Check ?i)"
  let ?c = "tp_goto 2 Gi_Check2 (?b\<lparr>tp_static_mtx := Some 2\<rparr>)"
  let ?d = "tp_goto 2 Gi_New ?c"
  let ?e = "tp_goto 2 Gi_Init (?d\<lparr>tp_instance := True, tp_made := 1\<rparr>)"
  let ?f = "tp_goto 3 Gi_Check ?e" and ?g = "tp_goto 3 Tp_Has (tp_goto 3 Gi_Check ?e)"
  have "pool_step ?i ?a" by (rule pool_call_get) (simp add: pool_initial_def)
  moreover have "pool_step ?a ?b"
    by (rule pool_quiet_step [of 2]) (auto simp: tp_next_def pool_initial_def)
  moreover have "pool_step ?b ?c"
    by (rule pool_quiet_step [of 2]) (auto simp: tp_next_def pool_initial_def)
  moreover have "pool_step ?c ?d"
    by (rule pool_quiet_step [of 2]) (auto simp: tp_next_def pool_initial_def)
  moreover have "pool_step ?d ?e"
    by (rule pool_quiet_step [of 2]) (auto simp: tp_next_def pool_initial_def)
  moreover have "pool_step ?e ?f" by (rule pool_call_get) (simp add: pool_initial_def)
  moreover have "pool_step ?f ?g"
    by (rule pool_quiet_step [of 3]) (auto simp: tp_next_def pool_initial_def)
  ultimately have "pool_step\<^sup>*\<^sup>* ?i ?g"
    by (meson converse_rtranclp_into_rtranclp rtranclp.rtrancl_refl)
  moreover have "tp_pc ?g 3 = Tp_Has" "tp_threads ?g = 0" "\<forall>u. \<not> is_worker (tp_pc ?g u)"
    by (auto simp: pool_initial_def)
  ultimately have "\<exists>s1. pool_step\<^sup>*\<^sup>* ?i s1 \<and> tp_pc s1 3 = Tp_Has \<and> tp_threads s1 = 0 \<and>
       (\<forall>u. \<not> is_worker (tp_pc s1 u))" by blast
  moreover have "tp_made s \<le> 1 \<and> (tp_pc s t = Tp_Has \<longrightarrow> tp_made s = 1)"
    using pool_phase_facts(1) [OF ph] pool_phase_facts(3) [OF ph, of t] by auto
  ultimately show ?thesis by blast
qed


lemma pool_singleton_witness:
  "\<exists>s :: nat pool. tp_pushed s = [7] \<and> tp_made s = 1"
proof -
  obtain s where s: "pool_step\<^sup>*\<^sup>* (pool_initial 1) s" "tp_pushed s = [7 :: nat]" "tp_pc s 2 = Tp_Has"
    by (rule pool_demo_reach)
  from pool_singleton [OF s(1), of 2] s(2,3) show ?thesis by blast
qed

end
