(* ===== verification/CtrlProc.thy ===== *)
theory CtrlProc
  imports Kernel
begin

text \<open>
  The process pools \<open>5.25/CtrlProc\<close> and \<open>5.26/CtrlProc\<close>: a parent creates children, each with a
  pipe, writes task numbers to them in turn, and in the end closes the pipes and waits for the
  children. Every process has its table of descriptors, which a fork copies; reading a pipe
  reports the end of the input only when no process has its write end.
\<close>

section \<open>Tasks\<close>

definition CHILD_NUM :: nat where "CHILD_NUM = 5"
definition EXE_NUM :: nat where "EXE_NUM = 10"
definition TASK_NUM :: int where "TASK_NUM = 3"

text \<open>\<open>Task::Execute\<close>: the tasks run so far, with the one the command names, if there is one.\<close>

definition Execute :: "int \<Rightarrow> int list \<Rightarrow> int list" where
  "Execute cmd done = (if 0 \<le> cmd \<and> cmd < TASK_NUM then done @ [cmd] else done)"

section \<open>Processes and pipes\<close>

datatype pipe_end = Tty | Rd nat | Wr nat

type_synonym fd_table = "(int \<times> pipe_end) list"

definition fd_close :: "int \<Rightarrow> fd_table \<Rightarrow> fd_table" where
  "fd_close fd tab = filter (\<lambda>e. fst e \<noteq> fd) tab"

definition fd_dup2 :: "int \<Rightarrow> int \<Rightarrow> fd_table \<Rightarrow> fd_table" where
  "fd_dup2 old new tab =
     (case map_of tab old of None \<Rightarrow> tab | Some e \<Rightarrow> (new, e) # fd_close new tab)"

definition fd_pipe :: "nat \<Rightarrow> fd_table \<Rightarrow> int \<times> int \<times> fd_table" where
  "fd_pipe q tab =
     (let r = lowest_fd (map fst tab); tab1 = (r, Rd q) # tab; w = lowest_fd (map fst tab1)
      in (r, w, (w, Wr q) # tab1))"

datatype child_pc = Starting | Reading nat | Gone

record child =
  ch_tab :: fd_table
  ch_fds :: "int list"       \<comment> \<open>the write ends of the children before it\<close>
  ch_pipefd :: "int \<times> int"
  ch_pc :: child_pc
  ch_executed :: "int list"

record EndPoint =
  ep_child_pid :: int
  ep_write_id :: int

record world =
  w_parent :: fd_table
  w_children :: "child list"   \<comment> \<open>the pid of a child is its index\<close>
  w_pipes :: nat
  w_queue :: "nat \<Rightarrow> int list"

definition world0 :: world where
  "world0 = \<lparr>w_parent = [(0, Tty), (1, Tty), (2, Tty)], w_children = [], w_pipes = 0, w_queue = (\<lambda>_. [])\<rparr>"

definition has_end :: "pipe_end \<Rightarrow> fd_table \<Rightarrow> bool" where
  "has_end e tab \<longleftrightarrow> list_ex (\<lambda>x. snd x = e) tab"

definition open_end :: "pipe_end \<Rightarrow> world \<Rightarrow> bool" where
  "open_end e w \<longleftrightarrow> has_end e (w_parent w) \<or> list_ex (\<lambda>c. has_end e (ch_tab c)) (w_children w)"

section \<open>The parent creates the children\<close>

text \<open>How \<open>pipe\<close> and \<open>fork\<close> turn out in a round.\<close>

datatype create_res = Created | NoPipe | NoFork

fun create_loop :: "nat \<Rightarrow> create_res list \<Rightarrow> int list \<Rightarrow> EndPoint list \<Rightarrow> world \<Rightarrow> EndPoint list \<times> world" where
  "create_loop n [] fds eps w = (eps, w)"
| "create_loop 0 (r # rs) fds eps w = (eps, w)"
| "create_loop (Suc n) (r # rs) fds eps w =
     (if r = NoPipe then (eps, w)
      else (case fd_pipe (w_pipes w) (w_parent w) of (rfd, wfd, tab) \<Rightarrow>
        let c = \<lparr>ch_tab = tab, ch_fds = fds, ch_pipefd = (rfd, wfd), ch_pc = Starting, ch_executed = []\<rparr>;
            pid = (if r = NoFork then - 1 else int (length (w_children w)));
            w1 = w\<lparr>w_parent := fd_close rfd tab, w_pipes := Suc (w_pipes w),
                   w_children := w_children w @ (if r = NoFork then [] else [c])\<rparr>
        in create_loop n rs (fds @ [wfd]) (eps @ [\<lparr>ep_child_pid = pid, ep_write_id = wfd\<rparr>]) w1))"

definition CreatProcesses :: "create_res list \<Rightarrow> EndPoint list \<times> world" where
  "CreatProcesses rs = create_loop CHILD_NUM rs [] [] world0"

section \<open>The children\<close>

text \<open>What a child does before it waits for commands, in 5.26 and in 5.25.\<close>

definition child_setup :: "child \<Rightarrow> fd_table" where
  "child_setup c = (case ch_pipefd c of (rfd, wfd) \<Rightarrow>
     fd_dup2 rfd 0 (fd_close wfd (fold fd_close (ch_fds c) (ch_tab c))))"

definition child_setup_25 :: "child \<Rightarrow> fd_table" where
  "child_setup_25 c = (case ch_pipefd c of (rfd, wfd) \<Rightarrow> fd_dup2 rfd 0 (fd_close wfd (ch_tab c)))"

text \<open>One step of a child, with the loop of \<open>WaitCmd\<close>; \<open>None\<close> if it waits or is gone.\<close>

definition child_gone :: "child \<Rightarrow> child" where
  "child_gone c = c\<lparr>ch_tab := [], ch_pc := Gone\<rparr>"

definition child_step :: "nat \<Rightarrow> world \<Rightarrow> world option" where
  "child_step i w =
     (let c = w_children w ! i; put = (\<lambda>c. w\<lparr>w_children := (w_children w)[i := c]\<rparr>)
      in case ch_pc c of
        Starting \<Rightarrow> Some (put (c\<lparr>ch_tab := child_setup c, ch_pc := Reading 0\<rparr>))
      | Reading cnt \<Rightarrow>
          (if cnt < EXE_NUM then
             (case map_of (ch_tab c) 0 of
                Some (Rd q) \<Rightarrow>
                  (case w_queue w q of
                     cmd # cmds \<Rightarrow> Some ((put (c\<lparr>ch_pc := Reading (Suc cnt), ch_executed := Execute cmd (ch_executed c)\<rparr>))
                        \<lparr>w_queue := (w_queue w)(q := cmds)\<rparr>)
                   | [] \<Rightarrow> (if open_end (Wr q) w then None else Some (put (child_gone c))))
              | _ \<Rightarrow> Some (put (child_gone c)))
           else Some (put (child_gone c)))
      | Gone \<Rightarrow> None)"

section \<open>The parent at work\<close>

text \<open>
  \<open>CtrlProcess\<close>: what it writes, for the numbers typed. When no number can be read the variable
  keeps or gets the value 0.
\<close>

function ctrl_loop :: "EndPoint list \<Rightarrow> int list \<Rightarrow> nat \<Rightarrow> nat \<Rightarrow> (int \<times> int) list \<Rightarrow> (int \<times> int) list outcome" where
  "ctrl_loop eps [] cnt procs out =
     (if cnt < EXE_NUM then
        (let procs = Suc procs mod CHILD_NUM
         in if procs < length eps
            then ctrl_loop eps [] (Suc cnt) procs (out @ [(ep_write_id (eps ! procs), 0)])
            else Crash OutOfBounds)
      else Done out)"
| "ctrl_loop eps (tasknum # input) cnt procs out =
     (if cnt < EXE_NUM then
        (if tasknum < 0 \<or> tasknum > 3 then ctrl_loop eps input cnt procs out
         else if tasknum = 3 then Done out
         else (let procs = Suc procs mod CHILD_NUM
               in if procs < length eps
                  then ctrl_loop eps input (Suc cnt) procs (out @ [(ep_write_id (eps ! procs), tasknum)])
                  else Crash OutOfBounds))
      else Done out)"
  by pat_completeness auto
termination
  by (relation "measures [\<lambda>(eps, input, cnt, procs, out). length input, \<lambda>(eps, input, cnt, procs, out). EXE_NUM - cnt]") auto

definition CtrlProcess :: "EndPoint list \<Rightarrow> int list \<Rightarrow> (int \<times> int) list outcome" where
  "CtrlProcess eps input = ctrl_loop eps input 0 0 []"

text \<open>The program of the parent after the creation: its writes, then those of \<open>WaitProcess\<close>.\<close>

datatype action = AWrite int int | AClose int | AWait int

definition WaitProcess :: "EndPoint list \<Rightarrow> action list" where
  "WaitProcess eps = concat (map (\<lambda>ep. [AClose (ep_write_id ep), AWait (ep_child_pid ep)]) eps)"

text \<open>
  One action. A write to a pipe that nobody reads kills the process: it takes no further step.
  \<open>waitpid\<close> returns when the child is gone.
\<close>

definition parent_step :: "action \<Rightarrow> world \<Rightarrow> world option" where
  "parent_step a w =
     (case a of
        AWrite fd x \<Rightarrow>
          (case map_of (w_parent w) fd of
             Some (Wr q) \<Rightarrow>
               (if open_end (Rd q) w then Some (w\<lparr>w_queue := (w_queue w)(q := w_queue w q @ [x])\<rparr>) else None)
           | _ \<Rightarrow> Some w)
      | AClose fd \<Rightarrow> Some (w\<lparr>w_parent := fd_close fd (w_parent w)\<rparr>)
      | AWait pid \<Rightarrow>
          (if 0 \<le> pid \<and> pid < int (length (w_children w)) \<and> ch_pc (w_children w ! nat pid) \<noteq> Gone
           then None else Some w))"

inductive ctrl_step :: "action list \<times> world \<Rightarrow> action list \<times> world \<Rightarrow> bool" where
  parent: "parent_step a w = Some w' \<Longrightarrow> ctrl_step (a # prog, w) (prog, w')"
| child: "i < length (w_children w) \<Longrightarrow> child_step i w = Some w' \<Longrightarrow> ctrl_step (prog, w) (prog, w')"

inductive_cases ctrl_stepE: "ctrl_step (prog, w) s"

section \<open>The five children\<close>

definition eps5 :: "EndPoint list" where
  "eps5 = map (\<lambda>i. \<lparr>ep_child_pid = int i, ep_write_id = int i + 4\<rparr>) [0..<5]"

definition tab_before :: "nat \<Rightarrow> fd_table" where
  "tab_before i = map (\<lambda>j. (int j + 4, Wr j)) (rev [0..<i]) @ [(0, Tty), (1, Tty), (2, Tty)]"

definition new_child :: "nat \<Rightarrow> child" where
  "new_child i = \<lparr>ch_tab = (int i + 4, Wr i) # (3, Rd i) # tab_before i, ch_fds = map (\<lambda>j. int j + 4) [0..<i],
     ch_pipefd = (3, int i + 4), ch_pc = Starting, ch_executed = []\<rparr>"

definition world5 :: world where
  "world5 = \<lparr>w_parent = tab_before 5, w_children = map new_child [0..<5], w_pipes = 5, w_queue = (\<lambda>_. [])\<rparr>"

lemma pipe_five:
  "list_all (\<lambda>i. fd_pipe i (tab_before i) = (3, int i + 4, (int i + 4, Wr i) # (3, Rd i) # tab_before i) \<and>
     fd_close 3 ((int i + 4, Wr i) # (3, Rd i) # tab_before i) = tab_before (Suc i)) [0..<5]"
  by code_simp

lemma create_step:
  assumes "i < 5" "w_parent w = tab_before i" "w_pipes w = i" "w_children w = map new_child [0..<i]"
    and "fds = map (\<lambda>j. int j + 4) [0..<i]"
  shows "create_loop (Suc n) (Created # rs) fds eps w =
    create_loop n rs (map (\<lambda>j. int j + 4) [0..<Suc i]) (eps @ [\<lparr>ep_child_pid = int i, ep_write_id = int i + 4\<rparr>])
      (w\<lparr>w_parent := tab_before (Suc i), w_pipes := Suc i, w_children := map new_child [0..<Suc i]\<rparr>)"
proof -
  have "i \<in> set [0..<5]" using assms(1) by simp
  with pipe_five have "fd_pipe i (tab_before i) = (3, int i + 4, (int i + 4, Wr i) # (3, Rd i) # tab_before i)"
    "fd_close 3 ((int i + 4, Wr i) # (3, Rd i) # tab_before i) = tab_before (Suc i)"
    unfolding list_all_iff by blast+
  with assms show ?thesis by (simp add: new_child_def)
qed

lemma create_loop_all:
  assumes "i + n \<le> 5" "w_parent w = tab_before i" "w_pipes w = i" "w_children w = map new_child [0..<i]"
  shows "create_loop n (replicate n Created) (map (\<lambda>j. int j + 4) [0..<i]) eps w =
    (eps @ map (\<lambda>j. \<lparr>ep_child_pid = int j, ep_write_id = int j + 4\<rparr>) [i..<i + n],
     w\<lparr>w_parent := tab_before (i + n), w_pipes := i + n, w_children := map new_child [0..<i + n]\<rparr>)"
  using assms
proof (induction n arbitrary: i eps w)
  case (Suc n)
  let ?w = "w\<lparr>w_parent := tab_before (Suc i), w_pipes := Suc i, w_children := map new_child [0..<Suc i]\<rparr>"
  have "create_loop (Suc n) (Created # replicate n Created) (map (\<lambda>j. int j + 4) [0..<i]) eps w =
      create_loop n (replicate n Created) (map (\<lambda>j. int j + 4) [0..<Suc i])
        (eps @ [\<lparr>ep_child_pid = int i, ep_write_id = int i + 4\<rparr>]) ?w"
    using Suc.prems by (intro create_step) simp_all
  moreover have "[i..<i + Suc n] = i # [Suc i..<Suc i + n]" by (simp add: upt_conv_Cons)
  ultimately show ?case using Suc.IH [of "Suc i" ?w] Suc.prems by simp
qed simp

lemma create_five: "CreatProcesses (replicate 5 Created) = (eps5, world5)"
  using create_loop_all [of 0 5 world0 "[]"]
  by (simp add: CreatProcesses_def CHILD_NUM_def world0_def tab_before_def world5_def eps5_def)

lemma new_child_facts:
  "list_all (\<lambda>i. has_end (Rd i) (ch_tab (new_child i)) \<and>
    has_end (Rd i) (child_setup (new_child i)) \<and>
    map_of (child_setup (new_child i)) 0 = Some (Rd i) \<and>
    list_all (\<lambda>q. \<not> has_end (Wr q) (child_setup (new_child i))) [0..<5]) [0..<5]"
  by code_simp

end
