(* ===== verification/CtrlProps.thy ===== *)
theory CtrlProps
  imports CtrlProc Steps
begin

text \<open>
  What the process pool of \<open>5.26/CtrlProc\<close> does: which child gets which command, and that the
  parent gets all its children back, each having run exactly what was sent to it.
\<close>

section \<open>Sending\<close>

text \<open>The numbers that count: those typed up to the first 3, then zeros once nothing can be read.\<close>

fun typed :: "int list \<Rightarrow> int list" where
  "typed [] = replicate EXE_NUM 0"
| "typed (t # ts) = (if t < 0 \<or> t > 3 then typed ts else if t = 3 then [] else t # typed ts)"

definition commands :: "int list \<Rightarrow> int list" where
  "commands input = take EXE_NUM (typed input)"

text \<open>Handing out commands in turn.\<close>

fun deliver :: "EndPoint list \<Rightarrow> nat \<Rightarrow> int list \<Rightarrow> (int \<times> int) list outcome" where
  "deliver eps cnt [] = Done []"
| "deliver eps cnt (x # xs) =
     (let i = Suc cnt mod CHILD_NUM
      in if i < length eps then bind_out (deliver eps (Suc cnt) xs) (\<lambda>r. Done ((ep_write_id (eps ! i), x) # r))
         else Crash OutOfBounds)"

lemma mod_Suc_CHILD: "Suc (n mod CHILD_NUM) mod CHILD_NUM = Suc n mod CHILD_NUM"
  by (simp add: mod_Suc_eq)

lemma ctrl_loop_deliver:
  "procs = cnt mod CHILD_NUM \<Longrightarrow>
   ctrl_loop eps input cnt procs out = bind_out (deliver eps cnt (take (EXE_NUM - cnt) (typed input))) (\<lambda>r. Done (out @ r))"
proof (induction eps input cnt procs out rule: ctrl_loop.induct)
  case (1 eps cnt procs out)
  show ?case
  proof (cases "cnt < EXE_NUM")
    case True
    then have e: "EXE_NUM - cnt = Suc (EXE_NUM - Suc cnt)" by simp
    have t: "take (Suc n) (typed []) = 0 # take n (typed [])" if "Suc n \<le> EXE_NUM" for n
      using that by (cases EXE_NUM) (simp_all add: take_replicate min_def)
    show ?thesis
      using True "1.IH" [OF True refl] "1.prems" t [of "EXE_NUM - Suc cnt"]
      by (simp add: e mod_Suc_CHILD Let_def bind_out_assoc)
  next
    case False
    then show ?thesis by simp
  qed
next
  case (2 eps t input cnt procs out)
  show ?case
  proof (cases "cnt < EXE_NUM")
    case True
    then have e: "EXE_NUM - cnt = Suc (EXE_NUM - Suc cnt)" by simp
    consider "t < 0 \<or> t > 3" | "t = 3" | "\<not> (t < 0 \<or> t > 3)" "t \<noteq> 3" by blast
    then show ?thesis
    proof cases
      case 1
      with True "2.IH"(1) [OF True 1 "2.prems"] show ?thesis by simp
    next
      case 2
      with True show ?thesis by simp
    next
      case 3
      with True "2.IH"(2) [OF True 3 refl] "2.prems" show ?thesis
        by (simp add: e mod_Suc_CHILD Let_def bind_out_assoc)
    qed
  next
    case False
    then show ?thesis by simp
  qed
qed

lemma deliver_closed:
  "deliver eps cnt xs =
     (if \<forall>k < length xs. Suc (cnt + k) mod CHILD_NUM < length eps
      then Done (map (\<lambda>k. (ep_write_id (eps ! (Suc (cnt + k) mod CHILD_NUM)), xs ! k)) [0..<length xs])
      else Crash OutOfBounds)"
proof (induction eps cnt xs rule: deliver.induct)
  case (2 eps cnt x xs)
  have a: "(\<forall>k < length (x # xs). Suc (cnt + k) mod CHILD_NUM < length eps) \<longleftrightarrow>
      Suc cnt mod CHILD_NUM < length eps \<and> (\<forall>k < length xs. Suc (Suc cnt + k) mod CHILD_NUM < length eps)"
    by (auto simp: less_Suc_eq_0_disj)
  have u: "[0..<length (x # xs)] = 0 # map Suc [0..<length xs]" by (simp add: upt_conv_Cons map_Suc_upt del: upt_Suc)
  show ?case
    unfolding a u using 2 by (simp add: Let_def)
qed simp

text \<open>What the parent writes, for every input and any number of children it managed to create:
  of the numbers typed those between 0 and 2 count, up to the first 3 and at most ten; the k-th of
  them goes to child k modulo five, counting from one. If that child was not created, because a
  pipe could not be made, the write reads behind the end of the vector. When the input is used up,
  zeros are sent until ten commands are reached.\<close>

theorem CtrlProcess_sends:
  "CtrlProcess eps input =
     (if \<forall>k < length (commands input). Suc k mod CHILD_NUM < length eps
      then Done (map (\<lambda>k. (ep_write_id (eps ! (Suc k mod CHILD_NUM)), commands input ! k)) [0..<length (commands input)])
      else Crash OutOfBounds)"
proof -
  have "CtrlProcess eps input = bind_out (deliver eps 0 (commands input)) (\<lambda>r. Done ([] @ r))"
    unfolding CtrlProcess_def by (subst ctrl_loop_deliver) (simp_all add: commands_def CHILD_NUM_def)
  then show ?thesis by (simp add: deliver_closed)
qed

section \<open>Order of the parent's actions\<close>

text \<open>Nothing is written to a pipe after its close, and a child is waited for after its close.\<close>

fun ordered :: "action list \<Rightarrow> bool" where
  "ordered [] = True"
| "ordered (AWrite fd x # p) = (fd \<in> {4..8} \<and> 0 \<le> x \<and> x < TASK_NUM \<and> AClose fd \<in> set p \<and> ordered p)"
| "ordered (AClose fd # p) = (fd \<in> {4..8} \<and> AClose fd \<notin> set p \<and> (\<forall>x. AWrite fd x \<notin> set p) \<and> ordered p)"
| "ordered (AWait i # p) = (i \<in> {0..4} \<and> AClose (i + 4) \<notin> set p \<and> ordered p)"

definition writes_to :: "int \<Rightarrow> action list \<Rightarrow> int list" where
  "writes_to fd p = concat (map (\<lambda>a. case a of AWrite g x \<Rightarrow> if g = fd then [x] else [] | _ \<Rightarrow> []) p)"

lemma writes_to_simps [simp]:
  "writes_to fd [] = []" "writes_to fd (AWrite g x # p) = (if g = fd then x # writes_to fd p else writes_to fd p)"
  "writes_to fd (AClose g # p) = writes_to fd p" "writes_to fd (AWait i # p) = writes_to fd p"
  "writes_to fd (p @ p') = writes_to fd p @ writes_to fd p'"
  by (simp_all add: writes_to_def)

lemma writes_to_none: "(\<And>x. AWrite fd x \<notin> set p) \<Longrightarrow> writes_to fd p = []"
  by (induction p) (auto simp: writes_to_def split: action.splits)

lemma ordered_writes: "ordered p \<Longrightarrow> AWrite fd x \<in> set p \<Longrightarrow> AClose fd \<in> set p"
  by (induction p rule: ordered.induct) auto

lemma ordered_closed: "ordered p \<Longrightarrow> AClose fd \<notin> set p \<Longrightarrow> writes_to fd p = []"
  by (rule writes_to_none) (auto dest: ordered_writes)

definition parent_prog :: "(int \<times> int) list \<Rightarrow> action list" where
  "parent_prog ws = map (\<lambda>(fd, x). AWrite fd x) ws @ WaitProcess eps5"

lemma WaitProcess5:
  "WaitProcess eps5 = [AClose 4, AWait 0, AClose 5, AWait 1, AClose 6, AWait 2, AClose 7, AWait 3, AClose 8, AWait 4]"
  by (simp add: WaitProcess_def eps5_def upt_conv_Cons)

lemma int_range4: "(fd :: int) \<in> {4..8} \<longleftrightarrow> fd = 4 \<or> fd = 5 \<or> fd = 6 \<or> fd = 7 \<or> fd = 8"
  by auto

lemma ordered_parent_prog:
  "\<forall>(fd, x) \<in> set ws. fd \<in> {4..8} \<and> 0 \<le> x \<and> x < TASK_NUM \<Longrightarrow> ordered (parent_prog ws)"
proof (induction ws)
  case Nil
  then show ?case by (simp add: parent_prog_def WaitProcess5)
next
  case (Cons a ws)
  obtain fd x where a: "a = (fd, x)" by (cases a)
  with Cons.prems have "AClose fd \<in> set (WaitProcess eps5)" by (auto simp: WaitProcess5 int_range4)
  with Cons a show ?case by (auto simp: parent_prog_def)
qed

section \<open>The invariant\<close>

definition child_ok :: "nat \<Rightarrow> child \<Rightarrow> bool" where
  "child_ok i c \<longleftrightarrow> ch_fds c = ch_fds (new_child i) \<and> ch_pipefd c = ch_pipefd (new_child i) \<and>
     (case ch_pc c of
        Starting \<Rightarrow> ch_tab c = ch_tab (new_child i) \<and> ch_executed c = []
      | Reading n \<Rightarrow> ch_tab c = child_setup (new_child i) \<and> n = length (ch_executed c)
      | Gone \<Rightarrow> ch_tab c = [])"

definition ctrl_inv :: "action list \<Rightarrow> action list \<times> world \<Rightarrow> bool" where
  "ctrl_inv prog0 = (\<lambda>(prog, w). ordered prog \<and>
     length (w_children w) = 5 \<and>
     w_parent w = filter (\<lambda>e. fst e < 4 \<or> AClose (fst e) \<in> set prog) (tab_before 5) \<and>
     (\<forall>i < 5. child_ok i (w_children w ! i) \<and>
        ch_executed (w_children w ! i) @ w_queue w i @ writes_to (int i + 4) prog = writes_to (int i + 4) prog0 \<and>
        (\<forall>x \<in> set (w_queue w i). 0 \<le> x \<and> x < TASK_NUM) \<and>
        (ch_pc (w_children w ! i) = Gone \<longrightarrow> w_queue w i = [] \<and> writes_to (int i + 4) prog = []) \<and>
        (AWait (int i) \<in> set prog \<or> ch_pc (w_children w ! i) = Gone)))"

lemma parent_end5:
  assumes "w_parent w = filter (\<lambda>e. fst e < 4 \<or> AClose (fst e) \<in> set prog) (tab_before 5)" "q < 5"
  shows "has_end (Wr q) (w_parent w) \<longleftrightarrow> AClose (int q + 4) \<in> set prog"
    and "AClose (int q + 4) \<in> set prog \<Longrightarrow> map_of (w_parent w) (int q + 4) = Some (Wr q)"
  using assms(2) unfolding assms(1)
  by (auto simp: has_end_def tab_before_def eval_nat_numeral list_ex_iff less_Suc_eq)

lemma new_childD:
  assumes "i < 5"
  shows "has_end (Rd i) (ch_tab (new_child i))" "has_end (Rd i) (child_setup (new_child i))"
    "map_of (child_setup (new_child i)) 0 = Some (Rd i)" "q < 5 \<Longrightarrow> \<not> has_end (Wr q) (child_setup (new_child i))"
  using new_child_facts assms by (auto simp: list_all_iff)

lemma has_end_nil [simp]: "\<not> has_end e []"
  by (simp add: has_end_def)

text \<open>A child only touches itself and its own pipe.\<close>

lemma ctrl_inv_child:
  assumes inv: "ctrl_inv prog0 (prog, w)" and i: "i < 5" "child_step i w = Some w'"
    and total: "\<forall>i < 5. length (writes_to (int i + 4) prog0) \<le> EXE_NUM"
  shows "ctrl_inv prog0 (prog, w')"
proof -
  define c where "c = w_children w ! i"
  have l: "length (w_children w) = 5" and ord: "ordered prog"
    and par: "w_parent w = filter (\<lambda>e. fst e < 4 \<or> AClose (fst e) \<in> set prog) (tab_before 5)"
    using inv by (simp_all add: ctrl_inv_def)
  have all: "child_ok j (w_children w ! j)"
    "ch_executed (w_children w ! j) @ w_queue w j @ writes_to (int j + 4) prog = writes_to (int j + 4) prog0"
    "\<forall>x \<in> set (w_queue w j). 0 \<le> x \<and> x < TASK_NUM"
    "ch_pc (w_children w ! j) = Gone \<longrightarrow> w_queue w j = [] \<and> writes_to (int j + 4) prog = []"
    "AWait (int j) \<in> set prog \<or> ch_pc (w_children w ! j) = Gone" if "j < 5" for j
    using inv that by (simp_all add: ctrl_inv_def)
  note ci = all [OF i(1), folded c_def]
  have other: "ctrl_inv prog0 (prog, w\<lparr>w_children := (w_children w)[i := c'], w_queue := (w_queue w)(i := q)\<rparr>)"
    if h: "child_ok i c'" "ch_executed c' @ q @ writes_to (int i + 4) prog = writes_to (int i + 4) prog0"
      "\<forall>x \<in> set q. 0 \<le> x \<and> x < TASK_NUM" "ch_pc c' = Gone \<longrightarrow> q = [] \<and> writes_to (int i + 4) prog = []"
      "AWait (int i) \<in> set prog \<or> ch_pc c' = Gone" for c' q
  proof -
    have "child_ok j ((w_children w)[i := c'] ! j) \<and>
        ch_executed ((w_children w)[i := c'] ! j) @ ((w_queue w)(i := q)) j @ writes_to (int j + 4) prog = writes_to (int j + 4) prog0 \<and>
        (\<forall>x \<in> set (((w_queue w)(i := q)) j). 0 \<le> x \<and> x < TASK_NUM) \<and>
        (ch_pc ((w_children w)[i := c'] ! j) = Gone \<longrightarrow> ((w_queue w)(i := q)) j = [] \<and> writes_to (int j + 4) prog = []) \<and>
        (AWait (int j) \<in> set prog \<or> ch_pc ((w_children w)[i := c'] ! j) = Gone)" if "j < 5" for j
      using all [OF that] h that l i(1) by (cases "j = i") simp_all
    then show ?thesis using l ord par by (simp add: ctrl_inv_def)
  qed
  have same: "w\<lparr>w_children := (w_children w)[i := c'], w_queue := (w_queue w)(i := w_queue w i)\<rparr>
      = w\<lparr>w_children := (w_children w)[i := c']\<rparr>" for c' by simp
  show ?thesis
  proof (cases "ch_pc c")
    case Starting
    have st: "child_setup c = child_setup (new_child i)"
      using ci(1) Starting by (simp add: child_ok_def child_setup_def)
    have w': "w' = w\<lparr>w_children := (w_children w)[i := c\<lparr>ch_tab := child_setup c, ch_pc := Reading 0\<rparr>]\<rparr>"
      using i(2) Starting by (simp add: child_step_def c_def Let_def)
    have "ctrl_inv prog0 (prog, w\<lparr>w_children := (w_children w)[i := c\<lparr>ch_tab := child_setup c, ch_pc := Reading 0\<rparr>],
        w_queue := (w_queue w)(i := w_queue w i)\<rparr>)"
      using ci Starting by (intro other) (simp_all add: child_ok_def st)
    then show ?thesis unfolding same w' .
  next
    case Gone
    with i(2) show ?thesis by (simp add: child_step_def c_def Let_def)
  next
    case (Reading n)
    have m: "map_of (ch_tab c) 0 = Some (Rd i)" "n = length (ch_executed c)"
      using ci(1) Reading new_childD(3) [OF i(1)] by (simp_all add: child_ok_def)
    have gone: "ctrl_inv prog0 (prog, w\<lparr>w_children := (w_children w)[i := child_gone c]\<rparr>)"
      if "w_queue w i = []" "writes_to (int i + 4) prog = []"
    proof -
      have "ctrl_inv prog0 (prog, w\<lparr>w_children := (w_children w)[i := child_gone c], w_queue := (w_queue w)(i := w_queue w i)\<rparr>)"
        using ci that by (intro other) (simp_all add: child_ok_def child_gone_def)
      then show ?thesis unfolding same .
    qed
    show ?thesis
    proof (cases "n < EXE_NUM")
      case False
      moreover have "length (writes_to (int i + 4) prog0) \<le> EXE_NUM" using total i(1) by blast
      moreover have "length (ch_executed c) + (length (w_queue w i) + length (writes_to (int i + 4) prog))
          = length (writes_to (int i + 4) prog0)" using arg_cong [OF ci(2), of length] by simp
      ultimately have "length (w_queue w i) + length (writes_to (int i + 4) prog) = 0" using m(2) by linarith
      then have "w_queue w i = []" "writes_to (int i + 4) prog = []" by simp_all
      moreover have "w' = w\<lparr>w_children := (w_children w)[i := child_gone c]\<rparr>"
        using i(2) Reading False by (simp add: child_step_def c_def Let_def)
      ultimately show ?thesis using gone by simp
    next
      case True
      show ?thesis
      proof (cases "w_queue w i")
        case Nil
        have e: "\<not> open_end (Wr i) w" "w' = w\<lparr>w_children := (w_children w)[i := child_gone c]\<rparr>"
          using i(2) Reading True Nil m(1) by (simp_all add: child_step_def c_def Let_def split: if_splits)
        from e(1) have "\<not> has_end (Wr i) (w_parent w)" by (simp add: open_end_def)
        then have "AClose (int i + 4) \<notin> set prog" using parent_end5(1) [OF par i(1)] by simp
        with ordered_closed [OF ord] have "writes_to (int i + 4) prog = []" by blast
        with gone [OF Nil] e(2) show ?thesis by simp
      next
        case (Cons x xs)
        have x: "0 \<le> x" "x < TASK_NUM" using ci(3) Cons by simp_all
        let ?c = "c\<lparr>ch_pc := Reading (Suc n), ch_executed := Execute x (ch_executed c)\<rparr>"
        have "w' = w\<lparr>w_children := (w_children w)[i := ?c], w_queue := (w_queue w)(i := xs)\<rparr>"
          using i(2) Reading True Cons m(1) by (simp add: child_step_def c_def Let_def)
        moreover have "ctrl_inv prog0 (prog, w\<lparr>w_children := (w_children w)[i := ?c], w_queue := (w_queue w)(i := xs)\<rparr>)"
          using ci Reading Cons x by (intro other) (simp_all add: child_ok_def Execute_def)
        ultimately show ?thesis by simp
      qed
    qed
  qed
qed

lemma ctrl_inv_parent:
  assumes inv: "ctrl_inv prog0 (a # prog, w)" and st: "parent_step a w = Some w'"
  shows "ctrl_inv prog0 (prog, w')"
proof -
  have l: "length (w_children w) = 5" and ord: "ordered (a # prog)"
    and par: "w_parent w = filter (\<lambda>e. fst e < 4 \<or> AClose (fst e) \<in> set (a # prog)) (tab_before 5)"
    using inv by (simp_all add: ctrl_inv_def)
  have all: "child_ok j (w_children w ! j)"
    "ch_executed (w_children w ! j) @ w_queue w j @ writes_to (int j + 4) (a # prog) = writes_to (int j + 4) prog0"
    "\<forall>x \<in> set (w_queue w j). 0 \<le> x \<and> x < TASK_NUM"
    "ch_pc (w_children w ! j) = Gone \<longrightarrow> w_queue w j = [] \<and> writes_to (int j + 4) (a # prog) = []"
    "AWait (int j) \<in> set (a # prog) \<or> ch_pc (w_children w ! j) = Gone" if "j < 5" for j
    using inv that by (simp_all add: ctrl_inv_def)
  show ?thesis
  proof (cases a)
    case (AWrite fd x)
    with ord obtain q where q: "q < 5" "fd = int q + 4" "AClose fd \<in> set prog" "0 \<le> x" "x < TASK_NUM"
      by (intro that [of "nat (fd - 4)"]) auto
    have "map_of (w_parent w) fd = Some (Wr q)" using parent_end5(2) [OF par q(1)] q(2,3) by simp
    with st AWrite have w': "w' = w\<lparr>w_queue := (w_queue w)(q := w_queue w q @ [x])\<rparr>"
      by (simp add: parent_step_def split: if_splits)
    have ng: "ch_pc (w_children w ! q) \<noteq> Gone" using all(4) [OF q(1)] AWrite q(2) by auto
    have "child_ok j (w_children w' ! j) \<and>
        ch_executed (w_children w' ! j) @ w_queue w' j @ writes_to (int j + 4) prog = writes_to (int j + 4) prog0 \<and>
        (\<forall>x \<in> set (w_queue w' j). 0 \<le> x \<and> x < TASK_NUM) \<and>
        (ch_pc (w_children w' ! j) = Gone \<longrightarrow> w_queue w' j = [] \<and> writes_to (int j + 4) prog = []) \<and>
        (AWait (int j) \<in> set prog \<or> ch_pc (w_children w' ! j) = Gone)" if "j < 5" for j
      using all [OF that] AWrite q ng by (cases "j = q") (auto simp: w')
    then show ?thesis using l ord par AWrite by (simp add: ctrl_inv_def w')
  next
    case (AClose fd)
    with st have w': "w' = w\<lparr>w_parent := fd_close fd (w_parent w)\<rparr>" by (simp add: parent_step_def)
    have fd: "fd \<in> {4..8}" "AClose fd \<notin> set prog" using ord AClose by auto
    have "fd_close fd (w_parent w) = filter (\<lambda>e. fst e < 4 \<or> AClose (fst e) \<in> set prog) (tab_before 5)"
      unfolding par fd_close_def filter_filter by (rule filter_cong [OF refl]) (use fd AClose in auto)
    then show ?thesis using l ord all AClose by (simp add: ctrl_inv_def w')
  next
    case (AWait p)
    with ord have p: "0 \<le> p" "p < 5" by auto
    from st AWait have w': "w' = w" by (simp add: parent_step_def split: if_splits)
    from st AWait p l have g: "ch_pc (w_children w ! nat p) = Gone" by (simp add: parent_step_def split: if_splits)
    have "AWait (int j) \<in> set prog \<or> ch_pc (w_children w ! j) = Gone" if "j < 5" for j
      using all(5) [OF that] AWait g by auto
    then show ?thesis using l ord par all AWait by (simp add: ctrl_inv_def w')
  qed
qed

lemma ctrl_inv_step:
  assumes "ctrl_step s s'" "ctrl_inv prog0 s" "\<forall>i < 5. length (writes_to (int i + 4) prog0) \<le> EXE_NUM"
  shows "ctrl_inv prog0 s'"
  using assms(1)
proof cases
  case (parent a w w' prog)
  with assms(2) show ?thesis by (auto intro: ctrl_inv_parent)
next
  case (child i w w' prog)
  with assms(2) have "i < 5" by (simp add: ctrl_inv_def)
  with child assms(2,3) show ?thesis by (auto intro: ctrl_inv_child)
qed

section \<open>Everything ends\<close>

definition pc_weight :: "child_pc \<Rightarrow> nat" where
  "pc_weight pc = (case pc of Starting \<Rightarrow> EXE_NUM + 3
     | Reading n \<Rightarrow> (if n < EXE_NUM then EXE_NUM + 2 - n else 1) | Gone \<Rightarrow> 0)"

definition ctrl_measure :: "action list \<times> world \<Rightarrow> nat" where
  "ctrl_measure = (\<lambda>(prog, w). length prog + sum_list (map (\<lambda>c. pc_weight (ch_pc c)) (w_children w)))"

lemma sum_list_update_less:
  "i < length xs \<Longrightarrow> f x < f (xs ! i) \<Longrightarrow> sum_list (map f (xs[i := x])) < sum_list (map (f :: _ \<Rightarrow> nat) xs)"
  by (induction xs arbitrary: i) (auto split: nat.splits)

lemma child_step_less:
  assumes "i < length (w_children w)" "child_step i w = Some w'"
  shows "w_children w' = (w_children w)[i := w_children w' ! i] \<and>
    pc_weight (ch_pc (w_children w' ! i)) < pc_weight (ch_pc (w_children w ! i))"
  using assms
  by (auto simp: child_step_def Let_def pc_weight_def child_gone_def EXE_NUM_def
      split: child_pc.splits if_splits option.splits pipe_end.splits list.splits)

lemma ctrl_step_less: "ctrl_step s s' \<Longrightarrow> ctrl_measure s' < ctrl_measure s"
proof (erule ctrl_step.cases)
  fix a w w' prog
  assume "s = (a # prog, w)" "s' = (prog, w')" "parent_step a w = Some w'"
  moreover from this have "w_children w' = w_children w"
    by (auto simp: parent_step_def split: action.splits option.splits pipe_end.splits if_splits)
  ultimately show ?thesis by (simp add: ctrl_measure_def)
next
  fix i w w' prog
  assume s: "s = (prog, w)" "s' = (prog, w')" "i < length (w_children w)" "child_step i w = Some w'"
  define c where "c = w_children w' ! i"
  from child_step_less [OF s(3,4)] have "w_children w' = (w_children w)[i := c]"
    "pc_weight (ch_pc c) < pc_weight (ch_pc (w_children w ! i))" by (simp_all add: c_def)
  with s(1-3) sum_list_update_less [of i "w_children w" "\<lambda>c. pc_weight (ch_pc c)" c] show ?thesis
    by (simp add: ctrl_measure_def)
qed

interpretation ctrl_run: measured_steps ctrl_step "\<lambda>s. True" ctrl_measure
  by unfold_locales (simp_all add: ctrl_step_less)

lemmas ctrl_steps_bound = ctrl_run.run_bounded [OF _ TrueI, THEN conjunct2]

text \<open>As long as the parent has something left to do, somebody can go on.\<close>

lemma ctrl_progress:
  assumes inv: "ctrl_inv prog0 (prog, w)" and stuck: "\<And>s'. \<not> ctrl_step (prog, w) s'"
  shows "prog = []"
proof (rule ccontr)
  assume "prog \<noteq> []"
  then obtain a p where prog: "prog = a # p" by (cases prog) auto
  have l: "length (w_children w) = 5" and ord: "ordered (a # p)"
    and par: "w_parent w = filter (\<lambda>e. fst e < 4 \<or> AClose (fst e) \<in> set (a # p)) (tab_before 5)"
    using inv prog by (simp_all add: ctrl_inv_def)
  have ok: "child_ok j (w_children w ! j)" "ch_pc (w_children w ! j) = Gone \<longrightarrow> writes_to (int j + 4) (a # p) = []"
    if "j < 5" for j using inv prog that by (simp_all add: ctrl_inv_def)
  have np: "parent_step a w = None"
  proof (cases "parent_step a w")
    case (Some w')
    then have "ctrl_step (prog, w) (p, w')" unfolding prog by (rule ctrl_step.parent)
    with stuck show ?thesis by blast
  qed
  have nc: "child_step j w = None" if "j < 5" for j
  proof (cases "child_step j w")
    case (Some w')
    with that l have "ctrl_step (prog, w) (prog, w')" by (intro ctrl_step.child [of j]) simp_all
    with stuck show ?thesis by blast
  qed
  have nostart: "ch_pc (w_children w ! j) \<noteq> Starting" if "j < 5" for j
    using nc [OF that] by (auto simp: child_step_def Let_def)
  have nowr: "\<not> has_end (Wr q) (ch_tab (w_children w ! j))" if "j < 5" "q < 5" for j q
    using ok(1) [OF that(1)] nostart [OF that(1)] new_childD(4) [OF that] by (auto simp: child_ok_def split: child_pc.splits)
  show False
  proof (cases a)
    case (AWrite fd x)
    with ord have "fd \<in> {4..8}" by simp
    then obtain q where q: "q < 5" "fd = int q + 4" by (intro that [of "nat (fd - 4)"]) auto
    have cl: "AClose fd \<in> set (a # p)" using ord AWrite by simp
    have m: "map_of (w_parent w) fd = Some (Wr q)" using parent_end5(2) [OF par q(1)] cl q(2) by simp
    have "ch_pc (w_children w ! q) \<noteq> Gone" using ok(2) [OF q(1)] AWrite q(2) by auto
    then have "has_end (Rd q) (ch_tab (w_children w ! q))"
      using ok(1) [OF q(1)] new_childD(1,2) [OF q(1)] by (auto simp: child_ok_def split: child_pc.splits)
    moreover have "w_children w ! q \<in> set (w_children w)" using q(1) l by simp
    ultimately have "open_end (Rd q) w" by (auto simp: open_end_def list_ex_iff)
    with np AWrite m show False by (simp add: parent_step_def)
  next
    case (AClose fd)
    with np show False by (simp add: parent_step_def)
  next
    case (AWait pid)
    with ord have pid: "0 \<le> pid" "pid < 5" "AClose (pid + 4) \<notin> set p" by auto
    define j where "j = nat pid"
    have j: "j < 5" "int j = pid" using pid by (simp_all add: j_def)
    from np AWait pid l have "ch_pc (w_children w ! j) \<noteq> Gone" by (auto simp: parent_step_def j_def split: if_splits)
    with nostart [OF j(1)] obtain n where n: "ch_pc (w_children w ! j) = Reading n" by (cases "ch_pc (w_children w ! j)") auto
    have m: "map_of (ch_tab (w_children w ! j)) 0 = Some (Rd j)"
      using ok(1) [OF j(1)] n new_childD(3) [OF j(1)] by (simp add: child_ok_def)
    have "open_end (Wr j) w"
      using nc [OF j(1)] n m by (auto simp: child_step_def Let_def split: if_splits list.splits)
    moreover have "\<not> has_end (Wr j) (w_parent w)"
      using parent_end5(1) [OF par j(1)] AWait pid(3) j(2) by simp
    ultimately obtain i where "i < 5" "has_end (Wr j) (ch_tab (w_children w ! i))"
      using l by (auto simp: open_end_def list_ex_iff in_set_conv_nth)
    with nowr j(1) show False by blast
  qed
qed

lemma ctrl_inv_start:
  assumes "ordered (parent_prog ws)"
  shows "ctrl_inv (parent_prog ws) (parent_prog ws, world5)"
proof -
  have w: "AWait (int i) \<in> set (parent_prog ws)" if "i < 5" for i
    using that by (auto simp: parent_prog_def WaitProcess5 less_Suc_eq eval_nat_numeral)
  have "filter (\<lambda>e. fst e < 4 \<or> AClose (fst e) \<in> set (parent_prog ws)) (tab_before 5) = tab_before 5"
    by (rule filter_True) (auto simp: tab_before_def parent_prog_def WaitProcess5 less_Suc_eq eval_nat_numeral)
  with assms w show ?thesis
    by (simp add: ctrl_inv_def world5_def child_ok_def nth_map_upt) (simp add: new_child_def)
qed

lemma typed_range: "x \<in> set (typed input) \<Longrightarrow> 0 \<le> x \<and> x < TASK_NUM"
  by (induction input) (auto simp: TASK_NUM_def split: if_splits)

lemma length_eps5: "length eps5 = 5"
  by (simp add: eps5_def)

lemma eps5_write: "i < 5 \<Longrightarrow> ep_write_id (eps5 ! i) = int i + 4"
  by (simp add: eps5_def)

definition sent5 :: "int list \<Rightarrow> (int \<times> int) list" where
  "sent5 xs = map (\<lambda>k. (int (Suc k mod CHILD_NUM) + 4, xs ! k)) [0..<length xs]"

lemma CtrlProcess5: "CtrlProcess eps5 input = Done (sent5 (commands input))"
  unfolding CtrlProcess_sends by (simp add: length_eps5 CHILD_NUM_def sent5_def eps5_write)

lemma ordered_sent5: "ordered (parent_prog (sent5 (commands input)))"
proof (rule ordered_parent_prog, clarify)
  fix fd x
  assume "(fd, x) \<in> set (sent5 (commands input))"
  then obtain k where k: "k < length (commands input)" "fd = int (Suc k mod CHILD_NUM) + 4" "x = commands input ! k"
    by (auto simp: sent5_def)
  then have "x \<in> set (typed input)" by (metis commands_def in_set_takeD nth_mem)
  moreover have "Suc k mod CHILD_NUM < 5" by (simp add: CHILD_NUM_def)
  ultimately show "fd \<in> {4..8} \<and> 0 \<le> x \<and> x < TASK_NUM" using typed_range k(2) by auto
qed

lemma writes_to_sent5:
  "writes_to (int i + 4) (parent_prog (sent5 xs)) =
     map (\<lambda>k. xs ! k) (filter (\<lambda>k. Suc k mod CHILD_NUM = i) [0..<length xs])"
proof -
  have m: "writes_to (int i + 4) (map (\<lambda>(fd, x). AWrite fd x) (map (\<lambda>k. (int (Suc k mod CHILD_NUM) + 4, xs ! k)) ks))
      = map (\<lambda>k. xs ! k) (filter (\<lambda>k. Suc k mod CHILD_NUM = i) ks)" for ks
    by (induction ks) auto
  have "writes_to (int i + 4) (WaitProcess eps5) = []" by (simp add: WaitProcess5)
  then show ?thesis unfolding parent_prog_def sent5_def by (simp only: writes_to_simps m append_Nil2)
qed

lemma ctrl_sent_inv:
  assumes "(ctrl_step ^^ n) (parent_prog (sent5 (commands input)), world5) s"
  shows "ctrl_inv (parent_prog (sent5 (commands input))) s"
proof -
  let ?p = "parent_prog (sent5 (commands input))"
  have total: "\<forall>i < 5. length (writes_to (int i + 4) ?p) \<le> EXE_NUM"
  proof (intro allI impI)
    fix i :: nat
    have "length (writes_to (int i + 4) ?p) \<le> length [0..<length (commands input)]"
      unfolding writes_to_sent5 length_map by (rule length_filter_le)
    also have "\<dots> \<le> EXE_NUM" by (simp add: commands_def)
    finally show "length (writes_to (int i + 4) ?p) \<le> EXE_NUM" .
  qed
  show ?thesis
    using assms
  proof (induction n arbitrary: s)
    case 0
    then show ?case using ctrl_inv_start [OF ordered_sent5] by auto
  next
    case (Suc n)
    then obtain u where "(ctrl_step ^^ n) (?p, world5) u" "ctrl_step u s" by auto
    with Suc.IH total show ?case by (blast intro: ctrl_inv_step)
  qed
qed

lemma ctrl_ends_right:
  assumes "(ctrl_step ^^ n) (parent_prog (sent5 (commands input)), world5) (prog, w)"
  shows "n \<le> ctrl_measure (parent_prog (sent5 (commands input)), world5) \<and>
      ((\<forall>s. \<not> ctrl_step (prog, w) s) \<longrightarrow>
        prog = [] \<and> (\<forall>i < CHILD_NUM. ch_pc (w_children w ! i) = Gone \<and>
          ch_executed (w_children w ! i) = map (\<lambda>k. commands input ! k)
            (filter (\<lambda>k. Suc k mod CHILD_NUM = i) [0..<length (commands input)])))"
proof (intro conjI impI)
  show "n \<le> ctrl_measure ((parent_prog (sent5 (commands input))), world5)" using ctrl_steps_bound [OF assms] by simp
  assume stuck: "\<forall>s. \<not> ctrl_step (prog, w) s"
  then show nil: "prog = []" using ctrl_progress [OF ctrl_sent_inv [OF assms]] by blast
  show "\<forall>i < CHILD_NUM. ch_pc (w_children w ! i) = Gone \<and>
        ch_executed (w_children w ! i) = map (\<lambda>k. commands input ! k)
          (filter (\<lambda>k. Suc k mod CHILD_NUM = i) [0..<length (commands input)])"
  proof (intro allI impI)
    fix i
    assume "i < CHILD_NUM"
    then have i: "i < 5" by (simp add: CHILD_NUM_def)
    have "ctrl_inv (parent_prog (sent5 (commands input))) ([], w)" using ctrl_sent_inv [OF assms] nil by simp
    with i have "ch_pc (w_children w ! i) = Gone" "w_queue w i = []"
      "ch_executed (w_children w ! i) @ w_queue w i @ writes_to (int i + 4) [] = writes_to (int i + 4) (parent_prog (sent5 (commands input)))"
      by (auto simp: ctrl_inv_def)
    then show "ch_pc (w_children w ! i) = Gone \<and> ch_executed (w_children w ! i) = map (\<lambda>k. commands input ! k)
          (filter (\<lambda>k. Suc k mod CHILD_NUM = i) [0..<length (commands input)])"
      by (simp add: writes_to_sent5)
  qed
qed

text \<open>C23. The process pool of 5.26, from the creation of its five children, for every input and under
  every interleaving of the parent and the children: it makes only finitely many steps, and it
  stops only when the parent is done, so no wait hangs although every child was forked with the
  write ends of the pipes before it, and no write meets a pipe without a reader. By then every
  child is gone, and each has run exactly the commands meant for it, in the order of the input.\<close>

theorem ctrl_wait_all:
  "\<exists>ws eps w0 N. CreatProcesses (replicate 5 Created) = (eps, w0) \<and> CtrlProcess eps input = Done ws \<and>
    (\<forall>n prog w. (ctrl_step ^^ n) (map (\<lambda>(fd, x). AWrite fd x) ws @ WaitProcess eps, w0) (prog, w) \<longrightarrow>
      n \<le> N \<and>
      ((\<forall>s. \<not> ctrl_step (prog, w) s) \<longrightarrow>
        prog = [] \<and> (\<forall>i < CHILD_NUM. ch_pc (w_children w ! i) = Gone \<and>
          ch_executed (w_children w ! i) = map (\<lambda>k. commands input ! k)
            (filter (\<lambda>k. Suc k mod CHILD_NUM = i) [0..<length (commands input)]))))"
  using create_five CtrlProcess5 [of input] ctrl_ends_right unfolding parent_prog_def by blast

lemma ctrl_wait_all_witness:
  "\<exists>ws eps w0. CreatProcesses (replicate 5 Created) = (eps, w0) \<and> CtrlProcess eps [0, 7, 2, 3] = Done ws"
  using ctrl_wait_all [of "[0, 7, 2, 3]"] by blast

section \<open>Without the closing of inherited ends\<close>

text \<open>The version of 5.25 does not close the inherited write ends: after its set-up, child i
  still has the write ends of the pipes of all children before it, so closing a pipe in the parent
  does not end the input of its child; the version of 5.26 leaves each pipe to the parent alone.\<close>

theorem ctrl_inherited_ends:
  "list_all (\<lambda>i. list_all (\<lambda>q.
     (has_end (Wr q) (child_setup_25 (w_children (snd (CreatProcesses (replicate 5 Created))) ! i)) \<longleftrightarrow> q < i) \<and>
     \<not> has_end (Wr q) (child_setup (w_children (snd (CreatProcesses (replicate 5 Created))) ! i))) [0..<5]) [0..<5]"
proof -
  have c: "list_all (\<lambda>i. list_all (\<lambda>q. (has_end (Wr q) (child_setup_25 (new_child i)) \<longleftrightarrow> q < i) \<and>
      \<not> has_end (Wr q) (child_setup (new_child i))) [0..<5]) [0..<5]"
    by code_simp
  have "w_children (snd (CreatProcesses (replicate 5 Created))) ! i = new_child i" if "i < 5" for i
    using that by (simp add: create_five world5_def nth_map_upt)
  with c show ?thesis by (simp add: list_all_iff)
qed

end
