(* ===== verification/Tcp.thy ===== *)
theory Tcp
  imports CalServer Examples
begin

text \<open>
  The echo servers \<open>7.18/tcp_socket\<close>, a thread per connection, and \<open>7.19/tcp_socket\<close>, whose
  connections are tasks of the thread pool, with their client (\<open>tcp_client.cc\<close>).
\<close>

section \<open>The service of a connection\<close>

function tcp_service :: "(string \<Rightarrow> string outcome) \<Rightarrow> int \<Rightarrow> kernel \<Rightarrow> kernel outcome" where
  "tcp_service func sock k =
     bind_out (k_recv sock k) (\<lambda>(call, k1). case call of (old, r) \<Rightarrow>
       (case r of
          RData data \<Rightarrow>
            (if data = [] then Done (k_close sock k1)
             else bind_out (bind_out (buf_set (recv_into old data) (int (length data)) NUL) c_string) (\<lambda>str.
                  bind_out (func str) (\<lambda>res.
                  bind_out (k_send sock res k1) (tcp_service func sock))))
        | REof \<Rightarrow> Done (k_close sock k1)
        | RErr e \<Rightarrow> Done (k_close sock k1)))"
  by pat_completeness auto
termination
  by (relation "measure (\<lambda>(func, sock, k). length (k_recvs k sock))")
     (auto simp: k_recv_iff dest!: k_send_recvs)

declare tcp_service.simps [simp del]

definition tcp_handle :: "string \<Rightarrow> string outcome" where
  "tcp_handle str = Done str"

section \<open>The two servers\<close>

record tcp_server =
  ts_listen_sock :: sock
  ts_threads :: "thread_data list"
  ts_kern :: kernel

definition tcp_server_init :: "int \<Rightarrow> kernel \<Rightarrow> tcp_server outcome" where
  "tcp_server_init port k =
     bind_out (open_listener port k) (\<lambda>(so, k1).
       Done \<lparr>ts_listen_sock = so, ts_threads = [], ts_kern = k1\<rparr>)"

text \<open>One round of the accepting loop; \<open>len\<close> is the uninitialised length given to \<open>accept\<close>.\<close>

definition tcp_accept :: "int \<Rightarrow> tcp_server \<Rightarrow> tcp_server outcome" where
  "tcp_accept len s =
     bind_out (sock_Accept_uninit len (ts_listen_sock s) (ts_kern s)) (\<lambda>(r, k). case r of (n, addr) \<Rightarrow>
       if n < 0 then Done (s\<lparr>ts_kern := k\<rparr>)
       else (case addr of
           None \<Rightarrow> Crash Uninitialised
         | Some (ip, port) \<Rightarrow> Done (s\<lparr>ts_kern := k,
             ts_threads := ts_threads s @ [\<lparr>td_sock = n, td_ip = ip, td_port = port\<rparr>]\<rparr>)))"

definition tcp_thread_func :: "(string \<Rightarrow> string outcome) \<Rightarrow> thread_data \<Rightarrow> kernel \<Rightarrow> kernel outcome" where
  "tcp_thread_func func td k = tcp_service func (td_sock td) k"

text \<open>The task of 7.19: a connection and the member function bound to it.\<close>

record tcp_task =
  tt_sock :: int
  tt_client_ip :: string
  tt_client_port :: int
  tt_callback :: "int \<Rightarrow> string \<Rightarrow> int \<Rightarrow> kernel \<Rightarrow> kernel outcome"

definition tcp_task_call :: "tcp_task \<Rightarrow> kernel \<Rightarrow> kernel outcome" where
  "tcp_task_call t k = tt_callback t (tt_sock t) (tt_client_ip t) (tt_client_port t) k"

record tcp_pool_server =
  tps_listen_sock :: sock
  tps_tasks :: "tcp_task list"   \<comment> \<open>what was pushed to the pool\<close>
  tps_kern :: kernel

definition tcp_pool_accept :: "(string \<Rightarrow> string outcome) \<Rightarrow> int \<Rightarrow> tcp_pool_server \<Rightarrow> tcp_pool_server outcome" where
  "tcp_pool_accept func len s =
     bind_out (sock_Accept_uninit len (tps_listen_sock s) (tps_kern s)) (\<lambda>(r, k). case r of (n, addr) \<Rightarrow>
       if n < 0 then Done (s\<lparr>tps_kern := k\<rparr>)
       else (case addr of
           None \<Rightarrow> Crash Uninitialised
         | Some (ip, port) \<Rightarrow> Done (s\<lparr>tps_kern := k, tps_tasks := tps_tasks s @
             [\<lparr>tt_sock = n, tt_client_ip = ip, tt_client_port = port,
               tt_callback = (\<lambda>sock client_ip client_port. tcp_service func sock)\<rparr>]\<rparr>)))"

section \<open>The client\<close>

text \<open>Connecting, with the answers of the attempts: \<open>cnt\<close> failures are put up with.\<close>

fun connect_retry :: "bool list \<Rightarrow> int \<Rightarrow> int outcome" where
  "connect_retry [] cnt = Blocked"
| "connect_retry (ok # answers) cnt =
     (if ok then Done cnt
      else if cnt - 1 \<le> 0 then Done (cnt - 1)
      else connect_retry answers (cnt - 1))"

definition tcp_connect :: "bool list \<Rightarrow> unit outcome" where
  "tcp_connect answers =
     bind_out (connect_retry answers 5) (\<lambda>cnt. if cnt \<le> 0 then Crash (ExitWith CONNECT_ERROR) else Done ())"

text \<open>The loop over the lines typed. The array keeps its contents and gets no terminating zero.\<close>

fun tcp_client_loop :: "int \<Rightarrow> string \<Rightarrow> string list \<Rightarrow> string list \<Rightarrow> kernel \<Rightarrow> (string list \<times> kernel) outcome" where
  "tcp_client_loop sock buffer [] shown k = Done (shown, k)"
| "tcp_client_loop sock buffer (str # lines) shown k =
     bind_out (k_send sock str k) (\<lambda>k1.
     bind_out (k_recv sock k1) (\<lambda>(call, k2). case snd call of
          RData data \<Rightarrow>
            (if data = [] then Done (shown, k_close sock k2)
             else let buffer = recv_into buffer data
                  in bind_out (c_string buffer) (\<lambda>text. tcp_client_loop sock buffer lines (shown @ [text]) k2))
        | REof \<Rightarrow> Done (shown, k_close sock k2)
        | RErr e \<Rightarrow> Done (shown, k_close sock k2)))"

section \<open>What the service echoes\<close>

lemma tcp_service_data:
  assumes "k_recvs k sock = (old, RData d) # rest" "chunk_ok (old, d)" "func (c_str d) = Done res"
    and "k_sends k sock = SRet n e # ss" "int (length res) \<le> n"
  shows "tcp_service func sock k = tcp_service func sock
    (k\<lparr>k_recvs := (k_recvs k)(sock := rest), k_sends := (k_sends k)(sock := ss),
       k_sent := (k_sent k)(sock := k_sent k sock @ res)\<rparr>)"
proof -
  let ?k1 = "k\<lparr>k_recvs := (k_recvs k)(sock := rest)\<rparr>"
  have l: "length d < length old" "d \<noteq> []" using assms(2) by (simp_all add: chunk_ok_def)
  have "take (nat n) res = res" using assms(5) by simp
  then have s: "k_send sock res ?k1 = Done (k\<lparr>k_recvs := (k_recvs k)(sock := rest), k_sends := (k_sends k)(sock := ss),
       k_sent := (k_sent k)(sock := k_sent k sock @ res)\<rparr>)"
    using assms(4,5) by (cases "0 < n") (simp_all add: k_send_def)
  have "tcp_service func sock k = bind_out (k_send sock res ?k1) (tcp_service func sock)"
    using assms(1,3) l terminated_recv_c_string [OF l(1)]
    by (simp add: tcp_service.simps [of func sock k] k_recv_def del: bind_out_Done_iff)
  then show ?thesis unfolding s by simp
qed

lemma tcp_service_all:
  assumes "list_all chunk_ok cs" "k_recvs k sock = data_calls cs @ call # rest"
    and "list_all takes_all (k_sends k sock)" "length cs \<le> length (k_sends k sock)"
    and "list_all (\<lambda>(old, d). func (c_str d) = Done (f (c_str d)) \<and> length (f (c_str d)) \<le> 2 ^ 31) cs"
  shows "\<exists>k'. tcp_service func sock k = tcp_service func sock k' \<and> k_recvs k' sock = call # rest \<and>
    other_fds_same sock k k' \<and> k_sent k' sock = k_sent k sock @ concat (map (\<lambda>(old, d). f (c_str d)) cs) \<and>
    k_sends k' sock = drop (length cs) (k_sends k sock)"
  using assms
proof (induction cs arbitrary: k)
  case Nil
  then show ?case by (intro exI [of _ k]) (simp add: data_calls_def other_fds_same_def)
next
  case (Cons c cs)
  obtain old d where c: "c = (old, d)" by (cases c)
  obtain s ss where ss: "k_sends k sock = s # ss" "takes_all s" "list_all takes_all ss" "length cs \<le> length ss"
    using Cons.prems(3,4) by (cases "k_sends k sock") auto
  obtain n e where s: "s = SRet n e" "2 ^ 31 \<le> n" using ss(2) by (cases s) (auto simp: takes_all_def)
  define k1 where "k1 = k\<lparr>k_recvs := (k_recvs k)(sock := data_calls cs @ call # rest), k_sends := (k_sends k)(sock := ss),
       k_sent := (k_sent k)(sock := k_sent k sock @ f (c_str d))\<rparr>"
  have ok: "chunk_ok (old, d)" "func (c_str d) = Done (f (c_str d))" "length (f (c_str d)) \<le> 2 ^ 31"
    using Cons.prems(1,5) c by simp_all
  have "int (length (f (c_str d))) \<le> 2 ^ 31" using ok(3) by (metis of_nat_le_iff of_nat_numeral of_nat_power)
  then have "int (length (f (c_str d))) \<le> n" using s(2) by (rule order_trans)
  with ok ss(1) s(1) Cons.prems(2) c have step: "tcp_service func sock k = tcp_service func sock k1"
    unfolding k1_def by (intro tcp_service_data) (simp_all add: data_calls_def)
  have h: "list_all chunk_ok cs" "k_recvs k1 sock = data_calls cs @ call # rest" "list_all takes_all (k_sends k1 sock)"
    "length cs \<le> length (k_sends k1 sock)"
    "list_all (\<lambda>(old, d). func (c_str d) = Done (f (c_str d)) \<and> length (f (c_str d)) \<le> 2 ^ 31) cs"
    using Cons.prems(1,5) ss by (simp_all add: k1_def)
  from Cons.IH [OF h] obtain k' where k': "tcp_service func sock k1 = tcp_service func sock k'" "k_recvs k' sock = call # rest"
    "other_fds_same sock k1 k'" "k_sent k' sock = k_sent k1 sock @ concat (map (\<lambda>(old, d). f (c_str d)) cs)"
    "k_sends k' sock = drop (length cs) (k_sends k1 sock)" by blast
  have "other_fds_same sock k k'" using k'(3) by (simp add: other_fds_same_def k1_def)
  with k' step ss(1) show ?case by (intro exI [of _ k']) (simp add: k1_def c)
qed


definition echo_kernel :: kernel where
  "echo_kernel = boot_kernel\<lparr>k_open := [4, 3, 0, 1, 2],
     k_recvs := (\<lambda>fd. if fd = 4 then [(replicate 2048 NUL, RData ''hello''), (replicate 2048 NUL, REof)] else []),
     k_sends := (\<lambda>fd. if fd = 4 then [SRet (2 ^ 31) EAGAIN] else [])\<rparr>"


section \<open>What the client shows\<close>

text \<open>What the TCP client shows: the text in its array after each reply, which is the reply
  followed by whatever older, longer replies have left behind it, up to the first zero byte; it
  stops at the end of the connection and closes its socket. It gives up connecting exactly if the
  first five attempts fail.\<close>

theorem tcp_client_shows:
  assumes "length ds = length lines" "k_recvs k sock = map (\<lambda>d. (old, RData d)) ds" "\<forall>d \<in> set ds. d \<noteq> []"
    and "length lines \<le> length (k_sends k sock)"
    and "\<forall>i < length ds. NUL \<in> set (foldl recv_into buffer (take (Suc i) ds))"
  shows "(\<exists>k'. tcp_client_loop sock buffer lines shown k = Done (shown @
      map (\<lambda>i. c_str (foldl recv_into buffer (take (Suc i) ds))) [0..<length ds], k')) \<and>
    (tcp_connect answers = Crash f \<longleftrightarrow> f = ExitWith CONNECT_ERROR \<and> 5 \<le> length answers \<and> list_all Not (take 5 answers))"
proof
  show "\<exists>k'. tcp_client_loop sock buffer lines shown k = Done (shown @
      map (\<lambda>i. c_str (foldl recv_into buffer (take (Suc i) ds))) [0..<length ds], k')"
    using assms
  proof (induction lines arbitrary: ds buffer shown k)
    case (Cons line lines)
    then obtain d ds' where ds: "ds = d # ds'" by (cases ds) auto
    obtain s ss where ss: "k_sends k sock = s # ss" using Cons.prems(4) by (cases "k_sends k sock") auto
    obtain n e where s: "s = SRet n e" by (cases s)
    obtain k1 where k1: "k_send sock line k = Done k1" "k_recvs k1 = k_recvs k" "k_sends k1 sock = ss"
      using ss s by (simp add: k_send_def)
    define k2 where "k2 = k1\<lparr>k_recvs := (k_recvs k1)(sock := map (\<lambda>d. (old, RData d)) ds')\<rparr>"
    have r: "k_recv sock k1 = Done ((old, RData d), k2)" using k1(2) Cons.prems(2) ds by (simp add: k_recv_def k2_def)
    have nul: "NUL \<in> set (recv_into buffer d)" using Cons.prems(5) ds by force
    have rest: "\<forall>i < length ds'. NUL \<in> set (foldl recv_into (recv_into buffer d) (take (Suc i) ds'))"
    proof (intro allI impI)
      fix i assume "i < length ds'"
      then have "Suc i < length ds" by (simp add: ds)
      with Cons.prems(5) have "NUL \<in> set (foldl recv_into buffer (take (Suc (Suc i)) ds))" by blast
      then show "NUL \<in> set (foldl recv_into (recv_into buffer d) (take (Suc i) ds'))" by (simp add: ds)
    qed
    have step: "tcp_client_loop sock buffer (line # lines) shown k =
        tcp_client_loop sock (recv_into buffer d) lines (shown @ [c_str (recv_into buffer d)]) k2"
      using k1(1) r nul Cons.prems(3) ds by (simp add: c_string_def Let_def)
    have h: "length ds' = length lines" "k_recvs k2 sock = map (\<lambda>d. (old, RData d)) ds'" "\<forall>d \<in> set ds'. d \<noteq> []"
      "length lines \<le> length (k_sends k2 sock)"
      using Cons.prems ds k1(3) ss by (simp_all add: k2_def)
    have u: "[0..<length ds] = 0 # map Suc [0..<length ds']" by (simp add: ds upt_conv_Cons map_Suc_upt del: upt_Suc)
    show ?case unfolding step u
      using Cons.IH [OF h rest, of "shown @ [c_str (recv_into buffer d)]"] by (simp add: ds comp_def)
  qed simp
next
  have c: "connect_retry as cnt = Done c' \<and> c' \<le> 0 \<longleftrightarrow> c' = 0 \<and> nat cnt \<le> length as \<and> list_all Not (take (nat cnt) as)"
    if "0 < cnt" for "as" and cnt c' :: int
    using that
  proof (induction "as" arbitrary: cnt)
    case (Cons a "as")
    then have n: "nat cnt = Suc (nat (cnt - 1))" by simp
    show ?case using Cons.IH [of "cnt - 1"] Cons.prems unfolding n by (cases "cnt = 1") auto
  qed auto
  have n: "connect_retry as cnt \<noteq> Crash e" for "as" cnt e by (induction "as" arbitrary: cnt) auto
  show "tcp_connect answers = Crash f \<longleftrightarrow> f = ExitWith CONNECT_ERROR \<and> 5 \<le> length answers \<and> list_all Not (take 5 answers)"
    using c [of 5 answers] n [of answers 5]
    by (auto simp: tcp_connect_def bind_out_Crash_iff split: if_splits)
qed

lemma tcp_client_shows_witness:
  "\<exists>k'. tcp_client_loop 3 (replicate 2048 NUL) [''hello'', ''you''] []
     (boot_kernel\<lparr>k_recvs := (\<lambda>_. [(replicate 2048 NUL, RData ''hello''), (replicate 2048 NUL, RData ''you'')]),
        k_sends := (\<lambda>_. [SRet 5 EAGAIN, SRet 3 EAGAIN])\<rparr>) = Done ([''hello'', ''youlo''], k')"
proof -
  let ?ds = "[''hello'', ''you'']"
  let ?b = "replicate 2048 NUL"
  let ?k = "boot_kernel\<lparr>k_recvs := (\<lambda>_. [(?b, RData ''hello''), (?b, RData ''you'')]), k_sends := (\<lambda>_. [SRet 5 EAGAIN, SRet 3 EAGAIN])\<rparr>"
  have b: "recv_into ?b ''hello'' = ''hello'' @ NUL # replicate 2042 NUL"
    "recv_into (''hello'' @ NUL # replicate 2042 NUL) ''you'' = ''youlo'' @ NUL # replicate 2042 NUL"
    by (simp_all add: recv_into_def numeral_eq_Suc)
  note b' = b(2) [unfolded append_Cons append_Nil]
  have c: "c_str (''hello'' @ NUL # replicate 2042 NUL) = ''hello''" "c_str (''youlo'' @ NUL # replicate 2042 NUL) = ''youlo''"
    by (simp_all add: c_str_def NUL_def)
  have h: "length ?ds = length [''hello'', ''you'']" "k_recvs ?k 3 = map (\<lambda>d. (?b, RData d)) ?ds"
    "\<forall>d \<in> set ?ds. d \<noteq> []" "length [''hello'', ''you''] \<le> length (k_sends ?k 3)"
    by simp_all
  have n: "\<forall>i < length ?ds. NUL \<in> set (foldl recv_into ?b (take (Suc i) ?ds))"
    by (simp add: less_Suc_eq numeral_2_eq_2 b b' del: replicate.simps)
  from tcp_client_shows [OF h n, of "[]", THEN conjunct1] show ?thesis
    by (simp add: b b' c [unfolded append_Cons append_Nil] del: replicate.simps)
qed

end
