(* ===== verification/Udp.thy ===== *)
theory Udp
  imports CppString Kernel
begin

text \<open>
  The UDP programs: the server of \<open>7.16/udp_socket\<close> that echoes, that of \<open>7.17/udp_socket\<close> with
  its two handlers, the receiving thread of the client of \<open>7.17/v2_udp_socket_\<close>, and the chat
  server there, a receiving and a broadcasting thread around a ring queue.
\<close>

type_synonym address = "string \<times> int"

text \<open>A datagram as \<open>recvfrom\<close> delivers it: the old contents of the array, the sender, the result.\<close>

type_synonym datagram = "string \<times> address \<times> recv_res"

section \<open>The servers that answer\<close>

definition udp_round :: "(string \<Rightarrow> string outcome) \<Rightarrow> datagram \<Rightarrow> (address \<times> string) list \<Rightarrow> (address \<times> string) list outcome" where
  "udp_round handle_func = (\<lambda>(old, temp, r) sent.
     case r of
       RData data \<Rightarrow>
         (if data = [] then Done sent
          else bind_out (bind_out (buf_set (recv_into old data) (int (length data)) NUL) c_string) (\<lambda>buffer.
               bind_out (handle_func buffer) (\<lambda>str. Done (sent @ [(temp, str)]))))
     | _ \<Rightarrow> Done sent)"

text \<open>The first version sends the array back, up to its zero byte.\<close>

definition udp_round_16 :: "datagram \<Rightarrow> (address \<times> string) list \<Rightarrow> (address \<times> string) list outcome" where
  "udp_round_16 = (\<lambda>(old, temp, r) sent.
     case r of
       RData data \<Rightarrow>
         (if data = [] then Done sent
          else bind_out (bind_out (buf_set (recv_into old data) (int (length data)) NUL) c_string) (\<lambda>buffer.
               Done (sent @ [(temp, buffer)])))
     | _ \<Rightarrow> Done sent)"

definition udp_server_start :: "(string \<Rightarrow> string outcome) \<Rightarrow> datagram list \<Rightarrow> (address \<times> string) list outcome" where
  "udp_server_start handle_func ds = for_each (udp_round handle_func) ds []"

definition udp_server_start_16 :: "datagram list \<Rightarrow> (address \<times> string) list outcome" where
  "udp_server_start_16 ds = for_each udp_round_16 ds []"

section \<open>The handlers\<close>

definition toupper :: "char \<Rightarrow> char" where
  "toupper c = (let n = (of_char c :: nat) in if 97 \<le> n \<and> n \<le> 122 then char_of (n - 32) else c)"

fun handle_func1_loop :: "string \<Rightarrow> string \<Rightarrow> string" where
  "handle_func1_loop [] ret = ret"
| "handle_func1_loop (ch # str) ret =
     (let c = (if 97 \<le> (of_char ch :: nat) \<and> (of_char ch :: nat) \<le> 122 then toupper ch else ch)
      in handle_func1_loop str (ret @ [c]))"

definition handle_func1 :: "string \<Rightarrow> string outcome" where
  "handle_func1 str = Done (handle_func1_loop str [])"

text \<open>\<open>fgets\<close> into an array of 1024 bytes: up to a line feed, at most 1023 bytes.\<close>

definition fgets_line :: "string \<Rightarrow> string" where
  "fgets_line s = take 1023 (let l = takeWhile (\<lambda>c. c \<noteq> CHR 0x0A) s in if length l < length s then l @ [CHR 0x0A] else l)"

lemma fgets_line_nonempty: "s \<noteq> [] \<Longrightarrow> fgets_line s \<noteq> []"
  by (cases s) (auto simp: fgets_line_def Let_def)

lemma length_fgets_line: "length (fgets_line s) \<le> length s"
  using length_takeWhile_le [of "\<lambda>c. c \<noteq> CHR 0x0A" s] by (auto simp: fgets_line_def Let_def)

function read_output :: "string \<Rightarrow> string \<Rightarrow> string" where
  "read_output out ret =
     (if out = [] then ret
      else read_output (drop (length (fgets_line out)) out) (ret @ c_str (fgets_line out)))"
  by pat_completeness auto
termination
  by (relation "measure (\<lambda>(out, ret). length out)") (auto simp: fgets_line_nonempty)

declare read_output.simps [simp del]

text \<open>
  The shell is a parameter: the output of a command, or \<open>None\<close> when \<open>popen\<close> fails, whose null
  pointer is then read from.
\<close>

definition handle_func2 :: "(string \<Rightarrow> string option) \<Rightarrow> string \<Rightarrow> string outcome" where
  "handle_func2 shell command =
     (case shell command of None \<Rightarrow> Crash UseAfterFree | Some out \<Rightarrow> Done (read_output out []))"

section \<open>The client of the chat\<close>

text \<open>Its receiving thread reads up to the full size of the array.\<close>

definition recv_from_server :: "datagram \<Rightarrow> string list \<Rightarrow> string list outcome" where
  "recv_from_server = (\<lambda>(old, temp, r) shown.
     case r of
       RData data \<Rightarrow>
         (if data = [] then Done shown
          else bind_out (bind_out (buf_set (recv_into old data) (int (length data)) NUL) c_string) (\<lambda>buffer.
               Done (shown @ [buffer])))
     | _ \<Rightarrow> Done shown)"

section \<open>What is answered\<close>

lemma handle_func1_loop_map: "handle_func1_loop str ret = ret @ map toupper str"
  by (induction str ret rule: handle_func1_loop.induct) (auto simp: toupper_def Let_def)

lemma fgets_line_prefix: "fgets_line s @ drop (length (fgets_line s)) s = s"
proof -
  let ?l = "takeWhile (\<lambda>c. c \<noteq> CHR 0x0A) s"
  have "prefix (if length ?l < length s then ?l @ [CHR 0x0A] else ?l) s"
  proof (cases "length ?l < length s")
    case True
    then have "s ! length ?l = CHR 0x0A" using nth_length_takeWhile by blast
    then have "take (Suc (length ?l)) s = ?l @ [CHR 0x0A]"
      using True by (simp add: take_Suc_conv_app_nth takeWhile_eq_take [symmetric])
    moreover have "prefix (take (Suc (length ?l)) s) s" by (rule take_is_prefix)
    ultimately show ?thesis using True by simp
  qed (simp add: takeWhile_is_prefix)
  then have "prefix (fgets_line s) s"
    unfolding fgets_line_def Let_def by (rule prefix_order.trans [OF take_is_prefix])
  then show ?thesis by (metis append_eq_conv_conj prefix_def)
qed

lemma read_output_all: "NUL \<notin> set out \<Longrightarrow> read_output out ret = ret @ out"
proof (induction out ret rule: read_output.induct)
  case (1 out ret)
  show ?case
  proof (cases "out = []")
    case False
    have "set (fgets_line out) \<subseteq> set out" "set (drop (length (fgets_line out)) out) \<subseteq> set out"
      using fgets_line_prefix [of out] by (metis set_append Un_upper1, metis set_append Un_upper2)
    then have n: "NUL \<notin> set (fgets_line out)" "NUL \<notin> set (drop (length (fgets_line out)) out)"
      using "1.prems" by blast+
    have "read_output out ret = read_output (drop (length (fgets_line out)) out) (ret @ c_str (fgets_line out))"
      using False by (simp add: read_output.simps [of out])
    also have "\<dots> = (ret @ c_str (fgets_line out)) @ drop (length (fgets_line out)) out"
      using "1.IH" [OF False n(2)] .
    finally show ?thesis using n(1) fgets_line_prefix [of out] by (simp add: c_str_id)
  qed (simp add: read_output.simps)
qed

definition dgram_ok :: "nat \<Rightarrow> datagram \<Rightarrow> bool" where
  "dgram_ok n = (\<lambda>(old, temp, r). length old = 2048 \<and> (case r of RData d \<Rightarrow> length d \<le> n | _ \<Rightarrow> True))"

definition dgram_text :: "datagram \<Rightarrow> (address \<times> string) list" where
  "dgram_text = (\<lambda>(old, temp, r). case r of RData d \<Rightarrow> if d = [] then [] else [(temp, c_str d)] | _ \<Rightarrow> [])"

lemma udp_round_text:
  assumes "dgram_ok 2047 d"
  shows "udp_round h d sent = for_each (\<lambda>(a, s) sent. bind_out (h s) (\<lambda>str. Done (sent @ [(a, str)]))) (dgram_text d) sent"
proof -
  obtain old temp r where d: "d = (old, temp, r)" by (cases d)
  show ?thesis
  proof (cases r)
    case (RData dat)
    then have "length dat < length old" using assms d by (simp add: dgram_ok_def)
    from terminated_recv_c_string [OF this] RData show ?thesis
      by (simp add: d udp_round_def dgram_text_def bind_out_assoc del: bind_out_Done_iff)
  qed (simp_all add: d udp_round_def dgram_text_def)
qed

lemma udp_round_Done:
  assumes "dgram_ok 2047 d" "\<And>s. h s = Done (f s)"
  shows "udp_round h d sent = Done (sent @ map (\<lambda>(a, s). (a, f s)) (dgram_text d))"
  unfolding udp_round_text [OF assms(1)]
  by (cases d; cases "snd (snd d)") (simp_all add: dgram_text_def assms(2))

lemma udp_round_16_Done:
  assumes "dgram_ok 2047 d"
  shows "udp_round_16 d sent = Done (sent @ dgram_text d)"
proof -
  have "udp_round_16 d sent = udp_round Done d sent"
    by (cases d) (simp add: udp_round_16_def udp_round_def split: recv_res.splits)
  then show ?thesis by (simp add: udp_round_Done [OF assms, of Done "\<lambda>s. s"])
qed

lemma for_each_collect:
  assumes "\<And>i s. i \<in> set is \<Longrightarrow> body i s = Done (s @ g i)"
  shows "for_each body is s = Done (s @ concat (map g is))"
  using assms by (induction "is" arbitrary: s) simp_all

lemma handle_func2_shell:
  "shell cmd = Some out \<Longrightarrow> NUL \<notin> set out \<Longrightarrow> handle_func2 shell cmd = Done out"
  by (simp add: handle_func2_def read_output_all)

lemma udp_server_run:
  assumes "list_all (dgram_ok 2047) ds" "\<And>s. h s = Done (f s)"
  shows "udp_server_start h ds = Done (map (\<lambda>(a, s). (a, f s)) (concat (map dgram_text ds)))"
proof -
  have c: "concat (map (\<lambda>d. map (\<lambda>(a, s). (a, f s)) (dgram_text d)) ds) = map (\<lambda>(a, s). (a, f s)) (concat (map dgram_text ds))"
    by (induction ds) simp_all
  have "for_each (udp_round h) ds [] = Done ([] @ concat (map (\<lambda>d. map (\<lambda>(a, s). (a, f s)) (dgram_text d)) ds))"
    by (rule for_each_collect) (use assms(1) in \<open>auto simp: list_all_iff intro!: udp_round_Done assms(2)\<close>)
  then show ?thesis by (simp add: udp_server_start_def c)
qed

lemma udp_server_run_16:
  assumes "list_all (dgram_ok 2047) ds"
  shows "udp_server_start_16 ds = Done (concat (map dgram_text ds))"
proof -
  have "for_each udp_round_16 ds [] = Done ([] @ concat (map dgram_text ds))"
    by (rule for_each_collect) (use assms(1) in \<open>auto simp: list_all_iff intro!: udp_round_16_Done\<close>)
  then show ?thesis by (simp add: udp_server_start_16_def)
qed

lemma udp_server_run_upper:
  assumes "list_all (dgram_ok 2047) ds"
  shows "udp_server_start handle_func1 ds = Done (map (\<lambda>(a, s). (a, map toupper s)) (concat (map dgram_text ds)))"
  by (rule udp_server_run [OF assms]) (simp add: handle_func1_def handle_func1_loop_map)



end
