(* ===== verification/Chat.thy ===== *)
theory Chat
  imports Udp
begin

text \<open>
  The chat server of \<open>7.17/v2_udp_socket_\<close>: a thread that receives datagrams, remembers who sent
  them and pushes the messages into a ring queue, and a thread that pops them and sends each to
  everybody remembered. The two are interleaved step by step. The queue is taken as the bounded
  queue that theory RingQueue shows it to be; the map of users is behind a mutex, so each access to
  it is one step.
\<close>

section \<open>The server\<close>

definition user_name :: "address \<Rightarrow> string" where
  "user_name = (\<lambda>(ip, port). ip @ '' : '' @ to_string port)"

definition chat_msg :: "address \<Rightarrow> string \<Rightarrow> string" where
  "chat_msg a buffer = user_name a @ ''>> '' @ buffer"

datatype recv_pc = RWait | RAdd address string | RPush string
datatype bcast_pc = BPop | BCopy string | BSend string "address list"

record chat =
  ch_rq :: "string list"
  ch_users :: "string \<rightharpoonup> address"
  ch_recv :: recv_pc
  ch_bcast :: bcast_pc
  ch_sent :: "(address \<times> string) list"
  ch_received :: "(address \<times> string) list"   \<comment> \<open>the history of what was received\<close>

definition chat_start :: chat where
  "chat_start = \<lparr>ch_rq = [], ch_users = Map.empty, ch_recv = RWait, ch_bcast = BPop, ch_sent = [], ch_received = []\<rparr>"

text \<open>The receiving thread: a datagram, \<open>add_user\<close>, the push, which waits for room.\<close>

definition server_recive :: "nat \<Rightarrow> datagram \<Rightarrow> chat \<Rightarrow> chat option" where
  "server_recive cap d s =
     (case ch_recv s of
        RWait \<Rightarrow>
          (case d of (old, temp, r) \<Rightarrow>
            (case r of
               RData data \<Rightarrow>
                 (if data = [] then Some s
                  else (case bind_out (buf_set (recv_into old data) (int (length data)) NUL) c_string of
                          Done buffer \<Rightarrow> Some (s\<lparr>ch_recv := RAdd temp (chat_msg temp buffer),
                              ch_received := ch_received s @ [(temp, chat_msg temp buffer)]\<rparr>)
                        | _ \<Rightarrow> None))
             | _ \<Rightarrow> Some s))
      | RAdd a msg \<Rightarrow> Some (s\<lparr>ch_users := (ch_users s)(user_name a \<mapsto> a), ch_recv := RPush msg\<rparr>)
      | RPush msg \<Rightarrow>
          (if length (ch_rq s) < cap then Some (s\<lparr>ch_rq := ch_rq s @ [msg], ch_recv := RWait\<rparr>) else None))"

text \<open>The broadcasting thread: the pop, which waits, the copy of the map in any order, the sends.\<close>

definition server_broadcast :: "string list \<Rightarrow> chat \<Rightarrow> chat option" where
  "server_broadcast order s =
     (case ch_bcast s of
        BPop \<Rightarrow> (case ch_rq s of [] \<Rightarrow> None | m # ms \<Rightarrow> Some (s\<lparr>ch_rq := ms, ch_bcast := BCopy m\<rparr>))
      | BCopy m \<Rightarrow>
          (if distinct order \<and> set order = dom (ch_users s)
           then Some (s\<lparr>ch_bcast := BSend m (map (\<lambda>n. the (ch_users s n)) order)\<rparr>) else None)
      | BSend m [] \<Rightarrow> Some (s\<lparr>ch_bcast := BPop\<rparr>)
      | BSend m (a # as) \<Rightarrow> Some (s\<lparr>ch_bcast := BSend m as, ch_sent := ch_sent s @ [(a, m)]\<rparr>))"

inductive chat_step :: "nat \<Rightarrow> chat \<Rightarrow> chat \<Rightarrow> bool" for cap where
  recv: "server_recive cap d s = Some s' \<Longrightarrow> chat_step cap s s'"
| bcast: "server_broadcast order s = Some s' \<Longrightarrow> chat_step cap s s'"

inductive chat_reach :: "nat \<Rightarrow> chat \<Rightarrow> bool" for cap where
  start: "chat_reach cap chat_start"
| step: "chat_reach cap s \<Longrightarrow> chat_step cap s s' \<Longrightarrow> chat_reach cap s'"

section \<open>Where the messages are\<close>

text \<open>What user \<open>n\<close> has been sent.\<close>

definition sent_to :: "string \<Rightarrow> chat \<Rightarrow> string list" where
  "sent_to n s = map snd (filter (\<lambda>x. user_name (fst x) = n) (ch_sent s))"

text \<open>\<open>caught_up n log dn\<close>: of \<open>dn\<close>, user \<open>n\<close> got all from some point on, not after its own first.\<close>

definition caught_up :: "string \<Rightarrow> string list \<Rightarrow> (address \<times> string) list \<Rightarrow> bool" where
  "caught_up n log dn \<longleftrightarrow>
     (\<exists>j \<le> length dn. log = map snd (drop j dn) \<and> (\<forall>i < j. user_name (fst (dn ! i)) \<noteq> n))"

definition pending :: "chat \<Rightarrow> (address \<times> string) list" where
  "pending s = (case ch_recv s of RAdd a m \<Rightarrow> [(a, m)] | _ \<Rightarrow> [])"

definition pushing :: "chat \<Rightarrow> string list" where
  "pushing s = (case ch_recv s of RPush m \<Rightarrow> [m] | _ \<Rightarrow> [])"

text \<open>
  The messages received are those broadcast, the one being broadcast, those in or before the queue
  and the one whose sender is not yet remembered.
\<close>

definition chat_inv :: "chat \<Rightarrow> (address \<times> string) list \<Rightarrow> (address \<times> string) list \<Rightarrow> (address \<times> string) list \<Rightarrow> bool" where
  "chat_inv s dn cur q \<longleftrightarrow>
     ch_received s = dn @ cur @ q @ pending s \<and> map snd q = ch_rq s @ pushing s \<and>
     (\<forall>n a. ch_users s n = Some a \<longrightarrow> user_name a = n) \<and>
     (\<forall>n. ch_users s n = None \<longrightarrow> sent_to n s = []) \<and>
     (\<forall>x \<in> set (dn @ cur @ q). ch_users s (user_name (fst x)) \<noteq> None) \<and>
     (case ch_bcast s of
        BPop \<Rightarrow> cur = [] \<and> (\<forall>n. caught_up n (sent_to n s) dn)
      | BCopy m \<Rightarrow> (\<exists>a. cur = [(a, m)]) \<and> (\<forall>n. caught_up n (sent_to n s) dn)
      | BSend m as \<Rightarrow> (\<exists>a. cur = [(a, m)]) \<and> distinct (map user_name as) \<and>
          (\<forall>a \<in> set as. ch_users s (user_name a) \<noteq> None) \<and>
          (\<forall>n. caught_up n (sent_to n s) (if n \<in> user_name ` set as then dn else dn @ cur)))"

lemma caught_up_new:
  "\<forall>x \<in> set dn. user_name (fst x) \<noteq> n \<Longrightarrow> caught_up n [] dn"
  unfolding caught_up_def by (rule exI [of _ "length dn"]) simp

lemma caught_up_snoc:
  assumes "caught_up n log dn"
  shows "caught_up n (log @ [m]) (dn @ [(a, m)])"
proof -
  obtain j where "j \<le> length dn" "log = map snd (drop j dn)" "\<forall>i < j. user_name (fst (dn ! i)) \<noteq> n"
    using assms by (auto simp: caught_up_def)
  then show ?thesis unfolding caught_up_def by (intro exI [of _ j]) (simp add: nth_append)
qed

lemma chat_inv_recv:
  assumes "chat_inv s dn cur q" "server_recive cap d s = Some s'"
  shows "\<exists>q'. chat_inv s' dn cur q'"
proof (cases "ch_recv s")
  case RWait
  obtain old temp r where d: "d = (old, temp, r)" by (cases d)
  consider "s' = s" | m where "s' = s\<lparr>ch_recv := RAdd temp m, ch_received := ch_received s @ [(temp, m)]\<rparr>"
    using assms(2) RWait d by (auto simp: server_recive_def split: recv_res.splits if_splits outcome.splits)
  then show ?thesis
  proof cases
    case 2
    then have "chat_inv s' dn cur q"
      using assms(1) RWait by (simp add: chat_inv_def pending_def pushing_def sent_to_def cong: bcast_pc.case_cong)
    then show ?thesis by blast
  qed (use assms(1) in blast)
next
  case (RAdd a m)
  then have s': "s' = s\<lparr>ch_users := (ch_users s)(user_name a \<mapsto> a), ch_recv := RPush m\<rparr>"
    using assms(2) by (simp add: server_recive_def)
  have st: "sent_to n s' = sent_to n s" for n by (simp add: s' sent_to_def)
  have users: "ch_users s' n \<noteq> None" if "ch_users s n \<noteq> None \<or> n = user_name a" for n
    using that by (auto simp: s')
  have b: "ch_bcast s' = ch_bcast s" by (simp add: s')
  note i = assms(1) [unfolded chat_inv_def]
  have "\<forall>x \<in> set (dn @ cur @ q @ [(a, m)]). ch_users s' (user_name (fst x)) \<noteq> None"
    using i users by auto
  moreover have "case ch_bcast s' of
        BPop \<Rightarrow> cur = [] \<and> (\<forall>n. caught_up n (sent_to n s) dn)
      | BCopy m \<Rightarrow> (\<exists>a. cur = [(a, m)]) \<and> (\<forall>n. caught_up n (sent_to n s) dn)
      | BSend m as \<Rightarrow> (\<exists>a. cur = [(a, m)]) \<and> distinct (map user_name as) \<and>
          (\<forall>a \<in> set as. ch_users s' (user_name a) \<noteq> None) \<and>
          (\<forall>n. caught_up n (sent_to n s) (if n \<in> user_name ` set as then dn else dn @ cur))"
    using i users by (cases "ch_bcast s") (simp_all add: b split del: if_split)
  moreover have "ch_received s' = dn @ cur @ (q @ [(a, m)]) @ pending s'" "map snd (q @ [(a, m)]) = ch_rq s' @ pushing s'"
    using i RAdd by (simp_all add: s' pending_def pushing_def)
  moreover have "\<forall>n b. ch_users s' n = Some b \<longrightarrow> user_name b = n" "\<forall>n. ch_users s' n = None \<longrightarrow> sent_to n s = []"
    using i by (auto simp: s')
  ultimately have "chat_inv s' dn cur (q @ [(a, m)])" unfolding chat_inv_def st by blast
  then show ?thesis by blast
next
  case (RPush m)
  then have s': "s' = s\<lparr>ch_rq := ch_rq s @ [m], ch_recv := RWait\<rparr>"
    using assms(2) by (simp add: server_recive_def split: if_splits)
  have "chat_inv s' dn cur q"
    using assms(1) RPush unfolding s' by (simp add: chat_inv_def pending_def pushing_def sent_to_def cong: bcast_pc.case_cong)
  then show ?thesis by blast
qed

lemma sent_to_send: "sent_to n (s\<lparr>ch_bcast := b, ch_sent := ch_sent s @ [(a, m)]\<rparr>) =
    (if user_name a = n then sent_to n s @ [m] else sent_to n s)"
  by (simp add: sent_to_def)

lemma chat_inv_bcast:
  assumes inv: "chat_inv s dn cur q" and st: "server_broadcast order s = Some s'"
  shows "\<exists>dn' cur' q'. chat_inv s' dn' cur' q'"
proof -
  note i = inv [unfolded chat_inv_def]
  show ?thesis
  proof (cases "ch_bcast s")
    case BPop
    with st obtain m ms where m: "ch_rq s = m # ms" "s' = s\<lparr>ch_rq := ms, ch_bcast := BCopy m\<rparr>"
      by (auto simp: server_broadcast_def split: list.splits)
    with i obtain x q' where q: "q = x # q'" "snd x = m" "map snd q' = ms @ pushing s" by (cases q) auto
    have "chat_inv s' dn [x] q'"
      using i BPop m(2) q by (cases x) (simp add: chat_inv_def pending_def pushing_def sent_to_def)
    then show ?thesis by blast
  next
    case (BCopy m)
    with st have o: "distinct order" "set order = dom (ch_users s)"
      and s': "s' = s\<lparr>ch_bcast := BSend m (map (\<lambda>n. the (ch_users s n)) order)\<rparr>"
      by (auto simp: server_broadcast_def split: if_splits)
    have nm: "user_name (the (ch_users s n)) = n" if "n \<in> set order" for n
      using that o(2) i by (auto simp: dom_def)
    then have names: "map user_name (map (\<lambda>n. the (ch_users s n)) order) = order"
      by (simp add: map_idI)
    then have nset: "user_name ` set (map (\<lambda>n. the (ch_users s n)) order) = set order" by (metis list.set_map)
    obtain a where cur: "cur = [(a, m)]" using i BCopy by auto
    have cu: "caught_up n (sent_to n s) (if n \<in> set order then dn else dn @ cur)" for n
    proof (cases "n \<in> set order")
      case True
      then show ?thesis using i BCopy by simp
    next
      case False
      then have none: "ch_users s n = None" unfolding o(2) by (simp only: domIff not_not)
      then have "sent_to n s = []" using i by blast
      moreover have "\<forall>x \<in> set (dn @ cur @ q). ch_users s (user_name (fst x)) \<noteq> None" using i by blast
      then have "\<forall>x \<in> set (dn @ cur). user_name (fst x) \<noteq> n" using none by (metis Un_iff append.assoc set_append)
      ultimately show ?thesis using False caught_up_new by (simp only: if_False)
    qed
    have reg: "\<forall>a \<in> set (map (\<lambda>n. the (ch_users s n)) order). ch_users s (user_name a) \<noteq> None"
      using nm o(2) by auto
    have st: "sent_to n s' = sent_to n s" for n by (simp add: s' sent_to_def)
    have "chat_inv s' dn cur q"
      unfolding chat_inv_def st using i cur o(1) names nset cu reg
      by (simp add: s' pending_def pushing_def split del: if_split)
    then show ?thesis by blast
  next
    case (BSend m as)
    obtain a0 where cur: "cur = [(a0, m)]" using i BSend by auto
    show ?thesis
    proof (cases "as")
      case Nil
      with st BSend have s': "s' = s\<lparr>ch_bcast := BPop\<rparr>" by (simp add: server_broadcast_def)
      have "chat_inv s' (dn @ cur) [] q"
        using i BSend Nil by (simp add: s' chat_inv_def pending_def pushing_def sent_to_def)
      then show ?thesis by blast
    next
      case (Cons a as')
      with st BSend have s': "s' = s\<lparr>ch_bcast := BSend m as', ch_sent := ch_sent s @ [(a, m)]\<rparr>"
        by (simp add: server_broadcast_def)
      have d: "user_name a \<notin> user_name ` set as'" "distinct (map user_name as')" using i BSend Cons by auto
      have reg: "\<forall>b \<in> set as. ch_users s (user_name b) \<noteq> None" using i BSend by simp
      have cu0: "caught_up n (sent_to n s) (if n \<in> user_name ` set as then dn else dn @ cur)" for n
        using i BSend by (simp split del: if_split)
      have cu: "caught_up n (sent_to n s') (if n \<in> user_name ` set as' then dn else dn @ cur)" for n
      proof (cases "user_name a = n")
        case True
        then have "caught_up n (sent_to n s) dn" using cu0 [of n] Cons by simp
        with True d(1) show ?thesis by (simp add: s' sent_to_send cur caught_up_snoc)
      next
        case False
        then have "n \<in> user_name ` set as \<longleftrightarrow> n \<in> user_name ` set as'" using Cons by auto
        then show ?thesis using cu0 [of n] False by (simp add: s' sent_to_send)
      qed
      have none: "\<forall>n. ch_users s' n = None \<longrightarrow> sent_to n s' = []"
        using i reg Cons by (auto simp: s' sent_to_send)
      have "ch_received s' = dn @ cur @ q @ pending s'" "map snd q = ch_rq s' @ pushing s'"
        "ch_users s' = ch_users s" "ch_bcast s' = BSend m as'"
        using i by (simp_all add: s' pending_def pushing_def)
      then have "chat_inv s' dn cur q"
        using i BSend cur d(2) reg Cons cu none unfolding chat_inv_def by (simp split del: if_split)
      then show ?thesis by blast
    qed
  qed
qed

lemma chat_reach_inv: "chat_reach cap s \<Longrightarrow> \<exists>dn cur q. chat_inv s dn cur q"
proof (induction rule: chat_reach.induct)
  case start
  have "chat_inv chat_start [] [] []"
    by (simp add: chat_inv_def chat_start_def pending_def pushing_def sent_to_def caught_up_def)
  then show ?case by blast
next
  case (step s s')
  then obtain dn cur q where inv: "chat_inv s dn cur q" by blast
  from step.hyps(2) show ?case
  proof cases
    case (recv d)
    from chat_inv_recv [OF inv this] show ?thesis by blast
  next
    case (bcast order)
    from chat_inv_bcast [OF inv this] show ?thesis by blast
  qed
qed

text \<open>The server has nothing left to do.\<close>

definition chat_idle :: "chat \<Rightarrow> bool" where
  "chat_idle s \<longleftrightarrow> ch_recv s = RWait \<and> ch_rq s = [] \<and> ch_bcast s = BPop"



end
