(* ===== verification/UdpEcho.thy ===== *)
theory UdpEcho
  imports Chat Socket Examples
begin

text \<open>
  The UDP programs as wholes: how the servers of \<open>7.16\<close>, \<open>7.17/udp_socket\<close> and
  \<open>7.17/v2_udp_socket_\<close> get their socket, the clients of the first two, and client and server
  together over a network that loses nothing.
\<close>

section \<open>Getting the socket\<close>

definition udp_server_init :: "int \<Rightarrow> kernel \<Rightarrow> (int \<times> kernel) outcome" where
  "udp_server_init port k =
     (if \<not> k_ok k Sys_socket then Crash (ExitWith SOCKET_ERROR)
      else (case k_new_fd k of (fd, k1) \<Rightarrow>
        if \<not> k_ok k1 Sys_bind then Crash (ExitWith BIND_ERROR)
        else Done (fd, k1\<lparr>k_bound := (k_bound k1)(fd \<mapsto> uint16 port)\<rparr>)))"

definition udp_server_init_16 :: "int \<Rightarrow> kernel \<Rightarrow> (int \<times> kernel) outcome" where
  "udp_server_init_16 port k =
     (if \<not> k_ok k Sys_socket then Crash (ExitWith SOCKET_ERROR)
      else (case k_new_fd k of (fd, k1) \<Rightarrow>
        if \<not> k_ok k1 Sys_bind then Crash (ExitWith BIND_ERROR)
        else Done (fd, k1\<lparr>k_bound := (k_bound k1)(fd \<mapsto> uint16 port)\<rparr>)))"

text \<open>The chat server gets its socket in \<open>server_start\<close>, which then lets its two threads run.\<close>

definition chat_server_start :: "int \<Rightarrow> kernel \<Rightarrow> (int \<times> kernel \<times> chat) outcome" where
  "chat_server_start port k =
     (if \<not> k_ok k Sys_socket then Crash (ExitWith SOCKET_ERROR)
      else (case k_new_fd k of (fd, k1) \<Rightarrow>
        if \<not> k_ok k1 Sys_bind then Crash (ExitWith BIND_ERROR)
        else Done (fd, k1\<lparr>k_bound := (k_bound k1)(fd \<mapsto> uint16 port)\<rparr>, chat_start)))"

section \<open>The clients\<close>

text \<open>
  The loop over the lines typed: a line is sent, also an empty one, and then the client waits for a
  datagram, \<open>replies\<close> being what arrives. The client of 7.16 prints the length as well. The model ends
  with the lines typed.
\<close>

fun udp_client_16 :: "string list \<Rightarrow> datagram list \<Rightarrow> string list \<Rightarrow> string list outcome" where
  "udp_client_16 [] replies shown = Done shown"
| "udp_client_16 (message # lines) [] shown = Blocked"
| "udp_client_16 (message # lines) ((old, temp, r) # replies) shown =
     (case r of
        RData data \<Rightarrow>
          (if data = [] then udp_client_16 lines replies (shown @ [''n = 0''])
           else bind_out (bind_out (buf_set (recv_into old data) (int (length data)) NUL) c_string) (\<lambda>buffer.
             udp_client_16 lines replies (shown @ [''n = '' @ to_string (int (length data)), ''server echo: '' @ buffer])))
      | REof \<Rightarrow> udp_client_16 lines replies (shown @ [''n = 0''])
      | RErr e \<Rightarrow> udp_client_16 lines replies (shown @ [''n = -1'']))"

fun udp_client :: "string list \<Rightarrow> datagram list \<Rightarrow> string list \<Rightarrow> string list outcome" where
  "udp_client [] replies shown = Done shown"
| "udp_client (message # lines) [] shown = Blocked"
| "udp_client (message # lines) ((old, temp, r) # replies) shown =
     (case r of
        RData data \<Rightarrow>
          (if data = [] then udp_client lines replies shown
           else bind_out (bind_out (buf_set (recv_into old data) (int (length data)) NUL) c_string) (\<lambda>buffer.
             udp_client lines replies (shown @ [buffer])))
      | _ \<Rightarrow> udp_client lines replies shown)"

section \<open>Client and server\<close>

text \<open>
  The datagrams of a list of lines, as they reach the server from address \<open>a\<close>, and of a list of
  answers as they reach the client from \<open>srv\<close>. An empty datagram is received with length 0.
\<close>

definition to_server :: "address \<Rightarrow> string list \<Rightarrow> datagram list" where
  "to_server a ls = map (\<lambda>l. (replicate 2048 NUL, a, if l = [] then REof else RData l)) ls"

definition to_client :: "address \<Rightarrow> (address \<times> string) list \<Rightarrow> datagram list" where
  "to_client srv sent = map (\<lambda>(a, s). (replicate 2048 NUL, srv, if s = [] then REof else RData s)) sent"

definition udp_text :: "string \<Rightarrow> bool" where
  "udp_text l \<longleftrightarrow> l \<noteq> [] \<and> length l \<le> 2047 \<and> NUL \<notin> set l"

lemma to_server_ok: "\<forall>l \<in> set ls. udp_text l \<or> l = [] \<Longrightarrow> list_all (dgram_ok 2047) (to_server a ls)"
  by (auto simp: to_server_def list_all_iff dgram_ok_def udp_text_def)

lemma to_server_texts: "\<forall>l \<in> set ls. udp_text l \<or> l = [] \<Longrightarrow>
    concat (map dgram_text (to_server a ls)) = map (Pair a) (filter (\<lambda>l. l \<noteq> []) ls)"
  by (induction ls) (auto simp: to_server_def dgram_text_def udp_text_def c_str_id)

lemma udp_reply:
  assumes "udp_text s"
  shows "bind_out (buf_set (recv_into (replicate 2048 NUL) s) (int (length s)) NUL) c_string = Done s"
proof -
  have "length s < length (replicate 2048 NUL)" using assms by (simp add: udp_text_def)
  from terminated_recv_c_string [OF this] show ?thesis using assms by (simp add: udp_text_def c_str_id)
qed

lemma udp_client_answered:
  assumes "\<forall>s \<in> set ss. udp_text s" "length ss \<le> length ls"
  shows "udp_client ls (to_client srv (map (Pair a) ss)) shown =
    (if length ss = length ls then Done (shown @ ss) else Blocked)"
  using assms
proof (induction ss arbitrary: ls shown)
  case Nil
  then show ?case by (cases ls) (simp_all add: to_client_def)
next
  case (Cons s ss)
  then obtain l ls' where ls: "ls = l # ls'" by (cases ls) auto
  have "s \<noteq> []" using Cons.prems(1) by (simp add: udp_text_def)
  with Cons udp_reply [of s] show ?case by (simp add: ls to_client_def del: bind_out_Done_iff)
qed

definition shown_16 :: "string list \<Rightarrow> string list" where
  "shown_16 ls = concat (map (\<lambda>l. [''n = '' @ to_string (int (length l)), ''server echo: '' @ l]) ls)"

lemma udp_client_16_answered:
  assumes "\<forall>s \<in> set ss. udp_text s" "length ss \<le> length ls"
  shows "udp_client_16 ls (to_client srv (map (Pair a) ss)) shown =
    (if length ss = length ls then Done (shown @ shown_16 ss) else Blocked)"
  using assms
proof (induction ss arbitrary: ls shown)
  case Nil
  then show ?case by (cases ls) (simp_all add: to_client_def shown_16_def)
next
  case (Cons s ss)
  then obtain l ls' where ls: "ls = l # ls'" by (cases ls) auto
  have "s \<noteq> []" using Cons.prems(1) by (simp add: udp_text_def)
  with Cons udp_reply [of s] show ?case by (simp add: ls to_client_def shown_16_def del: bind_out_Done_iff)
qed

lemma toupper_NUL: "toupper c = NUL \<Longrightarrow> c = NUL"
proof (rule ccontr)
  assume t: "toupper c = NUL" and c: "c \<noteq> NUL"
  let ?n = "of_char c :: nat"
  have r: "97 \<le> ?n" "?n \<le> 122" and "char_of (?n - 32) = NUL"
    using t c by (auto simp: toupper_def Let_def split: if_splits)
  then have "of_char (char_of (?n - 32)) = (0 :: nat)" by (simp add: NUL_def)
  then have "(?n - 32) mod 256 = 0" by simp
  with r show False by simp
qed

lemma udp_text_upper: "udp_text l \<Longrightarrow> udp_text (map toupper l)"
  by (auto simp: udp_text_def dest: toupper_NUL [OF sym])



end
