(* ===== verification/Tickets.thy ===== *)
theory Tickets
  imports CppString Steps
begin

text \<open>
  The ticket sellers of \<open>6.29\<close>: four threads sell a thousand tickets under one mutex, once with
  plain POSIX calls (\<open>6.29/mutex/mutex.cc\<close>) and once with the classes \<open>Thread\<close> and \<open>LockGuard\<close>
  (\<open>6.29/Thread_lock\<close>). One step is one statement of one thread.
\<close>

section \<open>The first program\<close>

datatype tk_pc = K_Off | K_Lock | K_Check | K_Show | K_Dec | K_Unlock | K_Leave | K_Done

datatype tk_main = M_Run nat | M_Join nat | M_Return

record tickets =
  tk_num :: int
  tk_mutex :: "nat option"
  tk_pc :: "nat \<Rightarrow> tk_pc"
  tk_main :: tk_main
  tk_tids :: "nat \<Rightarrow> bool"          \<comment> \<open>whether \<open>pthread_create\<close> has written the id\<close>
  tk_shown :: "(nat \<times> int) list"    \<comment> \<open>what the threads print\<close>

definition NUM :: nat where "NUM = 4"

definition tickets_start :: tickets where
  "tickets_start = \<lparr>tk_num = 1000, tk_mutex = None, tk_pc = (\<lambda>_. K_Off), tk_main = M_Run 0,
     tk_tids = (\<lambda>_. False), tk_shown = []\<rparr>"

definition tk_goto :: "nat \<Rightarrow> tk_pc \<Rightarrow> 'a tickets_scheme \<Rightarrow> 'a tickets_scheme" where
  "tk_goto t p s = s\<lparr>tk_pc := (tk_pc s)(t := p)\<rparr>"

fun seller_step :: "nat \<Rightarrow> tk_pc \<Rightarrow> 'a tickets_scheme \<Rightarrow> 'a tickets_scheme outcome" where
  "seller_step t K_Lock s =
     (if tk_mutex s = None then Done (tk_goto t K_Check (s\<lparr>tk_mutex := Some t\<rparr>)) else Blocked)"
| "seller_step t K_Check s = Done (tk_goto t (if tk_num s > 0 then K_Show else K_Leave) s)"
| "seller_step t K_Show s = Done (tk_goto t K_Dec (s\<lparr>tk_shown := tk_shown s @ [(t, tk_num s)]\<rparr>))"
| "seller_step t K_Dec s = Done (tk_goto t K_Unlock (s\<lparr>tk_num := tk_num s - 1\<rparr>))"
| "seller_step t K_Unlock s = Done (tk_goto t K_Lock (s\<lparr>tk_mutex := None\<rparr>))"
| "seller_step t K_Leave s = Done (tk_goto t K_Done (s\<lparr>tk_mutex := None\<rparr>))"
| "seller_step t _ s = Blocked"

text \<open>\<open>main\<close>; \<open>ok\<close> is whether a call of \<open>pthread_create\<close> succeeds, which nobody checks.\<close>

fun main_step :: "bool \<Rightarrow> tk_main \<Rightarrow> 'a tickets_scheme \<Rightarrow> 'a tickets_scheme outcome" where
  "main_step ok (M_Run i) s =
     (if i < NUM
      then Done ((if ok then tk_goto i K_Lock (s\<lparr>tk_tids := (tk_tids s)(i := True)\<rparr>) else s)
                   \<lparr>tk_main := M_Run (Suc i)\<rparr>)
      else Done (s\<lparr>tk_main := M_Join 0\<rparr>))"
| "main_step ok (M_Join i) s =
     (if i < NUM
      then (if \<not> tk_tids s i then Crash Uninitialised
            else if tk_pc s i = K_Done then Done (s\<lparr>tk_main := M_Join (Suc i)\<rparr>) else Blocked)
      else Done (s\<lparr>tk_main := M_Return\<rparr>))"
| "main_step ok M_Return s = Blocked"

inductive ticket_step :: "tickets \<Rightarrow> tickets \<Rightarrow> bool" where
  seller: "seller_step t (tk_pc s t) s = Done s' \<Longrightarrow> ticket_step s s'"
| main: "main_step ok (tk_main s) s = Done s' \<Longrightarrow> ticket_step s s'"

text \<open>\<open>ticket_reach n s\<close>: after \<open>n\<close> steps.\<close>

definition ticket_reach :: "nat \<Rightarrow> tickets \<Rightarrow> bool" where
  "ticket_reach n s \<longleftrightarrow> (ticket_step ^^ n) tickets_start s"

lemma ticket_reach_start: "ticket_reach 0 tickets_start"
  by (simp add: ticket_reach_def)

lemma ticket_reach_step: "ticket_reach n s \<Longrightarrow> ticket_step s s' \<Longrightarrow> ticket_reach (Suc n) s'"
  unfolding ticket_reach_def by auto

section \<open>The second program\<close>

datatype thread_status = NEW | RUNNING | EXITED

text \<open>The class \<open>Thread\<close>; the identifier is 0 until \<open>pthread_create\<close> has written it.\<close>

record thread_obj =
  th_tid :: nat
  th_name :: string
  th_status :: thread_status

text \<open>The characters of the name are the UTF-8 bytes the compiler puts into the literal.\<close>

definition Thread_new :: "int \<Rightarrow> thread_obj" where
  "Thread_new number =
     \<lparr>th_tid = 0,
      th_name = take 63 (to_string number @ map char_of [0xE5 :: nat, 0x8F, 0xB7, 0xE7, 0xBA, 0xBF, 0xE7, 0xA8, 0x8B]),
      th_status = NEW\<rparr>"

text \<open>\<open>run\<close> and \<open>join\<close>, with what the system answers: the new identifier, if any, and the return code.\<close>

definition Thread_run :: "nat option \<Rightarrow> thread_obj \<Rightarrow> thread_obj" where
  "Thread_run created th = th\<lparr>th_tid := (case created of Some tid \<Rightarrow> tid | None \<Rightarrow> th_tid th), th_status := RUNNING\<rparr>"

definition Thread_join :: "thread_obj \<Rightarrow> thread_obj" where
  "Thread_join th = th\<lparr>th_status := EXITED\<rparr>"

text \<open>\<open>LockGuard\<close>: the constructor locks, the destructor unlocks where the block is left.\<close>

definition LockGuard_enter :: "nat \<Rightarrow> 'a tickets_scheme \<Rightarrow> 'a tickets_scheme outcome" where
  "LockGuard_enter t s = (if tk_mutex s = None then Done (s\<lparr>tk_mutex := Some t\<rparr>) else Blocked)"

definition LockGuard_leave :: "'a tickets_scheme \<Rightarrow> 'a tickets_scheme" where
  "LockGuard_leave s = s\<lparr>tk_mutex := None\<rparr>"

fun guarded_step :: "nat \<Rightarrow> tk_pc \<Rightarrow> 'a tickets_scheme \<Rightarrow> 'a tickets_scheme outcome" where
  "guarded_step t K_Lock s = bind_out (LockGuard_enter t s) (\<lambda>s. Done (tk_goto t K_Check s))"
| "guarded_step t K_Check s = Done (tk_goto t (if tk_num s > 0 then K_Show else K_Leave) s)"
| "guarded_step t K_Show s = Done (tk_goto t K_Dec (s\<lparr>tk_shown := tk_shown s @ [(t, tk_num s)]\<rparr>))"
| "guarded_step t K_Dec s = Done (tk_goto t K_Unlock (s\<lparr>tk_num := tk_num s - 1\<rparr>))"
| "guarded_step t K_Unlock s = Done (tk_goto t K_Lock (LockGuard_leave s))"
| "guarded_step t K_Leave s = Done (tk_goto t K_Done (LockGuard_leave s))"
| "guarded_step t _ s = Blocked"

record tickets2 = tickets +
  tk_objs :: "nat \<Rightarrow> thread_obj"

definition tickets2_start :: tickets2 where
  "tickets2_start = \<lparr>tk_num = 1000, tk_mutex = None, tk_pc = (\<lambda>_. K_Off), tk_main = M_Run 0,
     tk_tids = (\<lambda>_. False), tk_shown = [], tk_objs = (\<lambda>i. Thread_new (int i + 1))\<rparr>"

definition set_obj :: "nat \<Rightarrow> thread_obj \<Rightarrow> tickets2 \<Rightarrow> tickets2" where
  "set_obj i th s = s\<lparr>tk_objs := (tk_objs s)(i := th)\<rparr>"

text \<open>A thread that was created runs. Joining one that never was passes the identifier 0, which is undefined.\<close>

fun main_step2 :: "nat option \<Rightarrow> tk_main \<Rightarrow> tickets2 \<Rightarrow> tickets2 outcome" where
  "main_step2 created (M_Run i) s =
     (if i < NUM
      then Done (set_obj i (Thread_run created (tk_objs s i))
        ((if created \<noteq> None then tk_goto i K_Lock (s\<lparr>tk_tids := (tk_tids s)(i := True)\<rparr>) else s)\<lparr>tk_main := M_Run (Suc i)\<rparr>))
      else Done (s\<lparr>tk_main := M_Join 0\<rparr>))"
| "main_step2 created (M_Join i) s =
     (if i < NUM
      then (if \<not> tk_tids s i then Crash Uninitialised
            else if tk_pc s i = K_Done then Done (set_obj i (Thread_join (tk_objs s i)) (s\<lparr>tk_main := M_Join (Suc i)\<rparr>))
            else Blocked)
      else Done (s\<lparr>tk_main := M_Return\<rparr>))"
| "main_step2 created M_Return s = Blocked"

inductive ticket_step2 :: "tickets2 \<Rightarrow> tickets2 \<Rightarrow> bool" where
  seller2: "guarded_step t (tk_pc s t) s = Done s' \<Longrightarrow> ticket_step2 s s'"
| main2: "main_step2 created (tk_main s) s = Done s' \<Longrightarrow> ticket_step2 s s'"

inductive ticket_reach2 :: "nat \<Rightarrow> tickets2 \<Rightarrow> bool" where
  start2: "ticket_reach2 0 tickets2_start"
| step2: "ticket_reach2 n s \<Longrightarrow> ticket_step2 s s' \<Longrightarrow> ticket_reach2 (Suc n) s'"

section \<open>The invariant\<close>

fun tk_holds :: "tk_pc \<Rightarrow> bool" where
  "tk_holds K_Off = False" | "tk_holds K_Lock = False" | "tk_holds K_Done = False" | "tk_holds _ = True"

definition tk_locks :: "tickets \<Rightarrow> bool" where
  "tk_locks s \<longleftrightarrow> (\<forall>t. tk_holds (tk_pc s t) \<longleftrightarrow> tk_mutex s = Some t)"

text \<open>A ticket printed and not yet taken off.\<close>

definition tk_printed :: "tickets \<Rightarrow> int" where
  "tk_printed s = (case tk_mutex s of Some t \<Rightarrow> (if tk_pc s t = K_Dec then 1 else 0) | None \<Rightarrow> 0)"

definition tk_sold :: "tickets \<Rightarrow> bool" where
  "tk_sold s \<longleftrightarrow> 0 \<le> tk_num s \<and> int (length (tk_shown s)) = 1000 - tk_num s + tk_printed s \<and>
     map snd (tk_shown s) = map (\<lambda>i. 1000 - int i) [0..<length (tk_shown s)] \<and>
     (\<forall>t. tk_pc s t = K_Show \<or> tk_pc s t = K_Dec \<longrightarrow> 0 < tk_num s) \<and>
     (\<forall>t. tk_pc s t = K_Leave \<or> tk_pc s t = K_Done \<longrightarrow> tk_num s = 0)"

definition tk_threads :: "tickets \<Rightarrow> bool" where
  "tk_threads s \<longleftrightarrow> (\<forall>t. tk_pc s t \<noteq> K_Off \<longleftrightarrow> tk_tids s t) \<and> (\<forall>t. tk_tids s t \<longrightarrow> t < NUM) \<and>
     (case tk_main s of
        M_Run j \<Rightarrow> j \<le> NUM \<and> (\<forall>t. tk_tids s t \<longrightarrow> t < j)
      | M_Join j \<Rightarrow> j \<le> NUM \<and> (\<forall>t < j. tk_pc s t = K_Done)
      | M_Return \<Rightarrow> \<forall>t < NUM. tk_pc s t = K_Done)"

definition tk_inv :: "tickets \<Rightarrow> bool" where
  "tk_inv s \<longleftrightarrow> tk_locks s \<and> tk_sold s \<and> tk_threads s"

lemmas tk_inv_defs = tk_inv_def tk_locks_def tk_sold_def tk_threads_def tk_printed_def tk_goto_def

lemma seller_locks:
  assumes "tk_locks s" "seller_step t (tk_pc s t) s = Done s'"
  shows "tk_locks s'"
proof -
  have "tk_holds (tk_pc s t) \<Longrightarrow> tk_mutex s = Some t" using assms(1) by (simp add: tk_locks_def)
  with assms show ?thesis
    by (cases "tk_pc s t") (auto simp: tk_locks_def tk_goto_def split: if_splits)
qed

lemma seller_frame:
  assumes "seller_step t (tk_pc s t) s = Done s'"
  shows "tk_tids s' = tk_tids s" "tk_main s' = tk_main s" "u \<noteq> t \<Longrightarrow> tk_pc s' u = tk_pc s u"
    "tk_pc s t \<noteq> K_Off" "tk_pc s t \<noteq> K_Done" "tk_pc s' t \<noteq> K_Off"
  using assms by (cases "tk_pc s t"; auto simp: tk_goto_def split: if_splits)+

lemma seller_threads:
  assumes "tk_threads s" "seller_step t (tk_pc s t) s = Done s'"
  shows "tk_threads s'"
proof -
  note f = seller_frame [OF assms(2)]
  have "(tk_pc s' u = K_Off) = (tk_pc s u = K_Off)" "tk_pc s u = K_Done \<Longrightarrow> tk_pc s' u = K_Done" for u
    using f(3) [of u] f(4-6) by (cases "u = t"; simp)+
  with assms(1) f(1,2) show ?thesis by (simp add: tk_threads_def split: tk_main.splits)
qed

lemma seller_sold:
  assumes "tk_locks s" "tk_sold s" "seller_step t (tk_pc s t) s = Done s'"
  shows "tk_sold s'"
proof (cases "tk_holds (tk_pc s t)")
  case True
  with assms(1) have m: "tk_mutex s = Some t" and u: "\<And>u. u \<noteq> t \<Longrightarrow> \<not> tk_holds (tk_pc s u)"
    by (auto simp: tk_locks_def)
  have o: "tk_pc s u \<notin> {K_Show, K_Dec, K_Leave}" if "u \<noteq> t" for u using u [OF that] by auto
  show ?thesis
    using assms(2,3) m o True
    by (cases "tk_pc s t") (auto simp: tk_sold_def tk_printed_def tk_goto_def split: if_splits)
next
  case False
  with assms(2,3) show ?thesis
    by (cases "tk_pc s t") (auto simp: tk_sold_def tk_printed_def tk_goto_def split: if_splits option.splits)
qed

lemma start_seller:
  assumes "tk_locks s" "tk_sold s" "tk_pc s i = K_Off"
  shows "tk_locks (tk_goto i K_Lock (s\<lparr>tk_tids := x\<rparr>)) \<and> tk_sold (tk_goto i K_Lock (s\<lparr>tk_tids := x\<rparr>))"
proof -
  have "tk_mutex s \<noteq> Some i" using assms(1,3) by (metis tk_locks_def tk_holds.simps(1))
  with assms show ?thesis
    by (auto simp: tk_locks_def tk_sold_def tk_printed_def tk_goto_def split: option.splits)
qed

lemma tk_main_frame [simp]:
  "tk_locks (s\<lparr>tk_main := p\<rparr>) = tk_locks s" "tk_sold (s\<lparr>tk_main := p\<rparr>) = tk_sold s"
  by (simp_all add: tk_locks_def tk_sold_def tk_printed_def cong: option.case_cong)

lemma main_inv:
  assumes "tk_inv s" "main_step ok (tk_main s) s = Done s'"
  shows "tk_inv s'"
proof (cases "tk_main s")
  case (M_Run i)
  have th: "tk_threads s" and l: "tk_locks s" "tk_sold s" using assms(1) by (simp_all add: tk_inv_def)
  show ?thesis
  proof (cases "i < NUM")
    case True
    have "\<not> tk_tids s i" using th M_Run by (auto simp: tk_threads_def)
    then have off: "tk_pc s i = K_Off" using th unfolding tk_threads_def by blast
    have s': "s' = (if ok then tk_goto i K_Lock (s\<lparr>tk_tids := (tk_tids s)(i := True)\<rparr>) else s)\<lparr>tk_main := M_Run (Suc i)\<rparr>"
      using assms(2) M_Run True by simp
    have "tk_locks s' \<and> tk_sold s'" using start_seller [OF l off] l by (simp add: s')
    moreover have "tk_threads s'"
      using th M_Run True off by (auto simp: tk_threads_def s' tk_goto_def less_Suc_eq)
    ultimately show ?thesis by (simp add: tk_inv_def)
  next
    case False
    with assms(2) M_Run have "s' = s\<lparr>tk_main := M_Join 0\<rparr>" by simp
    then show ?thesis using th l by (simp add: tk_inv_def tk_threads_def)
  qed
next
  case (M_Join i)
  have th: "tk_threads s" and l: "tk_locks s" "tk_sold s" using assms(1) by (simp_all add: tk_inv_def)
  have "s' = s\<lparr>tk_main := M_Join (Suc i)\<rparr> \<and> i < NUM \<and> tk_pc s i = K_Done \<or> s' = s\<lparr>tk_main := M_Return\<rparr> \<and> \<not> i < NUM"
    using assms(2) M_Join by (auto split: if_splits)
  then show ?thesis using th l M_Join by (auto simp: tk_inv_def tk_threads_def less_Suc_eq)
qed (use assms in simp)

lemma ticket_step_inv: "ticket_step s s' \<Longrightarrow> tk_inv s \<Longrightarrow> tk_inv s'"
proof (induction rule: ticket_step.induct)
  case (seller t s s')
  then show ?case using seller_locks seller_sold seller_threads unfolding tk_inv_def by blast
qed (rule main_inv)

lemma tickets_start_inv: "tk_inv tickets_start"
  by (simp add: tk_inv_def tk_locks_def tk_sold_def tk_threads_def tk_printed_def tickets_start_def)

section \<open>Every run ends\<close>

fun seller_weight :: "tk_pc \<Rightarrow> nat" where
  "seller_weight K_Off = 4" | "seller_weight K_Lock = 3" | "seller_weight K_Check = 2" | "seller_weight K_Show = 1"
| "seller_weight K_Dec = 0" | "seller_weight K_Unlock = 4" | "seller_weight K_Leave = 1" | "seller_weight K_Done = 0"

fun main_weight :: "tk_main \<Rightarrow> nat" where
  "main_weight (M_Run i) = 10 - i" | "main_weight (M_Join i) = 5 - i" | "main_weight M_Return = 0"

definition tk_measure :: "tickets \<Rightarrow> nat" where
  "tk_measure s = (\<Sum>t < NUM. seller_weight (tk_pc s t)) + 6 * nat (tk_num s) + main_weight (tk_main s)"

lemma seller_measure:
  assumes "tk_inv s" "seller_step t (tk_pc s t) s = Done s'"
  shows "tk_measure s' < tk_measure s"
proof -
  have "tk_pc s t \<noteq> K_Off" using assms(2) by auto
  then have t: "t < NUM" using assms(1) by (auto simp: tk_inv_def tk_threads_def)
  note w = sum_weight_update [OF t, of seller_weight "tk_pc s"]
  have "0 < tk_num s" if "tk_pc s t = K_Dec" using assms(1) that by (auto simp: tk_inv_def tk_sold_def)
  then show ?thesis
    using assms(2) w [of K_Check] w [of K_Show] w [of K_Leave] w [of K_Dec] w [of K_Unlock] w [of K_Lock] w [of K_Done]
    by (cases "tk_pc s t") (auto simp: tk_measure_def tk_goto_def nat_diff_distrib split: if_splits)
qed

lemma main_measure:
  assumes "tk_inv s" "main_step ok (tk_main s) s = Done s'"
  shows "tk_measure s' < tk_measure s"
proof (cases "tk_main s")
  case (M_Run i)
  show ?thesis
  proof (cases "i < NUM")
    case True
    have "\<not> tk_tids s i" using assms(1) M_Run by (auto simp: tk_inv_def tk_threads_def)
    then have off: "tk_pc s i = K_Off" using assms(1) unfolding tk_inv_def tk_threads_def by blast
    show ?thesis
      using assms(2) M_Run True off sum_weight_update [OF True, of seller_weight "tk_pc s" K_Lock]
      by (cases ok) (auto simp: tk_measure_def tk_goto_def NUM_def)
  next
    case False
    then have "i = NUM" using assms(1) M_Run by (simp add: tk_inv_def tk_threads_def)
    with assms(2) M_Run have "s' = s\<lparr>tk_main := M_Join 0\<rparr>" by simp
    with M_Run \<open>i = NUM\<close> show ?thesis by (simp add: tk_measure_def NUM_def)
  qed
next
  case (M_Join i)
  with assms show ?thesis by (auto simp: tk_measure_def tk_inv_def tk_threads_def NUM_def split: if_splits)
qed (use assms in simp)

interpretation selling: measured_steps ticket_step tk_inv tk_measure
proof
  fix s s'
  assume s: "tk_inv s" "ticket_step s s'"
  then show "tk_inv s'" by (blast intro: ticket_step_inv)
  from s(2,1) show "tk_measure s' < tk_measure s"
    by cases (auto intro: seller_measure main_measure)
qed

lemma ticket_run: "ticket_reach n s \<Longrightarrow> tk_inv s \<and> n + tk_measure s \<le> 6026"
  using selling.run_bounded [OF _ tickets_start_inv, of n s] by (simp add: ticket_reach_def tk_measure_def tickets_start_def NUM_def)

lemmas ticket_reach_inv = ticket_run [THEN conjunct1]

section \<open>Where the runs end\<close>

definition tk_rest :: "tickets \<Rightarrow> bool" where
  "tk_rest s \<longleftrightarrow> \<not> (\<exists>s'. ticket_step s s')"

lemma seller_enabled:
  "seller_step t (tk_pc s t) s = Blocked \<longleftrightarrow> tk_pc s t \<in> {K_Off, K_Done} \<or> tk_pc s t = K_Lock \<and> tk_mutex s \<noteq> None"
  by (cases "tk_pc s t") auto

lemma seller_no_crash: "seller_step t p s \<noteq> Crash e"
  by (cases p) auto

lemma rest_sellers:
  assumes "tk_inv s" "tk_rest s"
  shows "tk_pc s t \<in> {K_Off, K_Done}"
proof -
  have b: "seller_step u (tk_pc s u) s = Blocked" for u
    using assms(2) seller_no_crash [of u "tk_pc s u" s]
    by (cases "seller_step u (tk_pc s u) s") (auto simp: tk_rest_def dest: ticket_step.seller)
  have "tk_mutex s = None"
  proof (cases "tk_mutex s")
    case (Some u)
    then have "tk_holds (tk_pc s u)" using assms(1) by (simp add: tk_inv_def tk_locks_def)
    with b [of u] seller_enabled [of u s] show ?thesis by auto
  qed
  with b [of t] seller_enabled [of t s] show ?thesis by auto
qed

lemma rest_main:
  assumes "tk_inv s" "tk_rest s"
  shows "tk_main s = M_Return \<or> (\<exists>i. tk_main s = M_Join i \<and> i < NUM \<and> \<not> tk_tids s i)"
proof (cases "tk_main s")
  case (M_Run i)
  have "\<exists>s'. main_step True (tk_main s) s = Done s'" by (simp add: M_Run)
  then show ?thesis using assms(2) by (auto simp: tk_rest_def dest: ticket_step.main)
next
  case (M_Join i)
  have "\<not> (\<exists>s'. main_step True (tk_main s) s = Done s')"
    using assms(2) by (auto simp: tk_rest_def dest: ticket_step.main)
  moreover have "tk_tids s i \<Longrightarrow> tk_pc s i = K_Done"
    using rest_sellers [OF assms, of i] assms(1) by (auto simp: tk_inv_def tk_threads_def)
  ultimately show ?thesis using M_Join by (auto split: if_splits)
qed simp

text \<open>C28. The four sellers: under every interleaving the tickets printed are 1000, 999, ... in order,
  none twice and none below 1; every run ends after at most 6026 steps; and where it ends either
  \<open>main\<close> has returned and all four threads have ended and all thousand tickets are sold, or \<open>main\<close>
  joins a thread that was never created.\<close>

theorem tickets_sold:
  assumes "ticket_reach n s"
  shows "n \<le> 6026 \<and> map snd (tk_shown s) = map (\<lambda>i. 1000 - int i) [0..<length (tk_shown s)] \<and>
    length (tk_shown s) \<le> 1000 \<and>
    (tk_rest s \<longrightarrow>
       tk_main s = M_Return \<and> (\<forall>t < NUM. tk_pc s t = K_Done) \<and> length (tk_shown s) = 1000 \<or>
       (\<exists>i < NUM. tk_main s = M_Join i \<and> \<not> tk_tids s i \<and> main_step True (tk_main s) s = Crash Uninitialised))"
proof -
  have inv: "tk_inv s" using ticket_reach_inv [OF assms] .
  have pr: "tk_printed s \<le> tk_num s"
    using inv by (auto simp: tk_inv_def tk_sold_def tk_printed_def split: option.splits)
  have ended: "(\<forall>t < NUM. tk_pc s t = K_Done) \<and> length (tk_shown s) = 1000" if "tk_rest s" "tk_main s = M_Return"
  proof -
    have d: "\<forall>t < NUM. tk_pc s t = K_Done" using inv that(2) by (simp add: tk_inv_def tk_threads_def)
    then have "tk_pc s 0 = K_Done" by (simp add: NUM_def)
    then have "tk_num s = 0" using inv by (auto simp: tk_inv_def tk_sold_def)
    with d inv pr show ?thesis by (auto simp: tk_inv_def tk_sold_def tk_printed_def split: option.splits if_splits)
  qed
  have "length (tk_shown s) \<le> 1000" using inv pr by (simp add: tk_inv_def tk_sold_def)
  moreover have "map snd (tk_shown s) = map (\<lambda>i. 1000 - int i) [0..<length (tk_shown s)]"
    using inv by (simp add: tk_inv_def tk_sold_def)
  ultimately show ?thesis
    using ticket_run [OF assms] ended rest_main [OF inv] by auto
qed

lemma tickets_sold_witness:
  "\<exists>s. ticket_reach 4 s \<and> tk_shown s = [(0, 1000)]"
proof -
  define s1 where "s1 = tk_goto 0 K_Lock (tickets_start\<lparr>tk_tids := (\<lambda>_. False)(0 := True)\<rparr>)\<lparr>tk_main := M_Run 1\<rparr>"
  define s2 where "s2 = tk_goto 0 K_Check (s1\<lparr>tk_mutex := Some 0\<rparr>)"
  define s3 where "s3 = tk_goto 0 K_Show s2"
  define s4 where "s4 = tk_goto 0 K_Dec (s3\<lparr>tk_shown := [(0, 1000)]\<rparr>)"
  note d = s1_def s2_def s3_def s4_def tk_goto_def tickets_start_def NUM_def
  have "ticket_step tickets_start s1" by (rule ticket_step.main [of True]) (simp add: d)
  moreover have "ticket_step s1 s2" by (rule ticket_step.seller [of 0]) (simp add: d)
  moreover have "ticket_step s2 s3" by (rule ticket_step.seller [of 0]) (simp add: d)
  moreover have "ticket_step s3 s4" by (rule ticket_step.seller [of 0]) (simp add: d)
  ultimately have "ticket_reach (Suc (Suc (Suc (Suc 0)))) s4"
    by (blast intro: ticket_reach_start ticket_reach_step)
  then have r: "ticket_reach 4 s4" by (simp add: eval_nat_numeral)
  have "map snd (tk_shown s4) = map (\<lambda>i. 1000 - int i) [0..<length (tk_shown s4)]"
    using tickets_sold [OF r] by blast
  then show ?thesis using r by (auto simp: d)
qed

section \<open>The second program does the same\<close>

lemma guarded_seller: "guarded_step t p s = seller_step t p s"
  by (cases p) (auto simp: LockGuard_enter_def LockGuard_leave_def)

lemma truncate_goto: "tickets.truncate (tk_goto t p s) = tk_goto t p (tickets.truncate s)"
  by (simp add: tk_goto_def tickets.truncate_def)

lemma truncate_simps [simp]:
  "tk_num (tickets.truncate s) = tk_num s" "tk_mutex (tickets.truncate s) = tk_mutex s"
  "tk_pc (tickets.truncate s) = tk_pc s" "tk_main (tickets.truncate s) = tk_main s"
  "tk_tids (tickets.truncate s) = tk_tids s" "tk_shown (tickets.truncate s) = tk_shown s"
  "tickets.truncate (s\<lparr>tk_objs := x\<rparr>) = tickets.truncate s"
  by (simp_all add: tickets.truncate_def)

lemma seller_truncate: "map_outcome tickets.truncate (seller_step t p s) = seller_step t p (tickets.truncate s)"
  by (cases p) (simp_all add: tk_goto_def tickets.truncate_def)

lemma main_truncate: "map_outcome tickets.truncate (main_step2 created p s) = main_step (created \<noteq> None) p (tickets.truncate s)"
  by (cases p) (simp_all add: tk_goto_def set_obj_def tickets.truncate_def)

lemma map_out_Done: "map_outcome f m = Done y \<longleftrightarrow> (\<exists>x. m = Done x \<and> y = f x)"
  by (cases m) auto

lemma step2_truncate: "ticket_step2 s s' \<Longrightarrow> ticket_step (tickets.truncate s) (tickets.truncate s')"
proof (induction rule: ticket_step2.induct)
  case (seller2 t s s')
  then have "map_outcome tickets.truncate (seller_step t (tk_pc s t) s) = Done (tickets.truncate s')"
    by (simp add: guarded_seller)
  then show ?case by (intro ticket_step.seller [of t]) (simp add: seller_truncate)
next
  case (main2 created s s')
  then have "map_outcome tickets.truncate (main_step2 created (tk_main s) s) = Done (tickets.truncate s')" by simp
  then show ?case by (intro ticket_step.main [of "created \<noteq> None"]) (simp add: main_truncate)
qed

lemma step2_lift:
  assumes "ticket_step (tickets.truncate s) u"
  shows "\<exists>s'. ticket_step2 s s'"
  using assms
proof (cases rule: ticket_step.cases)
  case (seller t)
  then have "map_outcome tickets.truncate (guarded_step t (tk_pc s t) s) = Done u"
    by (simp add: guarded_seller seller_truncate)
  then show ?thesis unfolding map_out_Done by (blast intro: ticket_step2.seller2)
next
  case (main ok)
  then have "map_outcome tickets.truncate (main_step2 (if ok then Some 1 else None) (tk_main s) s) = Done u"
    by (cases ok) (simp_all add: main_truncate)
  then show ?thesis unfolding map_out_Done by (blast intro: ticket_step2.main2)
qed

text \<open>The state of \<open>Thread\<close> object \<open>i\<close>, from where \<open>main\<close> is.\<close>

fun status_at :: "tk_main \<Rightarrow> nat \<Rightarrow> thread_status" where
  "status_at (M_Run j) i = (if i < j then RUNNING else NEW)"
| "status_at (M_Join j) i = (if i < j then EXITED else RUNNING)"
| "status_at M_Return i = EXITED"

definition objs_ok :: "tickets2 \<Rightarrow> bool" where
  "objs_ok s \<longleftrightarrow> (\<forall>i < NUM. th_status (tk_objs s i) = status_at (tk_main s) i \<and>
     th_name (tk_objs s i) = th_name (Thread_new (int i + 1)))"

lemma seller_objs:
  assumes "guarded_step t p s = Done s'"
  shows "tk_objs s' = tk_objs s \<and> tk_main s' = tk_main s"
  using assms by (cases p) (auto simp: guarded_seller tk_goto_def split: if_splits)

lemma main_objs:
  assumes "main_step2 created (tk_main s) s = Done s'" "objs_ok s" "tk_threads (tickets.truncate s)"
  shows "objs_ok s'"
proof (cases "tk_main s")
  case (M_Run j)
  with assms show ?thesis
    by (auto simp: objs_ok_def tk_threads_def set_obj_def Thread_run_def tk_goto_def less_Suc_eq split: if_splits)
next
  case (M_Join j)
  with assms show ?thesis
    by (auto simp: objs_ok_def tk_threads_def set_obj_def Thread_join_def less_Suc_eq split: if_splits)
qed (use assms in simp)

lemma ticket_reach2_objs: "ticket_reach2 n s \<Longrightarrow> ticket_reach n (tickets.truncate s) \<and> objs_ok s"
proof (induction rule: ticket_reach2.induct)
  case start2
  have "tickets.truncate tickets2_start = tickets_start"
    by (simp add: tickets2_start_def tickets_start_def tickets.truncate_def)
  then show ?case
    using ticket_reach_start by (simp add: objs_ok_def tickets2_start_def Thread_new_def)
next
  case (step2 n s s')
  have "objs_ok s'"
    using step2.hyps(2)
  proof (cases rule: ticket_step2.cases)
    case (seller2 t)
    from seller_objs [OF this] step2.IH show ?thesis by (simp add: objs_ok_def)
  next
    case (main2 created)
    have "tk_threads (tickets.truncate s)" using ticket_reach_inv step2.IH unfolding tk_inv_def by blast
    with main2 step2.IH main_objs show ?thesis by blast
  qed
  with step2.IH step2_truncate [OF step2.hyps(2)] ticket_reach_step show ?case by blast
qed

text \<open>C29. The program with \<open>Thread\<close> and \<open>LockGuard\<close> implements the one with plain POSIX calls: each of its
  runs is, the thread objects left out, a run of the other, it can go on exactly when the other can,
  and the state of each thread object says where \<open>main\<close> is: \<open>NEW\<close> until \<open>run\<close>, \<open>RUNNING\<close> until \<open>join\<close>
  has returned, also if no thread was created, and \<open>EXITED\<close> only when the thread has ended.\<close>

theorem guarded_sellers_refine:
  assumes "ticket_reach2 n s"
  shows "ticket_reach n (tickets.truncate s) \<and>
    ((\<exists>s'. ticket_step2 s s') \<longleftrightarrow> \<not> tk_rest (tickets.truncate s)) \<and>
    (\<forall>i < NUM. th_status (tk_objs s i) = status_at (tk_main s) i \<and> th_name (tk_objs s i) = th_name (Thread_new (int i + 1)) \<and>
       (th_status (tk_objs s i) = EXITED \<longrightarrow> tk_pc s i = K_Done))"
proof -
  have r: "ticket_reach n (tickets.truncate s)" and o: "objs_ok s" using ticket_reach2_objs [OF assms] by auto
  have th: "tk_threads (tickets.truncate s)" using ticket_reach_inv [OF r] by (simp add: tk_inv_def)
  have "tk_pc s i = K_Done" if "i < NUM" "th_status (tk_objs s i) = EXITED" for i
    using that o th by (cases "tk_main s") (auto simp: objs_ok_def tk_threads_def split: if_splits)
  moreover have "(\<exists>s'. ticket_step2 s s') \<longleftrightarrow> \<not> tk_rest (tickets.truncate s)"
    unfolding tk_rest_def using step2_truncate step2_lift by blast
  ultimately show ?thesis using r o by (auto simp: objs_ok_def)
qed

lemma guarded_sellers_refine_witness:
  "\<exists>s. ticket_reach2 1 s \<and> \<not> tk_tids s 0 \<and> th_status (tk_objs s 0) = RUNNING \<and>
     th_name (tk_objs s 0) = ''1'' @ map char_of [0xE5 :: nat, 0x8F, 0xB7, 0xE7, 0xBA, 0xBF, 0xE7, 0xA8, 0x8B]"
proof -
  define s where "s = set_obj 0 (Thread_run None (tk_objs tickets2_start 0)) (tickets2_start\<lparr>tk_main := M_Run 1\<rparr>)"
  have "ticket_step2 tickets2_start s"
    by (rule ticket_step2.main2 [of None]) (simp add: s_def tickets2_start_def NUM_def)
  then have r: "ticket_reach2 1 s" using ticket_reach2.step2 [OF ticket_reach2.start2] by simp
  have "th_name (Thread_new 1) = ''1'' @ map char_of [0xE5 :: nat, 0x8F, 0xB7, 0xE7, 0xBA, 0xBF, 0xE7, 0xA8, 0x8B]"
    by code_simp
  moreover have "tk_main s = M_Run 1" "\<not> tk_tids s 0" by (simp_all add: s_def set_obj_def tickets2_start_def)
  ultimately show ?thesis
    using guarded_sellers_refine [OF r, THEN conjunct2, THEN conjunct2] r by (auto simp: NUM_def)
qed

end
