(* ===== verification/Fifo.thy ===== *)
theory Fifo
  imports Udp
begin

text \<open>
  The programs of \<open>5.26/namepipe\<close> that talk over a named pipe: \<open>newclient.cc\<close> and \<open>newserver.cc\<close>,
  and the older \<open>client.cc\<close> and \<open>server.cc\<close>. A client is a function of the characters typed, a
  server one of what its calls of \<open>read\<close> return; the pipe between the two is a queue of bytes, and a
  write to it succeeds as long as the server is there.
\<close>

section \<open>The clients\<close>

definition tolower :: "char \<Rightarrow> char" where
  "tolower c = (let n = (of_char c :: nat) in if 65 \<le> n \<and> n \<le> 90 then char_of (n + 32) else c)"

definition strcasecmp_eq :: "string \<Rightarrow> string \<Rightarrow> bool" where
  "strcasecmp_eq s t \<longleftrightarrow> map tolower s = map tolower t"

text \<open>\<open>fgets\<close> at the end of the input returns null, which nobody looks at, and leaves the array alone.\<close>

definition fgets_into :: "string \<Rightarrow> string \<Rightarrow> string" where
  "fgets_into buffer input = (if input = [] then buffer else recv_into buffer (fgets_line input @ [NUL]))"

text \<open>\<open>buffer[strlen(buffer) - 1] = 0\<close>.\<close>

definition cut_last :: "string \<Rightarrow> string outcome" where
  "cut_last buffer = bind_out (c_string buffer) (\<lambda>s. buf_set buffer (int (length s) - 1) NUL)"

lemma nat_pred: "nat (int n - 1) = n - 1"
  by arith

lemma cut_last_shorter: "cut_last b = Done b' \<Longrightarrow> length (c_str b') < length (c_str b)"
proof -
  assume "cut_last b = Done b'"
  then have n: "0 < length (c_str b)" and b': "b' = b[length (c_str b) - 1 := NUL]"
    by (auto simp: cut_last_def c_string_def buf_set_def nat_pred split: if_splits)
  have "b = c_str b @ drop (length (c_str b)) b"
    unfolding c_str_def by (metis takeWhile_dropWhile_id dropWhile_eq_drop)
  then have "b' = (c_str b)[length (c_str b) - 1 := NUL] @ drop (length (c_str b)) b"
    using n b' by (metis list_update_append1 One_nat_def diff_less zero_less_one)
  also have "(c_str b)[length (c_str b) - 1 := NUL] = butlast (c_str b) @ [NUL]"
    using n by (cases "c_str b" rule: rev_cases) simp_all
  finally have "c_str b' = c_str (butlast (c_str b))" by (simp add: c_str_stop)
  moreover have "length (c_str (butlast (c_str b))) \<le> length (butlast (c_str b))"
    unfolding c_str_def by (rule length_takeWhile_le)
  ultimately have "length (c_str b') \<le> length (c_str b) - 1" by simp
  with n show ?thesis by linarith
qed

text \<open>The loop of \<open>newclient.cc\<close>; every message is the whole array of 1024 bytes.\<close>

function newclient :: "string \<Rightarrow> string \<Rightarrow> string list \<Rightarrow> string list outcome" where
  "newclient buffer input sent =
     bind_out (cut_last (fgets_into buffer input)) (\<lambda>buffer'.
     bind_out (c_string buffer') (\<lambda>text.
       if strcasecmp_eq text ''quit'' then Done sent
       else newclient buffer' (drop (length (fgets_line input)) input) (sent @ [buffer'])))"
  by pat_completeness auto
termination
proof (relation "measures [\<lambda>(b, i, s). length i, \<lambda>(b, i, s). length (c_str b)]")
  fix buffer input :: string and sent :: "string list" and buffer' tx
  assume cut: "cut_last (fgets_into buffer input) = Done buffer'"
  show "((buffer', drop (length (fgets_line input)) input, sent @ [buffer']), buffer, input, sent)
      \<in> measures [\<lambda>(b, i, s). length i, \<lambda>(b, i, s). length (c_str b)]"
  proof (cases "input = []")
    case True
    with cut have "length (c_str buffer') < length (c_str buffer)"
      using cut_last_shorter by (simp add: fgets_into_def)
    with True show ?thesis by simp
  next
    case False
    then have "0 < length (fgets_line input)" using fgets_line_nonempty by simp
    with False show ?thesis by simp
  qed
qed simp

declare newclient.simps [simp del]

text \<open>
  The loop of \<open>client.cc\<close>, over the lines that \<open>getline\<close> returns: the array is never filled, and
  \<open>sizeof(str)\<close> bytes are written, 32, whatever the length of the line.
\<close>

fun client_old :: "string \<Rightarrow> string list \<Rightarrow> string list \<Rightarrow> string list outcome" where
  "client_old buffer [] sent = Done sent"
| "client_old buffer (str # lines) sent =
     bind_out (cut_last buffer) (\<lambda>buffer'.
     bind_out (c_string buffer') (\<lambda>text.
       if strcasecmp_eq text ''quit'' then Done sent
       else if 32 \<le> length (str @ [NUL]) then client_old buffer' lines (sent @ [take 32 (str @ [NUL])])
       else Crash OutOfBounds))"

section \<open>The servers\<close>

fun newserver :: "string \<Rightarrow> recv_res list \<Rightarrow> string list \<Rightarrow> string list outcome" where
  "newserver buffer [] shown = Blocked"
| "newserver buffer (r # reads) shown =
     bind_out (buf_set buffer 0 NUL) (\<lambda>buffer.
       case r of
         RData d \<Rightarrow>
           (if d = [] then Done shown
            else bind_out (buf_set (recv_into buffer d) (int (length d)) NUL) (\<lambda>buffer.
                 bind_out (c_string buffer) (\<lambda>text. newserver buffer reads (shown @ [text]))))
       | REof \<Rightarrow> Done shown
       | RErr e \<Rightarrow> Done shown)"

text \<open>\<open>server.cc\<close> has the terminating zero commented out and goes on after an error.\<close>

fun server_old :: "string \<Rightarrow> recv_res list \<Rightarrow> string list \<Rightarrow> string list outcome" where
  "server_old buffer [] shown = Blocked"
| "server_old buffer (r # reads) shown =
     bind_out (buf_set buffer 0 NUL) (\<lambda>buffer.
       case r of
         RData d \<Rightarrow>
           (if d = [] then Done shown
            else bind_out (c_string (recv_into buffer d)) (\<lambda>text. server_old (recv_into buffer d) reads (shown @ [text])))
       | REof \<Rightarrow> Done shown
       | RErr e \<Rightarrow> server_old buffer reads shown)"

section \<open>The pipe\<close>

text \<open>
  A schedule says when the client writes its next message and when the server reads. A read takes
  what there is, at most 1023 bytes; it waits while there is nothing, and sees the end when the
  client has written everything and gone.
\<close>

datatype fifo_ev = FWrite | FRead

fun fifo_reads :: "fifo_ev list \<Rightarrow> string list \<Rightarrow> string \<Rightarrow> recv_res list" where
  "fifo_reads [] blocks pipe = (if blocks = [] \<and> pipe = [] then [REof] else [])"
| "fifo_reads (FWrite # evs) blocks pipe =
     (case blocks of [] \<Rightarrow> fifo_reads evs [] pipe | b # bs \<Rightarrow> fifo_reads evs bs (pipe @ b))"
| "fifo_reads (FRead # evs) blocks pipe =
     (if pipe = [] then fifo_reads evs blocks pipe
      else RData (take 1023 pipe) # fifo_reads evs blocks (drop 1023 pipe))"

section \<open>What the client sends\<close>

definition typed :: "string list \<Rightarrow> string" where
  "typed ls = concat (map (\<lambda>l. l @ [CHR 0x0A]) ls)"

definition line_ok :: "string \<Rightarrow> bool" where
  "line_ok l \<longleftrightarrow> length l \<le> 1022 \<and> NUL \<notin> set l \<and> CHR 0x0A \<notin> set l"

text \<open>The messages for a list of lines: each line replaces the front of the array.\<close>

fun client_blocks :: "string \<Rightarrow> string list \<Rightarrow> string list" where
  "client_blocks b [] = []"
| "client_blocks b (l # ls) = recv_into b (l @ [NUL, NUL]) # client_blocks (recv_into b (l @ [NUL, NUL])) ls"

lemma fgets_line_typed:
  assumes "line_ok l"
  shows "fgets_line (l @ [CHR 0x0A] @ inp) = l @ [CHR 0x0A]"
proof -
  have "takeWhile (\<lambda>c. c \<noteq> CHR 0x0A) (l @ [CHR 0x0A] @ inp) = l"
    using assms takeWhile_append_stop [of "\<lambda>c. c \<noteq> CHR 0x0A" "CHR 0x0A" l inp] by (auto simp: line_ok_def takeWhile_eq_all_conv)
  moreover have "take 1023 (l @ [CHR 0x0A]) = l @ [CHR 0x0A]" by (rule take_all) (use assms in \<open>simp add: line_ok_def\<close>)
  ultimately show ?thesis by (simp add: fgets_line_def)
qed

lemma c_str_recv: "NUL \<notin> set l \<Longrightarrow> c_str (recv_into b (l @ NUL # t)) = l"
  by (simp add: recv_into_def text_simps)

lemma cut_last_line:
  assumes "NUL \<notin> set l" "length l + 2 \<le> length b"
  shows "cut_last (recv_into b (l @ [CHR 0x0A, NUL])) = Done (recv_into b (l @ [NUL, NUL]))"
proof -
  have "c_str (recv_into b ((l @ [CHR 0x0A]) @ NUL # [])) = l @ [CHR 0x0A]"
    using assms(1) by (intro c_str_recv) (simp add: NUL_def)
  then have "c_string (recv_into b (l @ [CHR 0x0A, NUL])) = Done (l @ [CHR 0x0A])"
    by (simp add: c_string_def recv_into_def)
  then show ?thesis
    using assms(2) by (simp add: cut_last_def buf_set_def recv_into_def nat_add_distrib list_update_append)
qed

lemma newclient_line:
  assumes "line_ok l" "length b = 1024"
  shows "newclient b (l @ [CHR 0x0A] @ inp) sent =
    (if strcasecmp_eq l ''quit'' then Done sent
     else newclient (recv_into b (l @ [NUL, NUL])) inp (sent @ [recv_into b (l @ [NUL, NUL])]))"
proof -
  have l: "NUL \<notin> set l" "length l + 2 \<le> length b" using assms by (simp_all add: line_ok_def)
  have c: "c_string (recv_into b (l @ [NUL, NUL])) = Done l"
    using c_str_recv [OF l(1), of b "[NUL]"] by (simp add: c_string_def recv_into_def)
  show ?thesis
    using fgets_line_typed [OF assms(1), of inp] cut_last_line [OF l] c
    by (subst newclient.simps) (simp add: fgets_into_def)
qed

lemma newclient_lines:
  assumes "\<forall>l \<in> set ls. line_ok l \<and> \<not> strcasecmp_eq l ''quit''" "length b = 1024"
  shows "newclient b (typed ls @ inp) sent = newclient (last (b # client_blocks b ls)) inp (sent @ client_blocks b ls)"
  using assms
proof (induction ls arbitrary: b sent)
  case (Cons l ls)
  let ?b = "recv_into b (l @ [NUL, NUL])"
  have "line_ok l" using Cons.prems(1) by simp
  then have "length ?b = 1024" using Cons.prems(2) by (simp add: line_ok_def)
  then have "newclient ?b (typed ls @ inp) (sent @ [?b]) =
      newclient (last (?b # client_blocks ?b ls)) inp ((sent @ [?b]) @ client_blocks ?b ls)"
    using Cons.prems(1) by (intro Cons.IH) simp_all
  moreover have "newclient b (typed (l # ls) @ inp) sent = newclient ?b (typed ls @ inp) (sent @ [?b])"
    using newclient_line [OF \<open>line_ok l\<close> Cons.prems(2), of "typed ls @ inp"] Cons.prems(1) by (simp add: typed_def)
  ultimately show ?case by simp
qed (simp add: typed_def)

text \<open>At the end of the input the text loses one character a round.\<close>

lemma newclient_eof:
  assumes "NUL \<notin> set t"
  shows "newclient (t @ NUL # z) [] sent =
    (if 4 < length t \<and> strcasecmp_eq (take 4 t) ''quit''
     then Done (sent @ map (\<lambda>i. take i t @ replicate (length t - i) NUL @ NUL # z) (rev [5..<length t]))
     else Crash OutOfBounds)"
  using assms
proof (induction t arbitrary: z sent rule: rev_induct)
  case Nil
  show ?case by (subst newclient.simps) (simp add: fgets_into_def cut_last_def c_string_def c_str_def buf_set_def)
next
  case (snoc c t)
  have c: "c_string ((t @ [c]) @ NUL # z) = Done (t @ [c])"
    using snoc.prems by (simp add: c_string_def c_str_stop [of "t @ [c]", simplified] c_str_id)
  then have cut: "cut_last ((t @ [c]) @ NUL # z) = Done (t @ NUL # NUL # z)"
    by (simp add: cut_last_def buf_set_def nat_add_distrib list_update_append)
  have t: "c_string (t @ NUL # NUL # z) = Done t"
    using snoc.prems by (simp add: c_string_def text_simps)
  have step: "newclient ((t @ [c]) @ NUL # z) [] sent =
      (if strcasecmp_eq t ''quit'' then Done sent else newclient (t @ NUL # NUL # z) [] (sent @ [t @ NUL # NUL # z]))"
    using cut t by (subst newclient.simps) (simp add: fgets_into_def)
  have len: "length t = 4" if "strcasecmp_eq t ''quit''"
    using that by (auto simp: strcasecmp_eq_def dest: arg_cong [where f = length])
  show ?case
  proof (cases "strcasecmp_eq t ''quit''")
    case True
    with step len show ?thesis by simp
  next
    case False
    let ?f = "\<lambda>i. take i t @ replicate (length t - i) NUL @ NUL # NUL # z"
    let ?g = "\<lambda>i. take i (t @ [c]) @ replicate (length (t @ [c]) - i) NUL @ NUL # z"
    have fg: "?f i = ?g i" if "i \<le> length t" for i
    proof -
      have "length (t @ [c]) - i = Suc (length t - i)" using that by simp
      then show ?thesis using that by (simp add: replicate_app_Cons_same)
    qed
    have cond: "4 < length (t @ [c]) \<and> strcasecmp_eq (take 4 (t @ [c])) ''quit'' \<longleftrightarrow> 4 < length t \<and> strcasecmp_eq (take 4 t) ''quit''"
      using False by (cases "length t = 4") auto
    have nc: "NUL \<notin> set t" using snoc.prems by simp
    have ih: "newclient ((t @ [c]) @ NUL # z) [] sent = (if 4 < length t \<and> strcasecmp_eq (take 4 t) ''quit''
        then Done ((sent @ [t @ NUL # NUL # z]) @ map ?f (rev [5..<length t])) else Crash OutOfBounds)"
      using step False snoc.IH [OF nc, of "NUL # z" "sent @ [t @ NUL # NUL # z]"] by simp
    have "t @ NUL # NUL # z = ?g (length t)" using fg [of "length t"] by simp
    moreover have "map ?f (rev [5..<length t]) = map ?g (rev [5..<length t])"
      by (rule map_cong) (use fg in auto)
    moreover have "rev [5..<length (t @ [c])] = length t # rev [5..<length t]" if "4 < length t" using that by simp
    ultimately show ?thesis unfolding ih cond by (simp only: append.assoc append_Cons append_Nil list.map split: if_split) simp
  qed
qed

lemma client_blocks_shape:
  assumes "\<forall>l \<in> set ls. line_ok l" "length b = 1024"
  shows "list_all (\<lambda>x. length x = 1024) (client_blocks b ls) \<and> map c_str (client_blocks b ls) = ls"
  using assms
proof (induction ls arbitrary: b)
  case (Cons l ls)
  let ?b = "recv_into b (l @ [NUL, NUL])"
  have "NUL \<notin> set l" "length ?b = 1024" using Cons.prems by (simp_all add: line_ok_def)
  with Cons.IH [of ?b] Cons.prems(1) c_str_recv [of l b "[NUL]"] show ?case by simp
qed simp

lemma last_block:
  assumes "ls \<noteq> []"
  shows "\<exists>z. last (client_blocks b ls) = last ls @ NUL # z"
  using assms by (induction ls arbitrary: b) (auto simp: recv_into_def neq_Nil_conv)

lemma client_old_short:
  assumes "cut_last buffer = Done buffer'" "c_string buffer' = Done t" "\<not> strcasecmp_eq t ''quit''" "length str < 31"
  shows "client_old buffer (str # lines) sent = Crash OutOfBounds"
  using assms by simp

text \<open>The clients of the named pipe. The new one sends one array per line, with the line as its text,
  until \<open>quit\<close> is typed. If the input ends instead it goes on sending the last line, shorter by one
  character each time, until it writes in front of its array, except if what is left reads \<open>quit\<close>
  on the way. The old one reads behind any line of less than 31 characters.\<close>

theorem fifo_clients:
  assumes "\<forall>l \<in> set ls. line_ok l \<and> \<not> strcasecmp_eq l ''quit''" "length b = 1024" "ls \<noteq> []"
    and "line_ok q" "strcasecmp_eq q ''quit''"
    and "cut_last old = Done old'" "c_string old' = Done t" "\<not> strcasecmp_eq t ''quit''" "length str < 31"
  shows "newclient b (typed ls @ typed [q] @ inp) [] = Done (client_blocks b ls) \<and>
    map c_str (client_blocks b ls) = ls \<and> list_all (\<lambda>x. length x = 1024) (client_blocks b ls) \<and>
    (newclient b (typed ls) [] = Crash OutOfBounds \<longleftrightarrow>
       \<not> (4 < length (last ls) \<and> strcasecmp_eq (take 4 (last ls)) ''quit'')) \<and>
    client_old old (str # lines) [] = Crash OutOfBounds"
proof -
  have ok: "\<forall>l \<in> set ls. line_ok l" using assms(1) by blast
  have shape: "list_all (\<lambda>x. length x = 1024) (client_blocks b ls)" "map c_str (client_blocks b ls) = ls"
    using client_blocks_shape [OF ok assms(2)] by simp_all
  have ne: "client_blocks b ls \<noteq> []" using assms(3) by (cases ls) auto
  obtain z where z: "last (b # client_blocks b ls) = last ls @ NUL # z"
    using last_block [OF assms(3), of b] ne by auto
  have n: "NUL \<notin> set (last ls)" using ok assms(3) by (auto simp: line_ok_def)
  have "length (last (b # client_blocks b ls)) = 1024" using shape(1) ne by (simp add: list_all_iff)
  from newclient_line [OF assms(4) this] have "newclient b (typed ls @ typed [q] @ inp) [] = Done (client_blocks b ls)"
    using newclient_lines [OF assms(1,2), of "typed [q] @ inp"] assms(5) by (simp add: typed_def)
  moreover have "newclient b (typed ls) [] = newclient (last ls @ NUL # z) [] (client_blocks b ls)"
    using newclient_lines [OF assms(1,2), of "[]"] z by simp
  then have "newclient b (typed ls) [] = Crash OutOfBounds \<longleftrightarrow>
      \<not> (4 < length (last ls) \<and> strcasecmp_eq (take 4 (last ls)) ''quit'')"
    by (simp add: newclient_eof [OF n])
  moreover have "client_old old (str # lines) [] = Crash OutOfBounds" by (rule client_old_short [OF assms(6-9)])
  ultimately show ?thesis using shape by blast
qed

lemma fifo_clients_witness:
  "newclient (replicate 1024 NUL) (typed [''hi'']) [] = Crash OutOfBounds"
proof -
  let ?old = "''ab'' @ [NUL]"
  have q: "line_ok ''quit''" "strcasecmp_eq ''quit'' ''quit''" by (simp_all add: line_ok_def strcasecmp_eq_def NUL_def)
  have ls: "\<forall>l \<in> set [''hi'']. line_ok l \<and> \<not> strcasecmp_eq l ''quit''"
    by (simp add: line_ok_def strcasecmp_eq_def NUL_def)
  have old: "cut_last ?old = Done (''a'' @ [NUL, NUL])" "c_string (''a'' @ [NUL, NUL]) = Done ''a''"
    "\<not> strcasecmp_eq ''a'' ''quit''" "length [] < (31 :: nat)"
    by (simp_all add: cut_last_def c_string_def c_str_def buf_set_def NUL_def strcasecmp_eq_def)
  from fifo_clients [OF ls _ _ q old, of "replicate 1024 NUL", THEN conjunct2, THEN conjunct2, THEN conjunct2, THEN conjunct1]
  show ?thesis by simp
qed

section \<open>What the server shows\<close>

lemma newserver_all:
  assumes "list_all (\<lambda>d. d \<noteq> [] \<and> length d < 1024) ds" "length b = 1024"
  shows "newserver b (map RData ds @ [REof]) shown = Done (shown @ map c_str ds)"
  using assms
proof (induction ds arbitrary: b shown)
  case Nil
  then show ?case by (simp add: buf_set_def)
next
  case (Cons d ds)
  have set0: "buf_set b 0 NUL = Done (b[0 := NUL])" using Cons.prems(2) by (simp add: buf_set_def)
  have d: "length d < length (b[0 := NUL])" "d \<noteq> []" using Cons.prems by simp_all
  obtain b' where b': "buf_set (recv_into (b[0 := NUL]) d) (int (length d)) NUL = Done b'"
    using d(1) by (simp add: buf_set_def)
  then have l: "length b' = 1024" using d(1) Cons.prems(2) by (auto simp: buf_set_def split: if_splits)
  have "c_string b' = Done (c_str d)" using terminated_recv_c_string [OF d(1)] b' by (simp del: bind_out_Done_iff)
  with set0 b' d(2) Cons.IH [OF _ l, of "shown @ [c_str d]"] Cons.prems(1) show ?case by (simp del: bind_out_Done_iff)
qed

lemma fifo_reads_turns:
  assumes "list_all (\<lambda>x. length x = 1024) bs" "n = length bs"
  shows "fifo_reads (concat (replicate n [FWrite, FRead, FRead])) bs [] =
    map RData (concat (map (\<lambda>b. [take 1023 b, drop 1023 b]) bs)) @ [REof]"
  using assms
proof (induction bs arbitrary: n)
  case (Cons b bs)
  then have "b \<noteq> []" "drop 1023 b \<noteq> []" "take 1023 (drop 1023 b) = drop 1023 b" "drop 1023 (drop 1023 b) = []" by auto
  with Cons show ?case by simp
qed simp

text \<open>The last two bytes of the array of the client are never overwritten with anything but zeros.\<close>

lemma client_blocks_end:
  assumes "\<forall>l \<in> set ls. line_ok l" "length b = 1024" "drop 1022 b = [NUL, NUL]"
  shows "list_all (\<lambda>x. drop 1022 x = [NUL, NUL] \<and> drop 1023 x = [NUL]) (client_blocks b ls)"
  using assms
proof (induction ls arbitrary: b)
  case (Cons l ls)
  let ?b = "recv_into b (l @ [NUL, NUL])"
  have l: "length l \<le> 1022" using Cons.prems(1) by (simp add: line_ok_def)
  then have len: "length ?b = 1024" using Cons.prems(2) by simp
  have b: "b ! 1022 = NUL" "b ! 1023 = NUL"
    using Cons.prems(2,3) nth_drop [of 1022 b 0] nth_drop [of 1022 b 1] by simp_all
  have "?b ! i = NUL" if "i = 1022 \<or> i = 1023" for i
  proof (cases "length l + 2 \<le> i")
    case True
    then show ?thesis using that b by (auto simp: recv_into_def nth_append Cons.prems(2))
  next
    case False
    then show ?thesis using that l by (auto simp: recv_into_def nth_append nth_Cons')
  qed
  then have d: "drop 1022 ?b = [NUL, NUL]"
    using len by (simp add: list_eq_iff_nth_eq less_Suc_eq numeral_2_eq_2)
  then have "drop 1 (drop 1022 ?b) = [NUL]" by simp
  then have "drop 1023 ?b = [NUL]" by simp
  with d Cons.IH [OF _ len d] Cons.prems(1) show ?case by simp
qed simp

lemma c_str_take_block:
  assumes "line_ok l" "length b = 1024"
  shows "c_str (take 1023 (recv_into b (l @ [NUL, NUL]))) = l"
proof -
  have l: "length l \<le> 1022" "NUL \<notin> set l" using assms(1) by (simp_all add: line_ok_def)
  then obtain m where m: "1023 - length l = Suc m" by (cases "1023 - length l") auto
  have "take 1023 (recv_into b (l @ [NUL, NUL])) = l @ NUL # take m (NUL # drop (length l + 2) b)"
    using l(1) m by (simp add: recv_into_def)
  then show ?thesis using l(2) by (simp add: text_simps)
qed

lemma take_blocks:
  assumes "\<forall>l \<in> set ls. line_ok l" "length b = 1024"
  shows "map (\<lambda>x. c_str (take 1023 x)) (client_blocks b ls) = ls"
  using assms
proof (induction ls arbitrary: b)
  case (Cons l ls)
  then have "length (recv_into b (l @ [NUL, NUL])) = 1024" by (simp add: line_ok_def)
  with Cons c_str_take_block show ?case by simp
qed simp

lemma c_str_NUL [simp]: "c_str (NUL # t) = []"
  by (simp add: c_str_def)

lemma fifo_in_turn:
  assumes "\<forall>l \<in> set ls. line_ok l" "length b = 1024" "drop 1022 b = [NUL, NUL]" "length sb = 1024"
  shows "newserver sb (fifo_reads (concat (replicate (length ls) [FWrite, FRead, FRead])) (client_blocks b ls) []) []
      = Done (concat (map (\<lambda>l. [l, []]) ls))"
proof -
  let ?bs = "client_blocks b ls"
  have len: "list_all (\<lambda>x. length x = 1024) ?bs" "length ?bs = length ls"
    using client_blocks_shape [OF assms(1,2)] by (auto dest: arg_cong [where f = length])
  have e: "list_all (\<lambda>x. drop 1022 x = [NUL, NUL] \<and> drop 1023 x = [NUL]) ?bs"
    by (rule client_blocks_end [OF assms(1,2,3)])
  let ?ds = "concat (map (\<lambda>b. [take 1023 b, drop 1023 b]) ?bs)"
  have "list_all (\<lambda>d. d \<noteq> [] \<and> length d < 1024) ?ds" using len(1) e by (auto simp: list_all_iff)
  from newserver_all [OF this assms(4)] have
    "newserver sb (fifo_reads (concat (replicate (length ls) [FWrite, FRead, FRead])) ?bs []) [] = Done (map c_str ?ds)"
    using fifo_reads_turns [OF len(1) len(2) [symmetric]] by simp
  also have "map c_str ?ds = concat (map (\<lambda>x. [c_str (take 1023 x), []]) ?bs)"
    using e by (induction ?bs) (auto simp: map_concat comp_def list_all_iff intro!: arg_cong [where f = concat])
  also have "\<dots> = concat (map (\<lambda>l. [l, []]) (map (\<lambda>x. c_str (take 1023 x)) ?bs))" by (simp add: comp_def)
  finally show "newserver sb (fifo_reads (concat (replicate (length ls) [FWrite, FRead, FRead])) ?bs []) []
      = Done (concat (map (\<lambda>l. [l, []]) ls))" by (simp only: take_blocks [OF assms(1,2)])
qed

lemma fifo_waiting:
  assumes "line_ok l1" "line_ok l2" "length b = 1024" "drop 1022 b = [NUL, NUL]" "length sb = 1024"
  shows "newserver sb (fifo_reads [FWrite, FWrite, FRead, FRead, FRead] (client_blocks b [l1, l2]) []) [] = Done [l1, [], []]"
proof -
  have ok: "\<forall>l \<in> set [l1, l2]. line_ok l" using assms(1,2) by simp
  obtain b1 b2 where bs: "client_blocks b [l1, l2] = [b1, b2]" by simp
  have len: "length b1 = 1024" "length b2 = 1024" using client_blocks_shape [OF ok assms(3)] by (simp_all add: bs del: client_blocks.simps)
  have e: "drop 1023 b1 = [NUL]" "drop 1022 b2 = [NUL, NUL]"
    using client_blocks_end [OF ok assms(3,4)] by (simp_all add: bs del: client_blocks.simps)
  have c: "c_str (take 1023 b1) = l1" using take_blocks [OF ok assms(3)] by (simp add: bs del: client_blocks.simps)
  let ?ds = "[take 1023 b1, NUL # take 1022 b2, drop 1022 b2]"
  have "fifo_reads [FWrite, FWrite, FRead, FRead, FRead] [b1, b2] [] = map RData ?ds @ [REof]"
  proof -
    have "drop 1023 (b1 @ b2) = NUL # b2" using len e(1) by simp
    moreover have "take 1023 (b1 @ b2) = take 1023 b1" using len by simp
    moreover have "take 1023 (NUL # b2) = NUL # take 1022 b2" "drop 1023 (NUL # b2) = drop 1022 b2"
      by (simp_all add: take_Cons' drop_Cons')
    moreover have "b1 @ b2 \<noteq> []" "take 1023 (drop 1022 b2) = drop 1022 b2" "drop 1023 (drop 1022 b2) = []" "drop 1022 b2 \<noteq> []"
      using len by auto
    ultimately show ?thesis by simp
  qed
  note reads = this
  have "list_all (\<lambda>d. d \<noteq> [] \<and> length d < 1024) ?ds" using len by (auto simp: e)
  from newserver_all [OF this assms(5), of "[]"]
  show "newserver sb (fifo_reads [FWrite, FWrite, FRead, FRead, FRead] (client_blocks b [l1, l2]) []) [] = Done [l1, [], []]"
    unfolding bs reads e(2) list.map append_Nil c c_str_NUL .
qed



end
