(* ===== verification/SharedMemory.thy ===== *)
theory SharedMemory
  imports Prelude
begin

unbundle bit_operations_syntax

text \<open>
  The shared memory programs of \<open>6.6\<close> (\<open>comm.hpp\<close>, \<open>server.cc\<close>, \<open>client.cc\<close>). The System V segments of
  the machine are state; the calls \<open>shmget\<close>, \<open>shmat\<close>, \<open>shmdt\<close> and \<open>shmctl\<close> act on it as documented,
  permissions included. Both programs run as the same user.
\<close>

section \<open>Segments\<close>

record segment =
  sg_key :: "int option"    \<comment> \<open>none once the segment is marked for removal\<close>
  sg_size :: nat
  sg_mode :: "32 word"

record shm_sys =
  ss_segs :: "(int \<times> segment) list"
  ss_maps :: "(int \<times> int \<times> int) list"   \<comment> \<open>process, address, segment\<close>
  ss_next :: int                           \<comment> \<open>the next identifier\<close>
  ss_room :: bool                          \<comment> \<open>whether a new segment can be had\<close>
  ss_root :: bool                          \<comment> \<open>whether the user is exempt from permissions\<close>
  ss_addr :: "int \<Rightarrow> int"                  \<comment> \<open>where a segment is put in a process\<close>

definition IPC_CREAT :: "32 word" where "IPC_CREAT = 0x200"
definition IPC_EXCL :: "32 word" where "IPC_EXCL = 0x400"

definition shm_lookup :: "int \<Rightarrow> shm_sys \<Rightarrow> (int \<times> segment) option" where
  "shm_lookup key s = find (\<lambda>(i, g). sg_key g = Some key) (ss_segs s)"

definition shmget :: "int \<Rightarrow> nat \<Rightarrow> 32 word \<Rightarrow> shm_sys \<Rightarrow> int \<times> shm_sys" where
  "shmget key sz shmflg s =
     (case shm_lookup key s of
        Some (i, g) \<Rightarrow>
          (if shmflg AND IPC_CREAT \<noteq> 0 \<and> shmflg AND IPC_EXCL \<noteq> 0 then (-1, s)
           else if sg_size g < sz then (-1, s) else (i, s))
      | None \<Rightarrow>
          (if shmflg AND IPC_CREAT = 0 \<or> \<not> ss_room s then (-1, s)
           else (ss_next s, s\<lparr>ss_segs := (ss_next s, \<lparr>sg_key = Some key, sg_size = sz, sg_mode = shmflg AND 0x1FF\<rparr>) # ss_segs s,
                              ss_next := ss_next s + 1\<rparr>)))"

text \<open>Attaching for reading and writing needs both bits of the owner.\<close>

definition shmat :: "int \<Rightarrow> int \<Rightarrow> shm_sys \<Rightarrow> int \<times> shm_sys" where
  "shmat pid shmid s =
     (case map_of (ss_segs s) shmid of
        None \<Rightarrow> (-1, s)
      | Some g \<Rightarrow>
          (if ss_root s \<or> sg_mode g AND 0x180 = 0x180
           then (ss_addr s pid, s\<lparr>ss_maps := (pid, ss_addr s pid, shmid) # ss_maps s\<rparr>)
           else (-1, s)))"

definition shm_used :: "(int \<times> int \<times> int) list \<Rightarrow> int \<Rightarrow> bool" where
  "shm_used maps shmid \<longleftrightarrow> shmid \<in> (snd \<circ> snd) ` set maps"

text \<open>A segment marked for removal goes when nobody has it attached any more.\<close>

definition shm_reap :: "shm_sys \<Rightarrow> shm_sys" where
  "shm_reap s = s\<lparr>ss_segs := filter (\<lambda>(i, g). sg_key g \<noteq> None \<or> shm_used (ss_maps s) i) (ss_segs s)\<rparr>"

definition shmdt :: "int \<Rightarrow> int \<Rightarrow> shm_sys \<Rightarrow> int \<times> shm_sys" where
  "shmdt pid start s =
     (case find (\<lambda>(p, a, i). p = pid \<and> a = start) (ss_maps s) of
        None \<Rightarrow> (-1, s)
      | Some m \<Rightarrow> (0, shm_reap (s\<lparr>ss_maps := remove1 m (ss_maps s)\<rparr>)))"

definition shmctl_rmid :: "int \<Rightarrow> shm_sys \<Rightarrow> int \<times> shm_sys" where
  "shmctl_rmid shmid s =
     (if map_of (ss_segs s) shmid = None then (-1, s)
      else (0, shm_reap (s\<lparr>ss_segs := map (\<lambda>(i, g). if i = shmid then (i, g\<lparr>sg_key := None\<rparr>) else (i, g)) (ss_segs s)\<rparr>)))"

section \<open>The functions of \<open>comm.hpp\<close>\<close>

definition SERVER :: int where "SERVER = 0"
definition CLIENT :: int where "CLIENT = 1"
definition getsize :: nat where "getsize = 4096"

text \<open>\<open>ftok\<close> is what the system answers.\<close>

definition GetKey :: "int \<Rightarrow> int outcome" where
  "GetKey k = (if k = -1 then Crash (ExitWith 1) else Done k)"

definition Shm :: "int \<Rightarrow> nat \<Rightarrow> 32 word \<Rightarrow> shm_sys \<Rightarrow> (int \<times> shm_sys) outcome" where
  "Shm key sz shmflg s = (let (ret, s) = shmget key sz shmflg s in if ret = -1 then Crash (ExitWith 2) else Done (ret, s))"

definition CreateShm :: "int \<Rightarrow> nat \<Rightarrow> shm_sys \<Rightarrow> (int \<times> shm_sys) outcome" where
  "CreateShm key sz = Shm key sz (IPC_CREAT OR IPC_EXCL)"

definition GetShm :: "int \<Rightarrow> nat \<Rightarrow> shm_sys \<Rightarrow> (int \<times> shm_sys) outcome" where
  "GetShm key sz = Shm key sz IPC_CREAT"

definition AttachShm :: "int \<Rightarrow> int \<Rightarrow> shm_sys \<Rightarrow> (int \<times> shm_sys) outcome" where
  "AttachShm pid shmid s = (let (start, s) = shmat pid shmid s in if start = 0 then Crash AssertFailed else Done (start, s))"

definition DetachShm :: "int \<Rightarrow> int \<Rightarrow> shm_sys \<Rightarrow> shm_sys" where
  "DetachShm pid start s = snd (shmdt pid start s)"

definition DelShm :: "int \<Rightarrow> shm_sys \<Rightarrow> shm_sys outcome" where
  "DelShm shmid s = (let (ret, s) = shmctl_rmid shmid s in if ret = -1 then Crash AssertFailed else Done s)"

record Init =
  in_id :: int
  in_start :: int
  in_shmid :: int

definition Init_new :: "int \<Rightarrow> int \<Rightarrow> int \<Rightarrow> shm_sys \<Rightarrow> (Init \<times> shm_sys) outcome" where
  "Init_new pid key i s =
     bind_out (GetKey key) (\<lambda>k.
     bind_out (if i = SERVER then CreateShm k getsize s else GetShm k getsize s) (\<lambda>(shmid, s).
     bind_out (AttachShm pid shmid s) (\<lambda>(start, s).
     Done (\<lparr>in_id = i, in_start = start, in_shmid = shmid\<rparr>, s))))"

definition Init_destroy :: "int \<Rightarrow> Init \<Rightarrow> shm_sys \<Rightarrow> shm_sys outcome" where
  "Init_destroy pid o' s =
     (let s = DetachShm pid (in_start o') s in if in_id o' = SERVER then DelShm (in_shmid o') s else Done s)"

text \<open>A \<open>main\<close> builds the object, sleeps and leaves the block; what others do meanwhile is \<open>others\<close>.\<close>

definition shm_main :: "int \<Rightarrow> int \<Rightarrow> int \<Rightarrow> (shm_sys \<Rightarrow> shm_sys outcome) \<Rightarrow> shm_sys \<Rightarrow> shm_sys outcome" where
  "shm_main pid key i others s =
     bind_out (Init_new pid key i s) (\<lambda>(o', s). bind_out (others s) (Init_destroy pid o'))"

definition shm_server :: "int \<Rightarrow> int \<Rightarrow> (shm_sys \<Rightarrow> shm_sys outcome) \<Rightarrow> shm_sys \<Rightarrow> shm_sys outcome" where
  "shm_server pid key others s = shm_main pid key SERVER others s"

definition shm_client :: "int \<Rightarrow> int \<Rightarrow> (shm_sys \<Rightarrow> shm_sys outcome) \<Rightarrow> shm_sys \<Rightarrow> shm_sys outcome" where
  "shm_client pid key others s = shm_main pid key CLIENT others s"

section \<open>Runs\<close>

text \<open>The key is free, identifiers are fresh, and the processes have nothing attached.\<close>

definition shm_fresh :: "int \<Rightarrow> int \<Rightarrow> int \<Rightarrow> shm_sys \<Rightarrow> bool" where
  "shm_fresh key p c s \<longleftrightarrow> key \<noteq> -1 \<and> shm_lookup key s = None \<and> ss_room s \<and> 0 \<le> ss_next s \<and>
     (\<forall>(i, g) \<in> set (ss_segs s). i \<noteq> ss_next s \<and> sg_key g \<noteq> None) \<and>
     (\<forall>(q, a, i) \<in> set (ss_maps s). q \<noteq> p \<and> q \<noteq> c \<and> i \<noteq> ss_next s) \<and>
     0 < ss_addr s p \<and> 0 < ss_addr s c \<and> p \<noteq> c"

text \<open>The segment both programs create: no permission bit is set.\<close>

definition new_segment :: "int \<Rightarrow> segment" where
  "new_segment key = \<lparr>sg_key = Some key, sg_size = 4096, sg_mode = 0\<rparr>"

definition with_segment :: "int \<Rightarrow> shm_sys \<Rightarrow> shm_sys" where
  "with_segment key s = s\<lparr>ss_segs := (ss_next s, new_segment key) # ss_segs s, ss_next := ss_next s + 1\<rparr>"

definition attached :: "int \<Rightarrow> int \<Rightarrow> shm_sys \<Rightarrow> shm_sys" where
  "attached pid shmid s = (if ss_root s then s\<lparr>ss_maps := (pid, ss_addr s pid, shmid) # ss_maps s\<rparr> else s)"

definition start_of :: "int \<Rightarrow> shm_sys \<Rightarrow> int" where
  "start_of pid s = (if ss_root s then ss_addr s pid else -1)"

lemma flags [simp]:
  "(IPC_CREAT OR IPC_EXCL) AND IPC_CREAT \<noteq> 0" "(IPC_CREAT OR IPC_EXCL) AND IPC_EXCL \<noteq> 0"
  "(IPC_CREAT OR IPC_EXCL) AND 0x1FF = 0" "IPC_CREAT AND IPC_CREAT \<noteq> 0" "IPC_CREAT AND IPC_EXCL = 0" "IPC_CREAT AND 0x1FF = 0"
  "IPC_CREAT \<noteq> 0" "IPC_EXCL \<noteq> 0"
  by (simp_all add: IPC_CREAT_def IPC_EXCL_def)

lemma attach_created:
  assumes "map_of (ss_segs s) i = Some g" "sg_mode g = 0" "0 < ss_addr s pid"
  shows "AttachShm pid i s = Done (start_of pid s, attached pid i s)"
  using assms by (simp add: AttachShm_def shmat_def start_of_def attached_def)

lemma create_free:
  assumes "shm_lookup key s = None" "ss_room s" "0 \<le> ss_next s"
  shows "CreateShm key getsize s = Done (ss_next s, with_segment key s)"
    "GetShm key getsize s = Done (ss_next s, with_segment key s)"
  using assms
  by (simp_all add: CreateShm_def GetShm_def Shm_def shmget_def with_segment_def new_segment_def getsize_def)

lemma init_free:
  assumes "shm_lookup key s = None" "ss_room s" "0 \<le> ss_next s" "key \<noteq> -1" "0 < ss_addr s pid"
  shows "Init_new pid key i s =
    Done (\<lparr>in_id = i, in_start = start_of pid s, in_shmid = ss_next s\<rparr>, attached pid (ss_next s) (with_segment key s))"
proof -
  have "AttachShm pid (ss_next s) (with_segment key s) = Done (start_of pid s, attached pid (ss_next s) (with_segment key s))"
    using attach_created [of "with_segment key s" "ss_next s" "new_segment key" pid] assms(5)
    by (simp add: with_segment_def new_segment_def start_of_def)
  then show ?thesis using assms create_free [OF assms(1-3)] by (simp add: Init_new_def GetKey_def del: bind_out_Done_iff)
qed

lemma lookup_with_segment: "shm_lookup key (with_segment key s) = Some (ss_next s, new_segment key)"
  by (simp add: shm_lookup_def with_segment_def new_segment_def)

lemma attached_simps [simp]:
  "ss_segs (attached p i s) = ss_segs s" "ss_next (attached p i s) = ss_next s" "ss_root (attached p i s) = ss_root s"
  "ss_addr (attached p i s) = ss_addr s" "shm_lookup key (attached p i s) = shm_lookup key s"
  "ss_maps (attached p i s) = (if ss_root s then [(p, ss_addr s p, i)] else []) @ ss_maps s"
  by (simp_all add: attached_def shm_lookup_def)

lemma find_no_map:
  assumes "\<forall>(q, a, i) \<in> set maps. q \<noteq> p"
  shows "find (\<lambda>(q, a, i). q = p \<and> a = x) maps = None"
  using assms by (induction maps) auto

lemma filter_all: "\<forall>(i, g) \<in> set segs. sg_key g \<noteq> None \<Longrightarrow> filter (\<lambda>(i, g). sg_key g \<noteq> None \<or> P i) segs = segs"
  by (induction segs) auto

lemma map_segs_id:
  assumes "\<forall>(i, g) \<in> set segs. i \<noteq> n"
  shows "map (\<lambda>(i, g). if i = n then (i, f g) else (i, g)) segs = segs"
  using assms by (induction segs) auto

lemma init_client_existing:
  assumes "shm_lookup key s = Some (n, new_segment key)" "map_of (ss_segs s) n = Some (new_segment key)"
    and "key \<noteq> -1" "n \<noteq> -1" "0 < ss_addr s c"
  shows "Init_new c key CLIENT s = Done (\<lparr>in_id = CLIENT, in_start = start_of c s, in_shmid = n\<rparr>, attached c n s)"
proof -
  have g: "GetShm key getsize s = Done (n, s)"
    using assms(1,4) by (simp add: GetShm_def Shm_def shmget_def new_segment_def getsize_def)
  have a: "AttachShm c n s = Done (start_of c s, attached c n s)"
    using attach_created [OF assms(2) _ assms(5)] by (simp add: new_segment_def)
  show ?thesis unfolding Init_new_def GetKey_def using g a assms(3) by (simp add: CLIENT_def SERVER_def)
qed

lemma init_server_existing:
  assumes "shm_lookup key s = Some (n, g)" "key \<noteq> -1"
  shows "Init_new p key SERVER s = Crash (ExitWith 2)"
  using assms by (simp add: Init_new_def GetKey_def CreateShm_def Shm_def shmget_def)

lemma detach_front:
  assumes "\<forall>(q, a, i) \<in> set (ss_maps s). q \<noteq> p"
  shows "DetachShm p (start_of p s) (attached p n s) = (if ss_root s then shm_reap s else s)"
  using find_no_map [OF assms] by (simp add: DetachShm_def shmdt_def start_of_def attached_def)

lemma detach_second:
  assumes "\<forall>(q, a, i) \<in> set (ss_maps s). q \<noteq> p" "c \<noteq> p"
  shows "DetachShm p (start_of p s) (attached c m (attached p n s)) =
    (if ss_root s then shm_reap (attached c m s) else s)"
  using find_no_map [OF assms(1)] assms(2) by (simp add: DetachShm_def shmdt_def start_of_def attached_def)

lemma reap_all:
  assumes "\<forall>(i, g) \<in> set (ss_segs s). sg_key g \<noteq> None"
  shows "shm_reap s = s"
  using filter_all [OF assms] by (simp add: shm_reap_def)

lemma del_created:
  assumes "ss_segs s = (n, g) # segs" "\<forall>(i, g) \<in> set segs. i \<noteq> n \<and> sg_key g \<noteq> None" 
  shows "DelShm n s = Done (s\<lparr>ss_segs := (if shm_used (ss_maps s) n then (n, g\<lparr>sg_key := None\<rparr>) # segs else segs)\<rparr>)"
proof -
  have "map (\<lambda>(i, g). if i = n then (i, g\<lparr>sg_key := None\<rparr>) else (i, g)) segs = segs"
    using assms(2) by (intro map_segs_id) auto
  moreover have "filter (\<lambda>(i, g). sg_key g \<noteq> None \<or> shm_used (ss_maps s) i) segs = segs"
    using assms(2) by (intro filter_all) auto
  ultimately show ?thesis using assms(1) by (simp add: DelShm_def shmctl_rmid_def shm_reap_def)
qed

lemma not_used: "\<forall>(q, a, i) \<in> set maps. i \<noteq> n \<Longrightarrow> \<not> shm_used maps n"
  by (auto simp: shm_used_def)

text \<open>What each call does where the key is free: starting, attaching beside the other, leaving first or last.\<close>

lemma shm_moves:
  assumes "shm_fresh key p c s"
  shows "Init_new p key SERVER s = Done (\<lparr>in_id = SERVER, in_start = start_of p s, in_shmid = ss_next s\<rparr>, attached p (ss_next s) (with_segment key s))"
    and "Init_new c key CLIENT s = Done (\<lparr>in_id = CLIENT, in_start = start_of c s, in_shmid = ss_next s\<rparr>, attached c (ss_next s) (with_segment key s))"
    and "Init_new c key CLIENT (attached p (ss_next s) (with_segment key s)) =
      Done (\<lparr>in_id = CLIENT, in_start = start_of c s, in_shmid = ss_next s\<rparr>, attached c (ss_next s) (attached p (ss_next s) (with_segment key s)))"
    and "DetachShm p (start_of p s) (attached p (ss_next s) (with_segment key s)) = with_segment key s"
    and "DetachShm c (start_of c s) (attached c (ss_next s) (attached p (ss_next s) (with_segment key s))) = attached p (ss_next s) (with_segment key s)"
    and "DetachShm c (start_of c s) (attached c (ss_next s) (with_segment key s)) = with_segment key s"
    and "DetachShm p (start_of p s) (attached c (ss_next s) (attached p (ss_next s) (with_segment key s))) =
      (if ss_root s then attached c (ss_next s) (with_segment key s) else with_segment key s)"
    and "DelShm (ss_next s) (with_segment key s) = Done (s\<lparr>ss_next := ss_next s + 1\<rparr>)"
proof -
  let ?n = "ss_next s"
  let ?w = "with_segment key s"
  let ?done = "s\<lparr>ss_next := ?n + 1\<rparr>"
  have f: "key \<noteq> -1" "shm_lookup key s = None" "ss_room s" "0 \<le> ?n" "0 < ss_addr s p" "0 < ss_addr s c" "p \<noteq> c"
    using assms by (simp_all add: shm_fresh_def)
  have segs: "\<forall>(i, g) \<in> set (ss_segs s). i \<noteq> ?n \<and> sg_key g \<noteq> None" using assms by (auto simp: shm_fresh_def)
  have maps: "\<forall>(q, a, i) \<in> set (ss_maps s). q \<noteq> p" "\<forall>(q, a, i) \<in> set (ss_maps s). q \<noteq> c" "\<not> shm_used (ss_maps s) ?n"
    using assms by (auto simp: shm_fresh_def intro!: not_used)
  have w: "ss_maps ?w = ss_maps s" "ss_root ?w = ss_root s" "ss_addr ?w = ss_addr s" "start_of q ?w = start_of q s"
    "ss_segs ?w = (?n, new_segment key) # ss_segs s" for q by (simp_all add: with_segment_def start_of_def)
  have sa: "start_of q (attached r i u) = start_of q u" for q r i u by (simp add: start_of_def)
  have reap_w: "shm_reap ?w = ?w" using segs by (intro reap_all) (auto simp: w new_segment_def)
  have reap_cw: "shm_reap (attached c ?n ?w) = attached c ?n ?w" using segs by (intro reap_all) (auto simp: w new_segment_def)
  show "Init_new p key SERVER s = Done (\<lparr>in_id = SERVER, in_start = start_of p s, in_shmid = ?n\<rparr>, attached p ?n ?w)"
    by (rule init_free [OF f(2-4,1,5)])
  show "Init_new c key CLIENT s = Done (\<lparr>in_id = CLIENT, in_start = start_of c s, in_shmid = ?n\<rparr>, attached c ?n ?w)"
    by (rule init_free [OF f(2-4,1,6)])
  show "Init_new c key CLIENT (attached p ?n ?w) =
      Done (\<lparr>in_id = CLIENT, in_start = start_of c s, in_shmid = ?n\<rparr>, attached c ?n (attached p ?n ?w))"
    using init_client_existing [of key "attached p ?n ?w" ?n c] f(1,4,6) lookup_with_segment [of key s] by (simp add: w sa)
  show "DetachShm p (start_of p s) (attached p ?n ?w) = ?w"
    using detach_front [of ?w p ?n] maps(1) reap_w by (simp add: w)
  show "DetachShm c (start_of c s) (attached c ?n (attached p ?n ?w)) = attached p ?n ?w"
  proof -
    have "shm_reap (attached p ?n ?w) = attached p ?n ?w" using segs by (intro reap_all) (auto simp: w new_segment_def)
    moreover have "\<forall>(q, a, i) \<in> set (ss_maps (attached p ?n ?w)). q \<noteq> c" using maps(2) f(7) by (auto simp: w)
    from detach_front [OF this] have "DetachShm c (start_of c (attached p ?n ?w)) (attached c ?n (attached p ?n ?w)) =
      (if ss_root (attached p ?n ?w) then shm_reap (attached p ?n ?w) else attached p ?n ?w)" .
    ultimately show ?thesis by (simp add: w sa)
  qed
  show "DetachShm c (start_of c s) (attached c ?n ?w) = ?w"
    using detach_front [of ?w c ?n] maps(2) reap_w by (simp add: w)
  show "DetachShm p (start_of p s) (attached c ?n (attached p ?n ?w)) = (if ss_root s then attached c ?n ?w else ?w)"
    using detach_second [of ?w p c ?n ?n] maps(1) f(7) reap_cw by (simp add: w)
  show "DelShm ?n ?w = Done ?done"
    using del_created [OF w(5) segs] maps(3) by (simp add: w with_segment_def)
qed

text \<open>The server alone, around a client, and after one.\<close>

lemma shm_orders:
  assumes "shm_fresh key p c s"
  shows "shm_server p key Done s = Done (s\<lparr>ss_next := ss_next s + 1\<rparr>)"
    and "shm_server p key (shm_client c key Done) s = Done (s\<lparr>ss_next := ss_next s + 1\<rparr>)"
    and "\<exists>s'. shm_client c key Done s = Done s' \<and> map_of (ss_segs s') (ss_next s) = Some (new_segment key) \<and>
       Init_new p key SERVER s' = Crash (ExitWith 2)"
proof -
  let ?n = "ss_next s"
  let ?w = "with_segment key s"
  let ?done = "s\<lparr>ss_next := ?n + 1\<rparr>"
  have sc: "CLIENT \<noteq> SERVER" by (simp add: SERVER_def CLIENT_def)
  note m = shm_moves [OF assms]
  note server = m(1) and client0 = m(2) and client = m(3) and dp = m(4) and dc = m(5) and dc0 = m(6) and dp2 = m(7) and del = m(8)
  show "shm_server p key Done s = Done ?done"
    by (simp add: shm_server_def shm_main_def server Init_destroy_def dp del del: bind_out_Done_iff)
  have cin: "shm_client c key Done (attached p ?n ?w) = Done (attached p ?n ?w)"
    by (simp add: shm_client_def shm_main_def client Init_destroy_def dc sc del: bind_out_Done_iff)
  show "shm_server p key (shm_client c key Done) s = Done ?done"
    by (simp add: shm_server_def shm_main_def server cin Init_destroy_def dp del del: bind_out_Done_iff)
  have f: "key \<noteq> -1" using assms by (simp add: shm_fresh_def)
  show "\<exists>s'. shm_client c key Done s = Done s' \<and> map_of (ss_segs s') ?n = Some (new_segment key) \<and>
       Init_new p key SERVER s' = Crash (ExitWith 2)"
  proof (intro exI conjI)
    show "shm_client c key Done s = Done ?w"
      by (simp add: shm_client_def shm_main_def client0 Init_destroy_def dc0 sc del: bind_out_Done_iff)
    show "Init_new p key SERVER ?w = Crash (ExitWith 2)" by (rule init_server_existing [OF lookup_with_segment f])
  qed (simp add: with_segment_def)
qed

text \<open>The server leaves while a client is attached.\<close>

lemma shm_server_first:
  assumes "shm_fresh key p c s"
  shows "\<exists>o1 s1 o2 s2 s3. Init_new p key SERVER s = Done (o1, s1) \<and> Init_new c key CLIENT s1 = Done (o2, s2) \<and>
       Init_destroy p o1 s2 = Done s3 \<and> (map_of (ss_segs s3) (ss_next s) = None \<longleftrightarrow> \<not> ss_root s) \<and>
       in_start o1 = (if ss_root s then ss_addr s p else -1) \<and> in_start o2 = (if ss_root s then ss_addr s c else -1) \<and>
       Init_destroy c o2 s3 = Done (s\<lparr>ss_next := ss_next s + 1\<rparr>)"
proof -
  let ?n = "ss_next s"
  let ?w = "with_segment key s"
  let ?done = "s\<lparr>ss_next := ?n + 1\<rparr>"
  have sc: "CLIENT \<noteq> SERVER" by (simp add: SERVER_def CLIENT_def)
  note m = shm_moves [OF assms]
  note server = m(1) and client0 = m(2) and client = m(3) and dp = m(4) and dc = m(5) and dc0 = m(6) and dp2 = m(7) and del = m(8)
  have segs: "\<forall>(i, g) \<in> set (ss_segs s). i \<noteq> ?n \<and> sg_key g \<noteq> None" using assms by (auto simp: shm_fresh_def)
  have maps: "\<forall>(q, a, i) \<in> set (ss_maps s). q \<noteq> p" "\<forall>(q, a, i) \<in> set (ss_maps s). q \<noteq> c" "\<not> shm_used (ss_maps s) ?n"
    using assms by (auto simp: shm_fresh_def intro!: not_used)
  have w: "ss_maps ?w = ss_maps s" "ss_root ?w = ss_root s" "ss_segs ?w = (?n, new_segment key) # ss_segs s" by (simp_all add: with_segment_def)
  let ?g = "(new_segment key)\<lparr>sg_key := None\<rparr>"
  let ?s2 = "attached c ?n (attached p ?n ?w)"
  let ?s3 = "if ss_root s then attached c ?n (?done\<lparr>ss_segs := (?n, ?g) # ss_segs s\<rparr>) else ?done"
  have s3: "Init_destroy p \<lparr>in_id = SERVER, in_start = start_of p s, in_shmid = ?n\<rparr> ?s2 = Done ?s3"
  proof (cases "ss_root s")
    case True
    have "DelShm ?n (attached c ?n ?w) = Done ((attached c ?n ?w)\<lparr>ss_segs := (?n, ?g) # ss_segs s\<rparr>)"
      using del_created [of "attached c ?n ?w" ?n "new_segment key" "ss_segs s"] segs True
      by (simp add: w shm_used_def)
    moreover have "Init_destroy p \<lparr>in_id = SERVER, in_start = start_of p s, in_shmid = ?n\<rparr> ?s2 = DelShm ?n (attached c ?n ?w)"
      using True by (simp add: Init_destroy_def dp2)
    moreover have "(attached c ?n ?w)\<lparr>ss_segs := (?n, ?g) # ss_segs s\<rparr> = ?s3"
      using True by (cases s) (simp add: attached_def with_segment_def)
    ultimately show ?thesis by simp
  next
    case False
    with del show ?thesis by (simp add: Init_destroy_def dp2 del: bind_out_Done_iff)
  qed
  have s4: "Init_destroy c \<lparr>in_id = CLIENT, in_start = start_of c s, in_shmid = ?n\<rparr> ?s3 = Done ?done"
  proof (cases "ss_root s")
    case True
    let ?u = "?done\<lparr>ss_segs := (?n, ?g) # ss_segs s\<rparr>"
    have "filter (\<lambda>(i, g). sg_key g \<noteq> None \<or> shm_used (ss_maps s) i) (ss_segs s) = ss_segs s"
      using segs by (intro filter_all) auto
    then have "shm_reap ?u = ?done" using maps(3) by (simp add: shm_reap_def)
    moreover have "DetachShm c (start_of c ?u) (attached c ?n ?u) = (if ss_root ?u then shm_reap ?u else ?u)"
      by (rule detach_front) (use maps(2) in simp)
    ultimately show ?thesis using True by (simp add: Init_destroy_def start_of_def sc)
  next
    case False
    then have "shmdt c (-1) ?done = (-1, ?done)" using find_no_map [OF maps(2)] by (simp add: shmdt_def)
    with False show ?thesis by (simp add: Init_destroy_def start_of_def sc DetachShm_def)
  qed
  have "map_of (ss_segs s) ?n = None" using segs by (auto simp: map_of_eq_None_iff)
  then have "map_of (ss_segs ?s3) ?n = None \<longleftrightarrow> \<not> ss_root s" by simp
  with server client s3 s4 show "\<exists>o1 s1 o2 s2 s3. Init_new p key SERVER s = Done (o1, s1) \<and> Init_new c key CLIENT s1 = Done (o2, s2) \<and>
       Init_destroy p o1 s2 = Done s3 \<and> (map_of (ss_segs s3) ?n = None \<longleftrightarrow> \<not> ss_root s) \<and>
       in_start o1 = (if ss_root s then ss_addr s p else -1) \<and> in_start o2 = (if ss_root s then ss_addr s c else -1) \<and>
       Init_destroy c o2 s3 = Done ?done"
    by (intro exI conjI) (assumption | simp add: start_of_def)+
qed



end
