(* ===== verification/Signals.thy ===== *)
theory Signals
  imports Prelude
begin

text \<open>
  The signal programs of \<open>6.15\<close>: \<open>getpending/pending.cc\<close>, which blocks \<open>SIGINT\<close> for a while and prints
  the pending set every second, and \<open>sigaction/sigact.cc\<close>, whose handler runs for a hundred seconds
  with the signals 2 to 6 blocked. A blocked signal that arrives becomes pending, once however often
  it arrives; a signal that is not blocked runs its handler, or ends the process if it has none. Signals arrive
  one at a time; the constant heading of each printed bitmap is left out.
\<close>

section \<open>Signals of a process\<close>

datatype sig_out = Bits string | Caught nat

record sig_proc =
  sp_pending :: "nat \<Rightarrow> bool"
  sp_blocked :: "nat \<Rightarrow> bool"
  sp_handler :: "nat \<Rightarrow> bool"      \<comment> \<open>whether a handler is installed\<close>
  sp_alive :: bool
  sp_out :: "sig_out list"

definition sig_start :: sig_proc where
  "sig_start = \<lparr>sp_pending = (\<lambda>_. False), sp_blocked = (\<lambda>_. False), sp_handler = (\<lambda>_. False), sp_alive = True, sp_out = []\<rparr>"

text \<open>Delivery, with the handler of \<open>pending.cc\<close>, which prints and returns; then arrival.\<close>

definition sig_deliver :: "nat \<Rightarrow> sig_proc \<Rightarrow> sig_proc" where
  "sig_deliver n p = (if sp_handler p n then p\<lparr>sp_out := sp_out p @ [Caught n]\<rparr> else p\<lparr>sp_alive := False\<rparr>)"

definition sig_raise :: "nat \<Rightarrow> sig_proc \<Rightarrow> sig_proc" where
  "sig_raise n p = (if sp_blocked p n then p\<lparr>sp_pending := (sp_pending p)(n := True)\<rparr> else sig_deliver n p)"

text \<open>A new mask; what was pending and is blocked no more is delivered, lower numbers first.\<close>

definition sigprocmask :: "(nat \<Rightarrow> bool) \<Rightarrow> sig_proc \<Rightarrow> sig_proc" where
  "sigprocmask newmask p =
     (let due = filter (\<lambda>n. sp_pending p n \<and> \<not> newmask n) [1..<32]
      in fold sig_deliver due (p\<lparr>sp_blocked := newmask, sp_pending := (\<lambda>n. sp_pending p n \<and> newmask n)\<rparr>))"

definition PrintSigSet :: "(nat \<Rightarrow> bool) \<Rightarrow> string" where
  "PrintSigSet set' = map (\<lambda>i. if set' i then CHR ''1'' else CHR ''0'') [1..<32]"

section \<open>\<open>pending.cc\<close>\<close>

definition SIGINT :: nat where "SIGINT = 2"

definition pending_init :: "sig_proc \<Rightarrow> sig_proc" where
  "pending_init p = sigprocmask (\<lambda>n. n = SIGINT) (p\<lparr>sp_handler := (sp_handler p)(SIGINT := True)\<rparr>)"

text \<open>One round: print, sleep, during which \<open>SIGINT\<close> arrives \<open>k\<close> times, and the test of the counter.\<close>

definition pending_round :: "nat \<Rightarrow> nat \<times> sig_proc \<Rightarrow> nat \<times> sig_proc" where
  "pending_round k = (\<lambda>(cnt, p).
     let p = p\<lparr>sp_out := sp_out p @ [Bits (PrintSigSet (sp_pending p))]\<rparr>;
         p = (sig_raise SIGINT ^^ k) p;
         p = (if cnt = 10 then sigprocmask (\<lambda>_. False) p else p)
     in (cnt + 1, p))"

definition pending_main :: "nat list \<Rightarrow> sig_proc" where
  "pending_main ks = snd (fold pending_round ks (0, pending_init sig_start))"

section \<open>\<open>sigact.cc\<close>\<close>

text \<open>
  The handler, with the signals that arrive in each of its seconds. On entry 2 to 6 are blocked, and
  on return the old mask is put back.
\<close>

definition handler_second :: "nat list \<Rightarrow> sig_proc \<Rightarrow> sig_proc" where
  "handler_second arriving p = fold sig_raise arriving (p\<lparr>sp_out := sp_out p @ [Bits (PrintSigSet (sp_pending p))]\<rparr>)"

definition sigact_mask :: "nat \<Rightarrow> bool" where
  "sigact_mask n \<longleftrightarrow> n \<in> {2, 3, 4, 5, 6}"

definition sigact_handler :: "nat list list \<Rightarrow> sig_proc \<Rightarrow> sig_proc" where
  "sigact_handler seconds p =
     fold handler_second (take 100 seconds) (p\<lparr>sp_blocked := sigact_mask, sp_out := sp_out p @ [Caught 2]\<rparr>)"

section \<open>What they show\<close>

definition int_bits :: "bool \<Rightarrow> string" where
  "int_bits b = PrintSigSet (\<lambda>n. b \<and> n = SIGINT)"

text \<open>The state of \<open>pending.cc\<close> while \<open>SIGINT\<close> is blocked, and later.\<close>

definition waiting :: "bool \<Rightarrow> sig_out list \<Rightarrow> sig_proc" where
  "waiting b out = \<lparr>sp_pending = (\<lambda>n. b \<and> n = SIGINT), sp_blocked = (\<lambda>n. n = SIGINT), sp_handler = (\<lambda>n. n = SIGINT),
     sp_alive = True, sp_out = out\<rparr>"

definition open_proc :: "sig_out list \<Rightarrow> sig_proc" where
  "open_proc out = \<lparr>sp_pending = (\<lambda>n. False), sp_blocked = (\<lambda>n. False), sp_handler = (\<lambda>n. n = SIGINT),
     sp_alive = True, sp_out = out\<rparr>"

lemma pending_init_waiting: "pending_init sig_start = waiting False []"
  by (simp add: pending_init_def sigprocmask_def waiting_def sig_start_def fun_eq_iff)

lemma raise_waiting: "(sig_raise SIGINT ^^ k) (waiting b out) = waiting (b \<or> 0 < k) out"
  by (induction k) (auto simp: sig_raise_def waiting_def fun_eq_iff)

lemma raise_open: "(sig_raise SIGINT ^^ k) (open_proc out) = open_proc (out @ replicate k (Caught SIGINT))"
  by (induction k) (simp_all add: sig_raise_def sig_deliver_def open_proc_def replicate_append_same)

lemma unblock_waiting: "sigprocmask (\<lambda>_. False) (waiting b out) = open_proc (out @ (if b then [Caught SIGINT] else []))"
proof -
  have "filter (\<lambda>n. b \<and> n = SIGINT) [1..<32] = (if b then [SIGINT] else [])"
    by (simp add: SIGINT_def upt_conv_Cons)
  then show ?thesis by (simp add: sigprocmask_def waiting_def open_proc_def sig_deliver_def)
qed

text \<open>The lines of a run: printed before the 11th round is over, then after.\<close>

fun blocked_out :: "bool \<Rightarrow> nat list \<Rightarrow> sig_out list" where
  "blocked_out b [] = []"
| "blocked_out b (k # ks) = Bits (int_bits b) # blocked_out (b \<or> 0 < k) ks"

definition open_out :: "nat list \<Rightarrow> sig_out list" where
  "open_out ks = concat (map (\<lambda>k. Bits (int_bits False) # replicate k (Caught SIGINT)) ks)"

lemma rounds_blocked:
  assumes "cnt + length ks \<le> 10"
  shows "fold pending_round ks (cnt, waiting b out) =
    (cnt + length ks, waiting (b \<or> (\<exists>k \<in> set ks. 0 < k)) (out @ blocked_out b ks))"
  using assms
proof (induction ks arbitrary: cnt b out)
  case (Cons k ks)
  have "pending_round k (cnt, waiting b out) = (cnt + 1, waiting (b \<or> 0 < k) (out @ [Bits (int_bits b)]))"
    using raise_waiting [of k b "out @ [Bits (int_bits b)]"] Cons.prems
    by (simp add: pending_round_def waiting_def int_bits_def)
  then show ?case using Cons.IH [of "cnt + 1"] Cons.prems by (simp add: disj_assoc)
qed simp

lemma round_last:
  "pending_round k (10, waiting b out) =
    (11, open_proc (out @ [Bits (int_bits b)] @ (if b \<or> 0 < k then [Caught SIGINT] else [])))"
  using raise_waiting [of k b "out @ [Bits (int_bits b)]"] unblock_waiting
  by (simp add: pending_round_def waiting_def int_bits_def)

lemma rounds_open:
  assumes "10 < cnt"
  shows "fold pending_round ks (cnt, open_proc out) = (cnt + length ks, open_proc (out @ open_out ks))"
  using assms
proof (induction ks arbitrary: cnt out)
  case (Cons k ks)
  have "pending_round k (cnt, open_proc out) = (cnt + 1, open_proc (out @ [Bits (int_bits False)] @ replicate k (Caught SIGINT)))"
    using raise_open [of k "out @ [Bits (int_bits False)]"] Cons.prems
    by (simp add: pending_round_def open_proc_def int_bits_def)
  then show ?case using Cons.IH [of "cnt + 1"] Cons.prems by (simp add: open_out_def)
qed (simp add: open_out_def)

lemma blocked_out_snoc: "blocked_out b (ks @ [k]) = blocked_out b ks @ [Bits (int_bits (b \<or> (\<exists>k \<in> set ks. 0 < k)))]"
  by (induction ks arbitrary: b) (simp_all add: disj_assoc)

lemma handler_second_blocked:
  assumes "set arriving \<subseteq> {2, 3, 4, 5, 6}" "sp_blocked p = sigact_mask"
  shows "handler_second arriving p = p\<lparr>sp_pending := (\<lambda>n. sp_pending p n \<or> n \<in> set arriving),
    sp_out := sp_out p @ [Bits (PrintSigSet (sp_pending p))]\<rparr>"
proof -
  have "fold sig_raise arriving q = q\<lparr>sp_pending := (\<lambda>n. sp_pending q n \<or> n \<in> set arriving)\<rparr>"
    if "sp_blocked q = sigact_mask" for q
    using assms(1) that
  proof (induction arriving arbitrary: q)
    case (Cons n ns)
    have "sig_raise n q = q\<lparr>sp_pending := (sp_pending q)(n := True)\<rparr>"
      using Cons.prems by (auto simp: sig_raise_def sigact_mask_def)
    with Cons.IH [of "q\<lparr>sp_pending := (sp_pending q)(n := True)\<rparr>"] Cons.prems show ?case by (auto simp: fun_eq_iff)
  qed simp
  with assms(2) show ?thesis by (simp add: handler_second_def)
qed

text \<open>A run of \<open>pending.cc\<close>: \<open>SIGINT\<close> is blocked for eleven rounds, and the bitmap shows it from the
  round after its first arrival on; at the end of the eleventh round, not after ten, the handler
  runs once if it arrived at all, however often; after that every arrival is caught at once. While
  the handler of \<open>sigact.cc\<close> runs, the signals 2 to 6 only become pending and the process lives.\<close>

theorem signals_pending:
  assumes "length ks = 11" "\<forall>ns \<in> set seconds. set ns \<subseteq> {2, 3, 4, 5, 6}" "length seconds \<le> 100"
  shows "(\<forall>i \<le> 11. sp_out (pending_main (take i ks)) =
      map (\<lambda>j. Bits (int_bits (\<exists>k \<in> set (take j ks). 0 < k))) [0..<i] @
      (if i = 11 \<and> (\<exists>k \<in> set ks. 0 < k) then [Caught SIGINT] else [])) \<and>
    pending_main (ks @ later) = open_proc (sp_out (pending_main ks) @ open_out later) \<and>
    sp_alive (sigact_handler seconds p) = sp_alive p \<and>
    sp_pending (sigact_handler seconds p) n = (sp_pending p n \<or> (\<exists>ns \<in> set seconds. n \<in> set ns))"
proof -
  have out: "blocked_out b xs = map (\<lambda>j. Bits (int_bits (b \<or> (\<exists>k \<in> set (take j xs). 0 < k)))) [0..<length xs]" for b xs
    by (induction xs arbitrary: b) (simp_all add: upt_conv_Cons map_Suc_upt [symmetric] comp_def disj_assoc del: upt_Suc)
  have short: "sp_out (pending_main (take i ks)) = map (\<lambda>j. Bits (int_bits (\<exists>k \<in> set (take j ks). 0 < k))) [0..<i]"
    if "i \<le> 10" for i
  proof -
    have l: "length (take i ks) = i" using that assms(1) by simp
    have "map (\<lambda>j. Bits (int_bits (\<exists>k \<in> set (take j (take i ks)). 0 < k))) [0..<i] =
        map (\<lambda>j. Bits (int_bits (\<exists>k \<in> set (take j ks). 0 < k))) [0..<i]" by (simp add: min_def)
    with rounds_blocked [of 0 "take i ks" False "[]"] l that show ?thesis
      by (simp add: pending_main_def pending_init_waiting out waiting_def)
  qed
  obtain xs k where ks: "ks = xs @ [k]" "length xs = 10" using assms(1) by (cases ks rule: rev_cases) auto
  have run: "fold pending_round ks (0, waiting False []) =
      (11, open_proc (blocked_out False ks @ (if \<exists>k \<in> set ks. 0 < k then [Caught SIGINT] else [])))"
    using rounds_blocked [of 0 xs False "[]"] ks round_last [of k "\<exists>k \<in> set xs. 0 < k" "blocked_out False xs"]
    by (simp add: blocked_out_snoc disj_commute)
  then have full: "sp_out (pending_main ks) = map (\<lambda>j. Bits (int_bits (\<exists>k \<in> set (take j ks). 0 < k))) [0..<11] @
      (if \<exists>k \<in> set ks. 0 < k then [Caught SIGINT] else [])"
    by (simp add: pending_main_def pending_init_waiting open_proc_def out assms(1))
  have "pending_main (ks @ later) = open_proc (sp_out (pending_main ks) @ open_out later)"
  proof -
    obtain o1 where o1: "fold pending_round ks (0, waiting False []) = (11, open_proc o1)" using run by blast
    then have "sp_out (pending_main ks) = o1" by (simp add: pending_main_def pending_init_waiting open_proc_def)
    moreover have "pending_main (ks @ later) = snd (fold pending_round later (11, open_proc o1))"
      unfolding pending_main_def pending_init_waiting fold_append comp_def o1 ..
    ultimately show ?thesis using rounds_open [of 11 later o1] by simp
  qed
  moreover have "sp_out (pending_main (take i ks)) =
      map (\<lambda>j. Bits (int_bits (\<exists>k \<in> set (take j ks). 0 < k))) [0..<i] @
      (if i = 11 \<and> (\<exists>k \<in> set ks. 0 < k) then [Caught SIGINT] else [])" if "i \<le> 11" for i
  proof (cases "i = 11")
    case True
    have "take 11 ks = ks" using assms(1) by simp
    with full show ?thesis unfolding True by (simp only: simp_thms)
  next
    case False
    with that have "i \<le> 10" by simp
    from short [OF this] False show ?thesis by (simp only: simp_thms if_False append_Nil2)
  qed
  moreover have "sp_alive (fold handler_second seconds q) = sp_alive q \<and> sp_blocked (fold handler_second seconds q) = sp_blocked q \<and>
      sp_pending (fold handler_second seconds q) n = (sp_pending q n \<or> (\<exists>ns \<in> set seconds. n \<in> set ns))"
    if "sp_blocked q = sigact_mask" for q
    using assms(2) that
    by (induction seconds arbitrary: q) (simp_all add: handler_second_blocked disj_assoc)
  ultimately show ?thesis using assms(3) by (simp add: sigact_handler_def)
qed

lemma signals_pending_witness:
  "sp_out (pending_main (0 # 2 # replicate 9 0)) ! 11 = Caught SIGINT"
proof -
  let ?ks = "0 # 2 # replicate 9 (0 :: nat)"
  let ?f = "\<lambda>j. Bits (int_bits (\<exists>k \<in> set (take j ?ks). 0 < k))"
  have l: "length ?ks = 11" by simp
  have e: "\<forall>ns \<in> set []. set ns \<subseteq> {2, 3, 4, 5, 6 :: nat}" "length ([] :: nat list list) \<le> 100" by simp_all
  have "sp_out (pending_main (take 11 ?ks)) = map ?f [0..<11] @ (if (11 :: nat) = 11 \<and> (\<exists>k \<in> set ?ks. 0 < k) then [Caught SIGINT] else [])"
    using signals_pending [OF l e, THEN conjunct1] by blast
  moreover have "take 11 ?ks = ?ks" using l by (intro take_all) simp
  moreover have "\<exists>k \<in> set ?ks. 0 < k" by simp
  ultimately have "sp_out (pending_main ?ks) = map ?f [0..<11] @ [Caught SIGINT]" by (simp only: simp_thms if_True)
  moreover have "length (map ?f [0..<11]) = 11" by simp
  ultimately show ?thesis using nth_append_length [of "map ?f [0..<11]" "Caught SIGINT" "[]"] by (simp only:)
qed

end
