(* ===== verification/Drivers.thy ===== *)
theory Drivers
  imports BlockQueue RingQueue Calculator
begin

text \<open>
  The programs that put queue and task together: \<open>7.3/blockingQueue/cp.cc\<close>, three producers and three
  consumers around the blocking queue, and \<open>7.9/sem/main.cc\<close>, the same around the ring queue. The
  numbers of \<open>rand\<close> are arbitrary.
\<close>

section \<open>Producers and consumers\<close>

definition cp_task :: "nat \<Rightarrow> nat \<Rightarrow> nat \<Rightarrow> task" where
  "cp_task r1 r2 r3 =
     (let num1 = int (r1 mod 20) + 1; num2 = int (r2 mod 10) + 1; op = ''+-*/%'' ! (r3 mod 5)
      in Task_new num1 num2 op)"

definition sem_task :: "nat \<Rightarrow> nat \<Rightarrow> nat \<Rightarrow> task" where
  "sem_task r1 r2 r3 =
     (let num1 = int (r1 mod 100) + 1; num2 = int (r2 mod 100) + 1; op = ''+-*/%'' ! (r3 mod 5)
      in Task_new num1 num2 op)"

text \<open>What a consumer prints for a task it has taken.\<close>

definition cp_consumer :: "task \<Rightarrow> string outcome" where
  "cp_consumer t = bind_out (Task_call t) (\<lambda>t. Done (''consumer: '' @ Task_formatArgs t @ Task_formatResult t))"

definition sem_consumer :: "task \<Rightarrow> string outcome" where
  "sem_consumer t = bind_out (Task_call t) (\<lambda>t. Done (''consumer get : '' @ Task_formatArgs t @ Task_formatResult t))"

text \<open>Threads 0 to 2 are the consumers, 3 to 5 the producers.\<close>

inductive cp_step :: "task bqueue \<Rightarrow> task bqueue \<Rightarrow> bool" where
  cp_produce: "bq_pc s t = Bq_Idle \<Longrightarrow> 3 \<le> t \<Longrightarrow> t < 6 \<Longrightarrow> cp_step s (bq_goto t (BPush_Lock (cp_task r1 r2 r3)) s)"
| cp_consume: "bq_pc s t = Bq_Idle \<Longrightarrow> t < 3 \<Longrightarrow> cp_step s (bq_goto t BPop_Lock s)"
| cp_push: "bq_push_step t w (bq_pc s t) s = Done s' \<Longrightarrow> signal_ok wake_consumer w s \<Longrightarrow> cp_step s s'"
| cp_pop: "bq_pop_step t w (bq_pc s t) s = Done s' \<Longrightarrow> signal_ok wake_producer w s \<Longrightarrow> cp_step s s'"
| cp_spurious_c: "wake_consumer (bq_pc s t) = Some p \<Longrightarrow> cp_step s (bq_goto t p s)"
| cp_spurious_p: "wake_producer (bq_pc s t) = Some p \<Longrightarrow> cp_step s (bq_goto t p s)"

inductive sem_step :: "task ring \<Rightarrow> task ring \<Rightarrow> bool" where
  sem_produce: "rq_pc s t = Rq_Idle \<Longrightarrow> 3 \<le> t \<Longrightarrow> t < 6 \<Longrightarrow> sem_step s (rq_goto t (Push_P (sem_task r1 r2 r3)) s)"
| sem_consume: "rq_pc s t = Rq_Idle \<Longrightarrow> t < 3 \<Longrightarrow> sem_step s (rq_goto t Pop_P s)"
| sem_push: "push_step t (rq_pc s t) s = Done s' \<Longrightarrow> sem_step s s'"
| sem_pop: "pop_step t (rq_pc s t) s = Done s' \<Longrightarrow> sem_step s s'"

section \<open>What is on its way into the queue\<close>

fun bq_carries :: "'a bq_pc \<Rightarrow> 'a set" where
  "bq_carries (BPush_Lock v) = {v}" | "bq_carries (BPush_Check v) = {v}" | "bq_carries (BPush_Wait v) = {v}"
| "bq_carries (BPush_Relock v) = {v}" | "bq_carries (BPush_Enq v) = {v}" | "bq_carries _ = {}"

definition bq_hands :: "'a bqueue \<Rightarrow> 'a set" where
  "bq_hands s = (\<Union>t. bq_carries (bq_pc s t))"

fun rq_carries :: "'a rq_pc \<Rightarrow> 'a set" where
  "rq_carries (Push_P v) = {v}" | "rq_carries (Push_Lock v) = {v}" | "rq_carries (Push_Write v) = {v}" | "rq_carries _ = {}"

definition rq_hands :: "'a ring \<Rightarrow> 'a set" where
  "rq_hands s = (\<Union>t. rq_carries (rq_pc s t))"

lemma bq_hands_goto: "bq_hands (bq_goto t p s) \<subseteq> bq_hands s \<union> bq_carries p"
  by (auto simp: bq_hands_def bq_goto_def split: if_splits)

lemma rq_hands_goto: "rq_hands (rq_goto t p s) \<subseteq> rq_hands s \<union> rq_carries p"
  by (auto simp: rq_hands_def rq_goto_def split: if_splits)

lemma bq_carried: "bq_carries (bq_pc s t) \<subseteq> bq_hands s"
  by (auto simp: bq_hands_def)

lemma rq_carried: "rq_carries (rq_pc s t) \<subseteq> rq_hands s"
  by (auto simp: rq_hands_def)

lemma bq_hands_more [simp]:
  "bq_hands (s\<lparr>bq_mutex := m\<rparr>) = bq_hands s" "bq_hands (s\<lparr>bq_q := q\<rparr>) = bq_hands s"
  "bq_hands (s\<lparr>bq_pushed := x\<rparr>) = bq_hands s" "bq_hands (s\<lparr>bq_popped := x\<rparr>) = bq_hands s"
  by (simp_all add: bq_hands_def)

lemma rq_hands_more [simp]:
  "rq_hands (s\<lparr>rq_p_mtx := m\<rparr>) = rq_hands s" "rq_hands (s\<lparr>rq_c_mtx := m\<rparr>) = rq_hands s"
  "rq_hands (s\<lparr>rq_buf := b\<rparr>) = rq_hands s" "rq_hands (s\<lparr>rq_p_pos := i\<rparr>) = rq_hands s"
  "rq_hands (s\<lparr>rq_c_pos := i\<rparr>) = rq_hands s" "rq_hands (s\<lparr>rq_pushed := x\<rparr>) = rq_hands s"
  "rq_hands (s\<lparr>rq_popped := x\<rparr>) = rq_hands s" "rq_hands (s\<lparr>rq_data_sem := n\<rparr>) = rq_hands s"
  "rq_hands (s\<lparr>rq_space_sem := n\<rparr>) = rq_hands s"
  by (simp_all add: rq_hands_def)

lemma bq_hands_signal: "bq_hands (bq_signal wake_consumer w s) \<subseteq> bq_hands s" "bq_hands (bq_signal wake_producer w s) \<subseteq> bq_hands s"
  using bq_hands_goto [of w _ s] bq_carried [of s w]
  by (cases "bq_pc s w"; fastforce simp: bq_signal_def)+

lemma bq_pushed_frame:
  "bq_pushed (bq_goto t p s) = bq_pushed s" "bq_pushed (bq_signal woken w s) = bq_pushed s"
  by (simp_all add: bq_goto_def bq_signal_def split: option.splits)

lemma rq_pushed_frame: "rq_pushed (rq_goto t p s) = rq_pushed s"
  by (simp add: rq_goto_def)

lemmas hands_dests = subsetD [OF bq_hands_goto] subsetD [OF rq_hands_goto] subsetD [OF bq_hands_signal(1)] subsetD [OF bq_hands_signal(2)]

lemma bq_push_hands:
  assumes "bq_push_step t w (bq_pc s t) s = Done s'"
  shows "bq_hands s' \<union> set (bq_pushed s') \<subseteq> bq_hands s \<union> set (bq_pushed s)"
  using assms bq_carried [of s t]
  by (cases "bq_pc s t")
    (auto simp: bq_lock_def bq_pushed_frame split: if_splits dest!: hands_dests)

lemma bq_pop_hands:
  assumes "bq_pop_step t w (bq_pc s t) s = Done s'"
  shows "bq_hands s' \<union> set (bq_pushed s') \<subseteq> bq_hands s \<union> set (bq_pushed s)"
  using assms
  by (cases "bq_pc s t")
    (auto simp: bq_lock_def bq_pushed_frame split: if_splits list.splits dest!: hands_dests)

lemma rq_push_hands:
  assumes "push_step t (rq_pc s t) s = Done s'"
  shows "rq_hands s' \<union> set (rq_pushed s') \<subseteq> rq_hands s \<union> set (rq_pushed s)"
  using assms rq_carried [of s t]
  by (cases "rq_pc s t")
    (auto simp: rq_P_space_def rq_pushed_frame split: if_splits dest!: hands_dests)

lemma rq_pop_hands:
  assumes "pop_step t (rq_pc s t) s = Done s'"
  shows "rq_hands s' \<union> set (rq_pushed s') \<subseteq> rq_hands s \<union> set (rq_pushed s)"
  using assms
  by (cases "rq_pc s t")
    (auto simp: rq_P_data_def Let_def rq_pushed_frame split: if_splits dest!: hands_dests)

lemma woken_carries:
  "wake_consumer q = Some p \<Longrightarrow> bq_carries p = {}" "wake_producer q = Some p \<Longrightarrow> bq_carries p = bq_carries q"
  by (cases q; auto)+

definition cp_ok :: "task \<Rightarrow> bool" where
  "cp_ok t \<longleftrightarrow> (\<exists>r1 r2 r3. t = cp_task r1 r2 r3)"

definition sem_ok :: "task \<Rightarrow> bool" where
  "sem_ok t \<longleftrightarrow> (\<exists>r1 r2 r3. t = sem_task r1 r2 r3)"

lemma cp_step_bq: "cp_step s s' \<Longrightarrow> bq_step s s'"
  by (induction rule: cp_step.induct) (auto intro: bq_step.intros)

lemma sem_step_ring: "sem_step s s' \<Longrightarrow> ring_step s s'"
  by (induction rule: sem_step.induct) (auto intro: ring_step.intros)

lemma cp_step_hands:
  assumes "cp_step s s'" "v \<in> bq_hands s' \<union> set (bq_pushed s')"
  shows "v \<in> bq_hands s \<union> set (bq_pushed s) \<or> cp_ok v"
  using assms
proof (cases rule: cp_step.cases)
  case (cp_produce t r1 r2 r3)
  with assms(2) show ?thesis by (auto simp: bq_pushed_frame cp_ok_def dest!: hands_dests)
next
  case (cp_spurious_p t p)
  with assms(2) bq_carried [of s t] woken_carries(2) show ?thesis by (auto simp: bq_pushed_frame dest!: hands_dests)
next
  case (cp_consume t)
  with assms(2) show ?thesis by (auto simp: bq_pushed_frame dest!: hands_dests)
next
  case (cp_spurious_c t p)
  from woken_carries(1) [OF cp_spurious_c(2)] show ?thesis
    using assms(2) cp_spurious_c(1) by (auto simp: bq_pushed_frame dest!: hands_dests)
next
  case (cp_push t w)
  from bq_push_hands [OF this(1)] assms(2) show ?thesis by blast
next
  case (cp_pop t w)
  from bq_pop_hands [OF this(1)] assms(2) show ?thesis by blast
qed

lemma sem_step_hands:
  assumes "sem_step s s'" "v \<in> rq_hands s' \<union> set (rq_pushed s')"
  shows "v \<in> rq_hands s \<union> set (rq_pushed s) \<or> sem_ok v"
  using assms
proof (cases rule: sem_step.cases)
  case (sem_produce t r1 r2 r3)
  with assms(2) show ?thesis by (auto simp: rq_pushed_frame sem_ok_def dest!: hands_dests)
next
  case (sem_consume t)
  with assms(2) show ?thesis by (auto simp: rq_pushed_frame dest!: hands_dests)
next
  case (sem_push t)
  from rq_push_hands [OF this] assms(2) show ?thesis by blast
next
  case (sem_pop t)
  from rq_pop_hands [OF this] assms(2) show ?thesis by blast
qed

lemma bq_start_hands: "bq_start s \<Longrightarrow> bq_hands s = {} \<and> bq_pushed s = []"
  by (auto simp: bq_start_def BlockQueue_new_def bq_hands_def)

lemma ring_start_hands: "ring_start s \<Longrightarrow> rq_hands s = {} \<and> rq_pushed s = []"
  by (auto simp: ring_start_def RingQueue_new_def rq_hands_def)

interpretation cpf: fed_channel bq_step bq_start bq_inv bq_pushed bq_popped bq_q cp_step bq_hands cp_ok
  by unfold_locales (fact cp_step_bq cp_step_hands bq_start_hands)+

interpretation semf: fed_channel ring_step ring_start ring_inv rq_pushed rq_popped ring_contents sem_step rq_hands sem_ok
  by unfold_locales (fact sem_step_ring sem_step_hands ring_start_hands)+

section \<open>What the consumers print\<close>

text \<open>The plain meaning of an operator, for positive numbers.\<close>

definition plain_op :: "char \<Rightarrow> int \<Rightarrow> int \<Rightarrow> int" where
  "plain_op op x y = (if op = CHR ''+'' then x + y else if op = CHR ''-'' then x - y else if op = CHR ''*'' then x * y
     else if op = CHR ''/'' then x div y else x mod y)"

lemma nth_ops: "''+-*/%'' ! (r mod 5) \<in> set ''+-*/%''"
  by (rule nth_mem) simp

lemma Task_call_small:
  assumes "1 \<le> x" "x \<le> 100" "1 \<le> y" "y \<le> 100" "op \<in> set ''+-*/%''"
  shows "Task_call (Task_new x y op) = Done ((Task_new x y op)\<lparr>task_result := plain_op op x y\<rparr>)"
proof -
  have "x * y \<le> 100 * 100" using assms by (intro mult_mono) auto
  moreover have "0 \<le> x * y" using assms by simp
  ultimately have "- 2147483648 \<le> x * y \<and> x * y < 2147483648" by linarith
  moreover have "x sdiv y = x div y" "x smod y = x mod y" using assms by (simp_all add: signed_divide_int_def signed_modulo_int_def)
  moreover have "0 \<le> x div y" "x div y \<le> x" "0 \<le> x mod y" "x mod y < y"
    using assms zdiv_mono2 [of x 1 y] by (simp_all add: pos_imp_zdiv_nonneg_iff)
  ultimately show ?thesis
    using assms by (auto simp: Task_call_def Task_new_def plain_op_def checked_def int_div_def int_rem_def fits_int_def)
qed

definition task_line :: "int \<Rightarrow> char \<Rightarrow> int \<Rightarrow> string" where
  "task_line x op y = to_string x @ [op] @ to_string y @ ''='' @ to_string (plain_op op x y) @ '' (0)''"

lemma Task_lines:
  assumes "1 \<le> x" "x \<le> 100" "1 \<le> y" "y \<le> 100" "op \<in> set ''+-*/%''"
  shows "cp_consumer (Task_new x y op) = Done (''consumer: '' @ task_line x op y) \<and>
    sem_consumer (Task_new x y op) = Done (''consumer get : '' @ task_line x op y)"
proof -
  have z: "to_string 0 = ''0''" by code_simp
  show ?thesis unfolding cp_consumer_def sem_consumer_def Task_call_small [OF assms]
    by (simp add: Task_new_def Task_formatArgs_def Task_formatResult_def task_line_def z)
qed

text \<open>The programs with producers and consumers: under every interleaving and for every sequence of
  random numbers, each task a consumer takes has positive numbers in the range its producer draws
  from and one of the five operators, so that it never divides by zero or overflows, and the line
  printed shows its true result with exit code 0.\<close>

theorem drivers_compute:
  assumes "cp_step\<^sup>*\<^sup>* (BlockQueue_new 20) s" "t \<in> set (bq_popped s)"
    and "0 < n" "sem_step\<^sup>*\<^sup>* (RingQueue_new d n) r" "u \<in> set (rq_popped r)"
  shows "(\<exists>x y op. 1 \<le> x \<and> x \<le> 20 \<and> 1 \<le> y \<and> y \<le> 10 \<and> op \<in> set ''+-*/%'' \<and> t = Task_new x y op \<and>
      cp_consumer t = Done (''consumer: '' @ task_line x op y)) \<and>
    (\<exists>x y op. 1 \<le> x \<and> x \<le> 100 \<and> 1 \<le> y \<and> y \<le> 100 \<and> op \<in> set ''+-*/%'' \<and> u = Task_new x y op \<and>
      sem_consumer u = Done (''consumer get : '' @ task_line x op y))"
proof
  have "bq_start (BlockQueue_new 20)" by (auto simp: bq_start_def intro!: exI [of _ "20 :: nat"])
  then have "cp_ok t" using cpf.taken_ok assms(1,2) by blast
  then obtain r1 r2 r3 where t: "t = cp_task r1 r2 r3" by (auto simp: cp_ok_def)
  let ?x = "int (r1 mod 20) + 1" and ?y = "int (r2 mod 10) + 1" and ?op = "''+-*/%'' ! (r3 mod 5)"
  have r: "1 \<le> ?x" "?x \<le> 20" "1 \<le> ?y" "?y \<le> 10" by simp_all
  moreover have "t = Task_new ?x ?y ?op" by (simp add: t cp_task_def Let_def)
  moreover have "cp_consumer (Task_new ?x ?y ?op) = Done (''consumer: '' @ task_line ?x ?op ?y)"
    using Task_lines [of ?x ?y ?op] r nth_ops by simp
  ultimately show "\<exists>x y op. 1 \<le> x \<and> x \<le> 20 \<and> 1 \<le> y \<and> y \<le> 10 \<and> op \<in> set ''+-*/%'' \<and> t = Task_new x y op \<and>
      cp_consumer t = Done (''consumer: '' @ task_line x op y)" using nth_ops by metis
next
  have "ring_start (RingQueue_new d n)" using assms(3) by (auto simp: ring_start_def)
  then have "sem_ok u" using semf.taken_ok assms(4,5) by blast
  then obtain r1 r2 r3 where u: "u = sem_task r1 r2 r3" by (auto simp: sem_ok_def)
  let ?x = "int (r1 mod 100) + 1" and ?y = "int (r2 mod 100) + 1" and ?op = "''+-*/%'' ! (r3 mod 5)"
  have r: "1 \<le> ?x" "?x \<le> 100" "1 \<le> ?y" "?y \<le> 100" by simp_all
  moreover have "u = Task_new ?x ?y ?op" by (simp add: u sem_task_def Let_def)
  moreover have "sem_consumer (Task_new ?x ?y ?op) = Done (''consumer get : '' @ task_line ?x ?op ?y)"
    using Task_lines [of ?x ?y ?op] r nth_ops by simp
  ultimately show "\<exists>x y op. 1 \<le> x \<and> x \<le> 100 \<and> 1 \<le> y \<and> y \<le> 100 \<and> op \<in> set ''+-*/%'' \<and> u = Task_new x y op \<and>
      sem_consumer u = Done (''consumer get : '' @ task_line x op y)" using nth_ops by metis
qed

definition demo_task :: task where
  "demo_task = Task_new 1 1 CHR ''+''"

lemma demo_tasks: "cp_task 0 0 0 = demo_task" "sem_task 0 0 0 = demo_task"
  by (simp_all add: cp_task_def sem_task_def demo_task_def Let_def)

lemma cp_demo: "\<exists>s. cp_step\<^sup>*\<^sup>* (BlockQueue_new 20) s \<and> bq_popped s = [demo_task]"
proof -
  define s1 where "s1 = bq_goto 3 (BPush_Lock demo_task) (BlockQueue_new 20)"
  define s2 where "s2 = bq_goto 3 (BPush_Check demo_task) (s1\<lparr>bq_mutex := Some 3\<rparr>)"
  define s3 where "s3 = bq_goto 3 (BPush_Enq demo_task) s2"
  define s4 where "s4 = bq_goto 3 BPush_Signal (s3\<lparr>bq_q := [demo_task], bq_pushed := [demo_task]\<rparr>)"
  define s5 where "s5 = bq_goto 3 BPush_Unlock s4"
  define s6 where "s6 = bq_goto 3 Bq_Idle (s5\<lparr>bq_mutex := None\<rparr>)"
  define s7 where "s7 = bq_goto 0 BPop_Lock s6"
  define s8 where "s8 = bq_goto 0 BPop_Check (s7\<lparr>bq_mutex := Some 0\<rparr>)"
  define s9 where "s9 = bq_goto 0 BPop_Deq s8"
  define s10 where "s10 = bq_goto 0 (BPop_Signal demo_task) (s9\<lparr>bq_q := [], bq_popped := [demo_task]\<rparr>)"
  note d = s1_def s2_def s3_def s4_def s5_def s6_def s7_def s8_def s9_def s10_def bq_goto_def BlockQueue_new_def
  note e = d bq_lock_def bq_isFull_def bq_isEmpty_def bq_signal_def signal_ok_def
  have "cp_step (BlockQueue_new 20) s1"
    using cp_produce [of "BlockQueue_new 20" 3 0 0 0] by (simp add: demo_tasks s1_def BlockQueue_new_def)
  moreover have "cp_step s1 s2" by (rule cp_push [of 3 3]) (simp_all add: e)
  moreover have "cp_step s2 s3" by (rule cp_push [of 3 3]) (simp_all add: e)
  moreover have "cp_step s3 s4" by (rule cp_push [of 3 3]) (simp_all add: e)
  moreover have "cp_step s4 s5" by (rule cp_push [of 3 3]) (simp_all add: e)
  moreover have "cp_step s5 s6" by (rule cp_push [of 3 3]) (simp_all add: e)
  moreover have "cp_step s6 s7" unfolding s7_def by (rule cp_consume) (simp_all add: e)
  moreover have "cp_step s7 s8" by (rule cp_pop [of 0 0]) (simp_all add: e)
  moreover have "cp_step s8 s9" by (rule cp_pop [of 0 0]) (simp_all add: e)
  moreover have "cp_step s9 s10" by (rule cp_pop [of 0 0]) (simp_all add: e)
  ultimately have "cp_step\<^sup>*\<^sup>* (BlockQueue_new 20) s10"
    by (meson converse_rtranclp_into_rtranclp r_into_rtranclp)
  moreover have "bq_popped s10 = [demo_task]" by (simp add: d)
  ultimately show ?thesis by blast
qed

lemma sem_demo: "\<exists>s. sem_step\<^sup>*\<^sup>* (RingQueue_new demo_task 1) s \<and> rq_popped s = [demo_task]"
proof -
  define s1 where "s1 = rq_goto 3 (Push_P demo_task) (RingQueue_new demo_task 1)"
  define s2 where "s2 = rq_goto 3 (Push_Lock demo_task) (s1\<lparr>rq_space_sem := 0\<rparr>)"
  define s3 where "s3 = rq_goto 3 (Push_Write demo_task) (s2\<lparr>rq_p_mtx := Some 3\<rparr>)"
  define s4 where "s4 = rq_goto 3 Push_Mod (s3\<lparr>rq_buf := [demo_task], rq_p_pos := 1, rq_pushed := [demo_task]\<rparr>)"
  define s5 where "s5 = rq_goto 3 Push_Unlock (s4\<lparr>rq_p_pos := 0\<rparr>)"
  define s6 where "s6 = rq_goto 3 Push_V (s5\<lparr>rq_p_mtx := None\<rparr>)"
  define s7 where "s7 = rq_goto 3 Rq_Idle (s6\<lparr>rq_data_sem := 1\<rparr>)"
  define s8 where "s8 = rq_goto 0 Pop_P s7"
  define s9 where "s9 = rq_goto 0 Pop_Lock (s8\<lparr>rq_data_sem := 0\<rparr>)"
  define s10 where "s10 = rq_goto 0 Pop_Read (s9\<lparr>rq_c_mtx := Some 0\<rparr>)"
  define s11 where "s11 = rq_goto 0 (Pop_Mod demo_task) (s10\<lparr>rq_c_pos := 1, rq_popped := [demo_task]\<rparr>)"
  note d = s1_def s2_def s3_def s4_def s5_def s6_def s7_def s8_def s9_def s10_def s11_def rq_goto_def RingQueue_new_def
  note e = d rq_P_space_def rq_P_data_def
  have "sem_step (RingQueue_new demo_task 1) s1"
    using sem_produce [of "RingQueue_new demo_task 1" 3 0 0 0] by (simp add: demo_tasks s1_def RingQueue_new_def)
  moreover have "sem_step s1 s2" by (rule sem_push [of 3]) (simp add: e)
  moreover have "sem_step s2 s3" by (rule sem_push [of 3]) (simp add: e)
  moreover have "sem_step s3 s4" by (rule sem_push [of 3]) (simp add: e)
  moreover have "sem_step s4 s5" by (rule sem_push [of 3]) (simp add: e)
  moreover have "sem_step s5 s6" by (rule sem_push [of 3]) (simp add: e)
  moreover have "sem_step s6 s7" by (rule sem_push [of 3]) (simp add: e)
  moreover have "sem_step s7 s8" unfolding s8_def by (rule sem_consume) (simp_all add: e)
  moreover have "sem_step s8 s9" by (rule sem_pop [of 0]) (simp add: e)
  moreover have "sem_step s9 s10" by (rule sem_pop [of 0]) (simp add: e)
  moreover have "sem_step s10 s11" by (rule sem_pop [of 0]) (simp add: e)
  ultimately have "sem_step\<^sup>*\<^sup>* (RingQueue_new demo_task 1) s11"
    by (meson converse_rtranclp_into_rtranclp r_into_rtranclp)
  moreover have "rq_popped s11 = [demo_task]" by (simp add: d)
  ultimately show ?thesis by blast
qed

lemma drivers_compute_witness:
  "\<exists>x y op. cp_consumer demo_task = Done (''consumer: '' @ task_line x op y) \<and> demo_task = Task_new x y op"
proof -
  obtain s where s: "cp_step\<^sup>*\<^sup>* (BlockQueue_new 20) s" "demo_task \<in> set (bq_popped s)" using cp_demo by auto
  obtain r where r: "sem_step\<^sup>*\<^sup>* (RingQueue_new demo_task 1) r" "demo_task \<in> set (rq_popped r)" using sem_demo by auto
  show ?thesis using drivers_compute [OF s zero_less_one r] by blast
qed

end
