(* ===== verification/Log.thy ===== *)
theory Log
  imports CppString
begin

text \<open>
  The log of the servers (\<open>log.hpp\<close>): a line holds the level, the time, the process and a text
  formatted like \<open>printf\<close> does it. The version of 7.19 appends the line to a file, the later ones
  print it.
\<close>

section \<open>Formatting\<close>

text \<open>What \<open>snprintf\<close> leaves in an array of \<open>n\<close> bytes.\<close>

definition snprintf :: "nat \<Rightarrow> string \<Rightarrow> string" where
  "snprintf n s = take (n - 1) s"

datatype fmt_arg = AInt int | AStr string

text \<open>
  The directives \<open>%d\<close> and \<open>%s\<close>, the only ones the programs log with. An argument that is missing
  or of another type is undefined behaviour, like an unknown directive.
\<close>

fun vformat :: "string \<Rightarrow> fmt_arg list \<Rightarrow> string outcome" where
  "vformat [] args = Done []"
| "vformat (c # cs) args =
     (if c \<noteq> CHR ''%'' then map_outcome (Cons c) (vformat cs args)
      else (case cs of
          [] \<Rightarrow> Crash Uninitialised
        | d # cs' \<Rightarrow>
            (case args of
               [] \<Rightarrow> Crash Uninitialised
             | a # args' \<Rightarrow>
                 (case a of
                    AInt i \<Rightarrow> if d = CHR ''d'' then map_outcome ((@) (to_string (int32 i))) (vformat cs' args') else Crash Uninitialised
                  | AStr s \<Rightarrow> if d = CHR ''s'' then map_outcome ((@) (c_str s)) (vformat cs' args') else Crash Uninitialised))))"

section \<open>A line of the log\<close>

datatype LEVEL = Debug | Info | Warning | Error | Fatal | Unknown

primrec level_num :: "LEVEL \<Rightarrow> int" where
  "level_num Debug = 0" | "level_num Info = 1" | "level_num Warning = 2" | "level_num Error = 3"
| "level_num Fatal = 4" | "level_num Unknown = 5"

definition get_level :: "int \<Rightarrow> string" where
  "get_level level =
     (if level = 0 then ''Debug'' else if level = 1 then ''Info'' else if level = 2 then ''Warning''
      else if level = 3 then ''Error'' else if level = 4 then ''Fatal'' else ''Unknown'')"

record tm =
  tm_year :: int
  tm_mon :: int
  tm_mday :: int
  tm_hour :: int
  tm_min :: int
  tm_sec :: int

definition get_time :: "tm \<Rightarrow> string" where
  "get_time s_tm = snprintf 128
     (to_string (tm_year s_tm + 1900) @ ''-'' @ to_string (tm_mon s_tm + 1) @ ''-'' @ to_string (tm_mday s_tm) @ '' '' @
      to_string (tm_hour s_tm) @ '':'' @ to_string (tm_min s_tm) @ '':'' @ to_string (tm_sec s_tm))"

definition newline :: char where "newline = CHR 0x0A"

definition logleft :: "int \<Rightarrow> tm \<Rightarrow> int \<Rightarrow> string" where
  "logleft level now pid =
     snprintf 1024 (''['' @ get_level level @ ''][''  @ get_time now @ ''][''  @ to_string (int32 pid) @ '']'')"

definition log_line :: "int \<Rightarrow> tm \<Rightarrow> int \<Rightarrow> string \<Rightarrow> string" where
  "log_line level now pid message = logleft level now pid @ snprintf 1024 message @ [newline]"

text \<open>\<open>logMessage\<close> of the later servers, which prints, and of 7.19; \<open>opened\<close>: whether \<open>fopen\<close> succeeds.\<close>

definition logMessage :: "tm \<Rightarrow> int \<Rightarrow> int \<Rightarrow> string \<Rightarrow> fmt_arg list \<Rightarrow> string \<Rightarrow> string outcome" where
  "logMessage now pid level format args printed =
     bind_out (vformat format args) (\<lambda>message. Done (printed @ log_line level now pid message))"

definition logMessage_file :: "tm \<Rightarrow> int \<Rightarrow> bool \<Rightarrow> int \<Rightarrow> string \<Rightarrow> fmt_arg list \<Rightarrow> string \<Rightarrow> string outcome" where
  "logMessage_file now pid opened level format args file =
     bind_out (vformat format args) (\<lambda>message. Done (if opened then file @ log_line level now pid message else file))"

section \<open>Reading a log\<close>

fun split_lines :: "string \<Rightarrow> string \<Rightarrow> string list" where
  "split_lines cur [] = (if cur = [] then [] else [cur])"
| "split_lines cur (c # cs) = (if c = newline then cur # split_lines [] cs else split_lines (cur @ [c]) cs)"

definition upto_bracket :: "string \<Rightarrow> string \<times> string" where
  "upto_bracket s = (takeWhile (\<lambda>c. c \<noteq> CHR '']'') (drop 1 s), drop 1 (dropWhile (\<lambda>c. c \<noteq> CHR '']'') s))"

text \<open>Level, time, process and text of a line.\<close>

definition read_entry :: "string \<Rightarrow> string \<times> string \<times> string \<times> string" where
  "read_entry line =
     (case upto_bracket line of (level, s1) \<Rightarrow>
      case upto_bracket s1 of (now, s2) \<Rightarrow>
      case upto_bracket s2 of (pid, message) \<Rightarrow> (level, now, pid, message))"

definition read_log :: "string \<Rightarrow> (string \<times> string \<times> string \<times> string) list" where
  "read_log file = map read_entry (split_lines [] file)"

definition plain_char :: "char \<Rightarrow> bool" where
  "plain_char c \<longleftrightarrow> c \<noteq> CHR '']'' \<and> c \<noteq> newline"

lemma to_string_plain: "c \<in> set (to_string i) \<Longrightarrow> plain_char c"
  using digits_of_digits [of c "nat i"] digits_of_digits [of c "nat (- i)"]
  by (auto simp: to_string_def plain_char_def newline_def is_digit_def split: if_splits)

lemma get_level_plain: "c \<in> set (get_level l) \<Longrightarrow> plain_char c" "length (get_level l) \<le> 7"
  by (auto simp: get_level_def plain_char_def newline_def split: if_splits)

lemma get_time_plain: "c \<in> set (get_time now) \<Longrightarrow> plain_char c" "length (get_time now) \<le> 127"
proof -
  have "plain_char c" if "c \<in> set (get_time now)"
  proof -
    have "c \<in> {CHR ''-'', CHR '' '', CHR '':''} \<or> (\<exists>i. c \<in> set (to_string i))"
      using that by (auto simp: get_time_def snprintf_def dest!: in_set_takeD)
    moreover have "plain_char (CHR ''-'')" "plain_char (CHR '' '')" "plain_char (CHR '':'')" by (simp_all add: plain_char_def newline_def)
    ultimately show ?thesis using to_string_plain by blast
  qed
  then show "c \<in> set (get_time now) \<Longrightarrow> plain_char c" .
qed (simp add: get_time_def snprintf_def)

lemma digits_of_length: "n < 10 ^ Suc k \<Longrightarrow> length (digits_of n) \<le> Suc k"
proof (induction k arbitrary: n)
  case (Suc k)
  show ?case
  proof (cases "n < 10")
    case False
    have "n div 10 < 10 ^ Suc k" using Suc.prems by (simp add: div_less_iff_less_mult mult.commute)
    from Suc.IH [OF this] show ?thesis using False by (simp add: digits_of.simps [of n])
  qed (simp add: digits_of.simps [of n])
qed (simp add: digits_of.simps)

lemma to_string_int32_length: "length (to_string (int32 i)) \<le> 11"
proof -
  have "fits_int (int32 i)" by simp
  then have "nat (int32 i) < 10 ^ Suc 9" "nat (- int32 i) < 10 ^ Suc 9" unfolding fits_int_def by simp_all arith+
  from this [THEN digits_of_length] show ?thesis by (auto simp: to_string_def)
qed

text \<open>The left part is never cut.\<close>

lemma logleft_full:
  "logleft l now pid = ''['' @ get_level l @ ''][''  @ get_time now @ ''][''  @ to_string (int32 pid) @ '']''"
  using get_level_plain(2) [of l] get_time_plain(2) [of now] to_string_int32_length [of pid]
  by (simp add: logleft_def snprintf_def)

lemma upto_bracket_field:
  "\<forall>c \<in> set s. plain_char c \<Longrightarrow> upto_bracket (''['' @ s @ '']'' @ t) = (s, t)"
proof -
  assume "\<forall>c \<in> set s. plain_char c"
  then have "\<forall>c \<in> set s. c \<noteq> CHR '']''" by (simp add: plain_char_def)
  then show ?thesis by (simp add: upto_bracket_def takeWhile_append2 dropWhile_append2)
qed

lemma read_entry_left: "read_entry (logleft l now pid @ t) = (get_level l, get_time now, to_string (int32 pid), t)"
  using upto_bracket_field [of "get_level l"] upto_bracket_field [of "get_time now"]
    upto_bracket_field [of "to_string (int32 pid)" t] get_level_plain(1) get_time_plain(1) to_string_plain
  by (simp add: logleft_full read_entry_def)

lemma logleft_no_newline: "newline \<notin> set (logleft l now pid)"
  using get_level_plain(1) [of newline l] get_time_plain(1) [of newline now] to_string_plain [of newline "int32 pid"]
  by (auto simp: logleft_full plain_char_def newline_def)

lemma split_lines_one: "newline \<notin> set s \<Longrightarrow> split_lines cur (s @ newline # t) = (cur @ s) # split_lines [] t"
  by (induction s arbitrary: cur) auto

lemma read_log_line:
  "newline \<notin> set m \<Longrightarrow> read_log (logleft l now pid @ m @ newline # t) =
     (get_level l, get_time now, to_string (int32 pid), m) # read_log t"
  using split_lines_one [of "logleft l now pid @ m" "[]" t]
  by (simp add: read_log_def logleft_no_newline read_entry_left)

text \<open>C32. The log can be read back: from a file of lines whose texts hold no newline, splitting at newlines
  and brackets gives the level, time, process and text (its first 1023 bytes) of every entry, in order,
  for every length and value of them. With a newline in its text, an entry reads as
  two: a client whose text is logged can forge any entry.\<close>

theorem log_readback:
  assumes "list_all (\<lambda>(l, now, pid, m). newline \<notin> set m) entries"
  shows "read_log (concat (map (\<lambda>(l, now, pid, m). log_line l now pid m) entries)) =
      map (\<lambda>(l, now, pid, m). (get_level l, get_time now, to_string (int32 pid), take 1023 m)) entries \<and>
    (newline \<notin> set a \<longrightarrow> newline \<notin> set b \<longrightarrow> length a + length b \<le> 800 \<longrightarrow>
     read_log (log_line l now pid (a @ [newline] @ logleft l' now' pid' @ b)) =
      [(get_level l, get_time now, to_string (int32 pid), a), (get_level l', get_time now', to_string (int32 pid'), b)])"
proof
  show "read_log (concat (map (\<lambda>(l, now, pid, m). log_line l now pid m) entries)) =
      map (\<lambda>(l, now, pid, m). (get_level l, get_time now, to_string (int32 pid), take 1023 m)) entries"
    using assms
  proof (induction entries)
    case (Cons e entries)
    obtain l now pid m where e: "e = (l, now, pid, m)" by (cases e)
    have "newline \<notin> set (take 1023 m)" using Cons.prems e by (auto dest: in_set_takeD)
    with Cons show ?case by (simp add: e log_line_def snprintf_def read_log_line)
  qed (simp add: read_log_def)
  have "length (logleft l' now' pid') \<le> 200"
    using get_level_plain(2) [of l'] get_time_plain(2) [of now'] to_string_int32_length [of pid'] by (simp add: logleft_full)
  then show "newline \<notin> set a \<longrightarrow> newline \<notin> set b \<longrightarrow> length a + length b \<le> 800 \<longrightarrow>
     read_log (log_line l now pid (a @ [newline] @ logleft l' now' pid' @ b)) =
      [(get_level l, get_time now, to_string (int32 pid), a), (get_level l', get_time now', to_string (int32 pid'), b)]"
    using read_log_line [of a l now pid] read_log_line [of b l' now' pid' "[]"]
    by (simp add: log_line_def snprintf_def) (simp add: read_log_def)
qed

lemma log_readback_witness:
  "read_log (log_line 1 \<lparr>tm_year = 123, tm_mon = 6, tm_mday = 19, tm_hour = 9, tm_min = 5, tm_sec = 7\<rparr> 42 ''accept success'') =
    [(''Info'', ''2023-7-19 9:5:7'', ''42'', ''accept success'')]"
proof -
  let ?now = "\<lparr>tm_year = 123, tm_mon = 6, tm_mday = 19, tm_hour = 9, tm_min = 5, tm_sec = 7\<rparr> :: tm"
  have h: "list_all (\<lambda>(l, now, pid, m). newline \<notin> set m) [(1 :: int, ?now, 42 :: int, ''accept success'')]"
    by (simp add: newline_def)
  have e: "get_level 1 = ''Info''" "get_time ?now = ''2023-7-19 9:5:7''" "to_string (int32 42) = ''42''" by code_simp+
  from log_readback [OF h, THEN conjunct1] show ?thesis by (simp add: e)
qed

end
