(* ===== verification/PoolServer.thy ===== *)
theory PoolServer
  imports Log ThreadPool Tcp
begin

text \<open>
  The server of \<open>7.19/tcp_socket\<close> as a whole: the main thread accepts connections and pushes
  each as a task into the thread pool, whose twenty workers serve them, and everything is logged.
  The pool is the one of theory \<open>ThreadPool\<close>, at the type of the server's tasks.
\<close>

section \<open>Service and set-up with their log\<close>

type_synonym log = "(int \<times> string) list"

definition log_to :: "LEVEL \<Rightarrow> string \<Rightarrow> fmt_arg list \<Rightarrow> log \<Rightarrow> log outcome" where
  "log_to level format args logged = bind_out (vformat format args) (\<lambda>m. Done (logged @ [(level_num level, m)]))"

function service_19 ::
  "(string \<Rightarrow> string outcome) \<Rightarrow> int \<Rightarrow> string \<Rightarrow> int \<Rightarrow> kernel \<times> log \<Rightarrow> (kernel \<times> log) outcome" where
  "service_19 func sock client_ip client_port (k, logged) =
     (let client = client_ip @ '':'' @ to_string client_port
      in bind_out (k_recv sock k) (\<lambda>(call, k1). case call of (old, r) \<Rightarrow>
       (case r of
          RData data \<Rightarrow>
            (if data = [] then bind_out (log_to Info ''%s quit'' [AStr client] logged) (\<lambda>l. Done (k_close sock k1, l))
             else bind_out (bind_out (buf_set (recv_into old data) (int (length data)) NUL) c_string) (\<lambda>str.
                  bind_out (func str) (\<lambda>res.
                  bind_out (log_to Info ''%s : %s'' [AStr client, AStr res] logged) (\<lambda>l.
                  bind_out (k_send sock res k1) (\<lambda>k2. service_19 func sock client_ip client_port (k2, l))))))
        | REof \<Rightarrow> bind_out (log_to Info ''%s quit'' [AStr client] logged) (\<lambda>l. Done (k_close sock k1, l))
        | RErr e \<Rightarrow> bind_out (log_to Error ''read error'' [] logged) (\<lambda>l. Done (k_close sock k1, l)))))"
  by pat_completeness auto
termination
  by (relation "measure (\<lambda>(func, sock, ip, port, k, l). length (k_recvs k sock))")
     (auto simp: k_recv_iff dest!: k_send_recvs)

declare service_19.simps [simp del]

text \<open>\<open>server_init\<close>; the log of a run that ends in \<open>exit\<close> is left out.\<close>

definition server_init_19 :: "int \<Rightarrow> kernel \<Rightarrow> (tcp_pool_server \<times> log) outcome" where
  "server_init_19 port k =
     bind_out (sock_Socket sock_new k) (\<lambda>(so, k1).
     bind_out (sock_Bind port so k1) (\<lambda>k2.
     bind_out (log_to Fatal ''socket bind success'' [] []) (\<lambda>l.
     bind_out (sock_Listen so k2) (\<lambda>k3.
     bind_out (log_to Debug ''all success'' [] l) (\<lambda>l.
       Done (\<lparr>tps_listen_sock = so, tps_tasks = [], tps_kern = k3\<rparr>, l))))))"

lemma service_logs:
  "vformat ''%s quit'' [AStr c] = Done (c_str c @ '' quit'')"
  "vformat ''%s : %s'' [AStr c, AStr r] = Done (c_str c @ '' : '' @ c_str r)"
  "vformat ''read error'' [] = Done ''read error''"
  by simp_all

lemma service_19_kernel:
  "map_outcome fst (service_19 func sock ip port (k, l)) = tcp_service func sock k"
proof (induction func sock ip port "(k, l)" arbitrary: k l rule: service_19.induct)
  case (1 func sock ip port k l)
  show ?case
  proof (cases "k_recv sock k")
    case (Done x)
    obtain old r k1 where x: "x = ((old, r), k1)" by (metis surj_pair)
    show ?thesis
    proof (cases "\<exists>data. r = RData data \<and> data \<noteq> []")
      case False
      with Done x show ?thesis
        by (cases r) (simp_all add: service_19.simps [of _ _ _ _ k] tcp_service.simps [of _ _ k] log_to_def service_logs)
    next
      case True
      then obtain data where r: "r = RData data" "data \<noteq> []" by blast
      show ?thesis
      proof (cases "bind_out (buf_set (recv_into old data) (int (length data)) NUL) c_string")
        case str: (Done str)
        show ?thesis
        proof (cases "func str")
          case res: (Done res)
          show ?thesis
          proof (cases "k_send sock res k1")
            case k2: (Done k2)
            let ?c = "ip @ '':'' @ to_string port"
            have lg: "log_to Info ''%s : %s'' [AStr ?c, AStr res] l = Done (l @ [(level_num Info, c_str ?c @ '' : '' @ c_str res)])"
              by (simp add: log_to_def service_logs)
            have "map_outcome fst (service_19 func sock ip port (k2, l @ [(level_num Info, c_str ?c @ '' : '' @ c_str res)])) =
                tcp_service func sock k2"
              by (rule 1 [OF refl Done x [symmetric] refl r str res lg k2])
            with Done x r str res k2 show ?thesis
              by (simp add: service_19.simps [of _ _ _ _ k] tcp_service.simps [of _ _ k] log_to_def service_logs del: bind_out_Done_iff)
          qed (use Done x r str res in \<open>simp_all add: service_19.simps [of _ _ _ _ k] tcp_service.simps [of _ _ k] log_to_def service_logs del: bind_out_Done_iff\<close>)
        qed (use Done x r str in \<open>simp_all add: service_19.simps [of _ _ _ _ k] tcp_service.simps [of _ _ k] del: bind_out_Done_iff\<close>)
      qed (use Done x r in \<open>simp_all add: service_19.simps [of _ _ _ _ k] tcp_service.simps [of _ _ k] del: bind_out_Done_iff\<close>)
    qed
  qed (simp_all add: service_19.simps [of _ _ _ _ k] tcp_service.simps [of _ _ k])
qed

text \<open>The client's address as the log shows it, and what a session logs.\<close>

definition client_name :: "string \<Rightarrow> int \<Rightarrow> string" where
  "client_name ip port = c_str (ip @ '':'' @ to_string port)"

definition reply_entry :: "string \<Rightarrow> int \<Rightarrow> (string \<Rightarrow> string) \<Rightarrow> string \<times> string \<Rightarrow> int \<times> string" where
  "reply_entry ip port f = (\<lambda>(old, d). (1, client_name ip port @ '' : '' @ c_str (f (c_str d))))"

lemma service_19_data:
  assumes "k_recvs k sock = (old, RData d) # rest" "chunk_ok (old, d)" "func (c_str d) = Done res"
    and "k_sends k sock = SRet n e # ss"
  shows "\<exists>k'. service_19 func sock ip port (k, l) =
      service_19 func sock ip port (k', l @ [(1, client_name ip port @ '' : '' @ c_str res)]) \<and>
    k_recvs k' sock = rest \<and> k_sends k' sock = ss"
proof -
  let ?k1 = "k\<lparr>k_recvs := (k_recvs k)(sock := rest)\<rparr>"
  have l: "length d < length old" "d \<noteq> []" using assms(2) by (simp_all add: chunk_ok_def)
  obtain k2 where k2: "k_send sock res ?k1 = Done k2" "k_recvs k2 sock = rest" "k_sends k2 sock = ss"
    using assms(4) by (simp add: k_send_def)
  have "service_19 func sock ip port (k, l) =
      service_19 func sock ip port (k2, l @ [(1, client_name ip port @ '' : '' @ c_str res)])"
    using assms(1,3) l terminated_recv_c_string [OF l(1)] k2(1)
    by (simp add: service_19.simps [of func sock ip port k] k_recv_def log_to_def client_name_def del: bind_out_Done_iff)
  with k2 show ?thesis by blast
qed

lemma service_19_logged:
  assumes "list_all chunk_ok cs" "k_recvs k sock = data_calls cs @ (old, r) # rest" "length cs \<le> length (k_sends k sock)"
    and "list_all (\<lambda>(old, d). func (c_str d) = Done (f (c_str d))) cs" "r = REof \<or> r = RErr e"
  shows "\<exists>k'. service_19 func sock ip port (k, l) = Done (k', l @ map (reply_entry ip port f) cs @
    [if r = REof then (1, client_name ip port @ '' quit'') else (3, ''read error'')])"
  using assms
proof (induction cs arbitrary: k l)
  case Nil
  then show ?case
    by (auto simp: service_19.simps [of _ _ _ _ k] k_recv_def data_calls_def log_to_def client_name_def)
next
  case (Cons c cs)
  obtain old' d where c: "c = (old', d)" by (cases c)
  obtain n e' ss where ss: "k_sends k sock = SRet n e' # ss"
    using Cons.prems(3) by (cases "k_sends k sock") (simp, metis send_res.exhaust)
  have "k_recvs k sock = (old', RData d) # (data_calls cs @ (old, r) # rest)" "chunk_ok (old', d)" "func (c_str d) = Done (f (c_str d))"
    using Cons.prems c by (simp_all add: data_calls_def)
  from service_19_data [where func = func and res = "f (c_str d)", OF this ss] obtain k' where k': "service_19 func sock ip port (k, l) =
      service_19 func sock ip port (k', l @ [(1, client_name ip port @ '' : '' @ c_str (f (c_str d)))])"
    "k_recvs k' sock = data_calls cs @ (old, r) # rest" "k_sends k' sock = ss" by blast
  have "list_all chunk_ok cs" "length cs \<le> length (k_sends k' sock)" "list_all (\<lambda>(old, d). func (c_str d) = Done (f (c_str d))) cs"
    using Cons.prems k'(3) ss by simp_all
  from Cons.IH [OF this(1) k'(2) this(2,3) Cons.prems(5), of "l @ [(1, client_name ip port @ '' : '' @ c_str (f (c_str d)))]"]
  show ?case unfolding k'(1) by (simp add: c reply_entry_def)
qed

section \<open>The server and its pool\<close>

definition POOL_NUM :: nat where "POOL_NUM = 20"

text \<open>The main thread is the first client of the pool.\<close>

definition main_thread :: nat where "main_thread = 20"

datatype srv_pc = Srv_Accept | Srv_Get tcp_task | Srv_Push tcp_task

record pool_server =
  ps_srv :: tcp_pool_server
  ps_pool :: "tcp_task pool"
  ps_main :: srv_pc

definition pool_server_start :: "tcp_pool_server \<Rightarrow> pool_server" where
  "pool_server_start srv = \<lparr>ps_srv = srv, ps_pool = pool_initial POOL_NUM, ps_main = Srv_Accept\<rparr>"

definition main_free :: "pool_server \<Rightarrow> bool" where
  "main_free s \<longleftrightarrow> tp_pc (ps_pool s) main_thread = Tp_Idle \<or> tp_pc (ps_pool s) main_thread = Tp_Has"

text \<open>After \<open>accept\<close>: a new connection became the last task.\<close>

definition after_accept :: "pool_server \<Rightarrow> tcp_pool_server \<Rightarrow> pool_server" where
  "after_accept s srv =
     s\<lparr>ps_srv := srv, ps_main := (if length (tps_tasks srv) = length (tps_tasks (ps_srv s)) then Srv_Accept
        else Srv_Get (last (tps_tasks srv)))\<rparr>"

inductive pserver_step :: "pool_server \<Rightarrow> pool_server \<Rightarrow> bool" where
  srv_accept: "ps_main s = Srv_Accept \<Longrightarrow> main_free s \<Longrightarrow> tcp_pool_accept tcp_handle len (ps_srv s) = Done srv \<Longrightarrow>
     pserver_step s (after_accept s srv)"
| srv_get: "ps_main s = Srv_Get t \<Longrightarrow> main_free s \<Longrightarrow>
     pserver_step s (s\<lparr>ps_pool := tp_goto main_thread Gi_Check (ps_pool s), ps_main := Srv_Push t\<rparr>)"
| srv_push: "ps_main s = Srv_Push t \<Longrightarrow> tp_pc (ps_pool s) main_thread = Tp_Has \<Longrightarrow>
     pserver_step s (s\<lparr>ps_pool := tp_goto main_thread (Pt_Lock t) (ps_pool s), ps_main := Srv_Accept\<rparr>)"
| in_get: "instance_step t (tp_pc (ps_pool s) t) (ps_pool s) = Done p \<Longrightarrow> pserver_step s (s\<lparr>ps_pool := p\<rparr>)"
| in_push: "pushTask_step t w (tp_pc (ps_pool s) t) (ps_pool s) = Done p \<Longrightarrow> wakeup_ok w (ps_pool s) \<Longrightarrow>
     pserver_step s (s\<lparr>ps_pool := p\<rparr>)"
| in_worker: "worker_step t (tp_pc (ps_pool s) t) (ps_pool s) = Done p \<Longrightarrow> (\<forall>v. tp_pc (ps_pool s) t \<noteq> W_Run v) \<Longrightarrow>
     pserver_step s (s\<lparr>ps_pool := p\<rparr>)"
| run_task: "tp_pc (ps_pool s) t = W_Run v \<Longrightarrow> worker_step t (W_Run v) (ps_pool s) = Done p \<Longrightarrow>
     tcp_task_call v (tps_kern (ps_srv s)) = Done k \<Longrightarrow>
     pserver_step s (s\<lparr>ps_pool := p, ps_srv := (ps_srv s)\<lparr>tps_kern := k\<rparr>\<rparr>)"
| in_spurious: "tp_pc (ps_pool s) t = W_Wait \<Longrightarrow> pserver_step s (s\<lparr>ps_pool := tp_goto t W_Relock (ps_pool s)\<rparr>)"

text \<open>The pool part of a run is a run of the pool.\<close>

lemma pserver_pool: "pserver_step s s' \<Longrightarrow> ps_pool s' = ps_pool s \<or> pool_step (ps_pool s) (ps_pool s')"
proof (induction rule: pserver_step.induct)
  case (run_task s t v p k)
  then show ?case using pool_run_worker [of t "ps_pool s" p] by simp
qed (auto simp: after_accept_def main_free_def intro: pool_step.intros)

lemma pserver_reach_pool: "pserver_step\<^sup>*\<^sup>* s s' \<Longrightarrow> pool_step\<^sup>*\<^sup>* (ps_pool s) (ps_pool s')"
  by (induction rule: rtranclp_induct) (auto dest!: pserver_pool intro: rtranclp.rtrancl_into_rtrancl)

section \<open>The clients\<close>

text \<open>
  What a client does on a connection: the messages it sends, as the service receives them, and how it leaves.
  \<open>clients fd\<close> are the connections that get the descriptor \<open>fd\<close>, one after the other.
\<close>

type_synonym session = "(string \<times> string) list \<times> recv_call"

definition session_ok :: "session \<Rightarrow> bool" where
  "session_ok = (\<lambda>(cs, old, r). list_all chunk_ok cs \<and> (r = REof \<or> (\<exists>e. r = RErr e)))"

definition session_calls :: "session \<Rightarrow> recv_call list" where
  "session_calls = (\<lambda>(cs, call). data_calls cs @ [call])"

definition echoed :: "session \<Rightarrow> string" where
  "echoed = (\<lambda>(cs, call). concat (map snd cs))"

definition messages :: "session list \<Rightarrow> nat" where
  "messages ss = (\<Sum>(cs, call) \<leftarrow> ss. length cs)"

text \<open>The state of descriptor \<open>fd\<close> when \<open>n\<close> of its connections have been served.\<close>

definition stream_ok :: "(int \<Rightarrow> session list) \<Rightarrow> kernel \<Rightarrow> kernel \<Rightarrow> int \<Rightarrow> nat \<Rightarrow> bool" where
  "stream_ok clients k0 k fd n \<longleftrightarrow> n \<le> length (clients fd) \<and>
     k_recvs k fd = concat (map session_calls (drop n (clients fd))) \<and>
     k_sent k fd = k_sent k0 fd @ concat (map echoed (take n (clients fd))) \<and>
     list_all takes_all (k_sends k fd) \<and> messages (drop n (clients fd)) \<le> length (k_sends k fd)"

definition echo_task :: "tcp_task \<Rightarrow> bool" where
  "echo_task v \<longleftrightarrow> tt_callback v = (\<lambda>sock client_ip client_port. tcp_service tcp_handle sock)"

lemma stream_frame:
  assumes "stream_ok clients k0 k fd n" "k_recvs k' fd = k_recvs k fd" "k_sends k' fd = k_sends k fd" "k_sent k' fd = k_sent k fd"
  shows "stream_ok clients k0 k' fd n"
  using assms by (simp add: stream_ok_def)

lemma concat_chunks: "list_all chunk_ok cs \<Longrightarrow> concat (map (\<lambda>(old, d). id (c_str d)) cs) = concat (map snd cs)"
  by (induction cs) (auto simp: chunk_ok_def c_str_id)

lemma echo_chunks:
  "list_all chunk_ok cs \<Longrightarrow> list_all (\<lambda>(old, d). tcp_handle (c_str d) = Done (id (c_str d)) \<and> length (id (c_str d)) \<le> 2 ^ 31) cs"
  by (induction cs) (auto simp: chunk_ok_def c_str_id tcp_handle_def)

text \<open>A task serves the next connection of its descriptor, and closes it.\<close>

lemma task_serves:
  assumes "stream_ok clients k0 k (tt_sock v) n" "echo_task v" "list_all session_ok (clients (tt_sock v))" "n < length (clients (tt_sock v))"
  shows "\<exists>k'. tcp_task_call v k = Done k' \<and> stream_ok clients k0 k' (tt_sock v) (Suc n) \<and>
    k_open k' = removeAll (tt_sock v) (k_open k) \<and>
    (\<forall>g. g \<noteq> tt_sock v \<longrightarrow> k_recvs k' g = k_recvs k g \<and> k_sends k' g = k_sends k g \<and> k_sent k' g = k_sent k g)"
proof -
  let ?fd = "tt_sock v"
  obtain cs old r where ss: "clients ?fd ! n = (cs, old, r)" by (metis surj_pair)
  have "session_ok (clients ?fd ! n)" using assms(3,4) by (simp add: list_all_length)
  then have ok: "list_all chunk_ok cs" "r = REof \<or> (\<exists>e. r = RErr e)" by (auto simp: session_ok_def ss)
  let ?rest = "concat (map session_calls (drop (Suc n) (clients ?fd)))"
  have dr: "drop n (clients ?fd) = (cs, old, r) # drop (Suc n) (clients ?fd)"
    using Cons_nth_drop_Suc [OF assms(4)] ss by simp
  have st: "k_recvs k ?fd = data_calls cs @ (old, r) # ?rest" "list_all takes_all (k_sends k ?fd)"
    "length cs + messages (drop (Suc n) (clients ?fd)) \<le> length (k_sends k ?fd)"
    "k_sent k ?fd = k_sent k0 ?fd @ concat (map echoed (take n (clients ?fd)))"
    using assms(1) unfolding stream_ok_def dr by (simp_all add: session_calls_def messages_def)
  have len: "length cs \<le> length (k_sends k ?fd)" using st(3) by simp
  from tcp_service_all [OF ok(1) st(1,2) len echo_chunks [OF ok(1)]] obtain k1 where
    k1: "tcp_service tcp_handle ?fd k = tcp_service tcp_handle ?fd k1" "k_recvs k1 ?fd = (old, r) # ?rest"
      "other_fds_same ?fd k k1" "k_sent k1 ?fd = k_sent k ?fd @ concat (map snd cs)" "k_sends k1 ?fd = drop (length cs) (k_sends k ?fd)"
    unfolding concat_chunks [OF ok(1)] by blast
  let ?k' = "k_close ?fd (k1\<lparr>k_recvs := (k_recvs k1)(?fd := ?rest)\<rparr>)"
  have "tcp_task_call v k = Done ?k'"
    using assms(2) ok(2) k1(1,2)
    by (auto simp: tcp_task_call_def echo_task_def tcp_service.simps [of tcp_handle ?fd k1] k_recv_def)
  moreover have "k_open ?k' = removeAll ?fd (k_open k)" using k1(3) by (simp add: k_close_def other_fds_same_def)
  moreover have "take (Suc n) (clients ?fd) = take n (clients ?fd) @ [(cs, old, r)]"
    using take_Suc_conv_app_nth [OF assms(4)] ss by simp
  then have "stream_ok clients k0 ?k' ?fd (Suc n)"
    using st(2-4) k1(4,5) assms(4) by (auto simp: stream_ok_def k_close_def echoed_def list_all_iff dest: in_set_dropD)
  moreover have "\<forall>g. g \<noteq> ?fd \<longrightarrow> k_recvs ?k' g = k_recvs k g \<and> k_sends ?k' g = k_sends k g \<and> k_sent ?k' g = k_sent k g"
    using k1(3) by (simp add: k_close_def other_fds_same_def)
  ultimately show ?thesis by blast
qed

lemma task_waits:
  assumes "stream_ok clients k0 k (tt_sock v) n" "echo_task v" "length (clients (tt_sock v)) \<le> n"
  shows "tcp_task_call v k = Blocked"
  using assms by (simp add: stream_ok_def tcp_task_call_def echo_task_def tcp_service.simps [of tcp_handle "tt_sock v" k] k_recv_def)

section \<open>What the main thread does\<close>

fun in_get_instance :: "'a tp_pc \<Rightarrow> bool" where
  "in_get_instance Gi_Check = True" | "in_get_instance Gi_Lock = True" | "in_get_instance Gi_Check2 = True"
| "in_get_instance Gi_New = True" | "in_get_instance Gi_Init = True" | "in_get_instance (Gi_Start i) = True"
| "in_get_instance Gi_Unlock = True" | "in_get_instance _ = False"

fun in_push_task :: "'a tp_pc \<Rightarrow> bool" where
  "in_push_task (Pt_Lock v) = True" | "in_push_task (Pt_Enq v) = True" | "in_push_task Pt_Signal = True"
| "in_push_task Pt_Unlock = True" | "in_push_task _ = False"

fun to_enqueue :: "'a tp_pc \<Rightarrow> 'a list" where
  "to_enqueue (Pt_Lock v) = [v]" | "to_enqueue (Pt_Enq v) = [v]" | "to_enqueue _ = []"

text \<open>The task that was built and is not in the queue yet.\<close>

definition in_flight :: "pool_server \<Rightarrow> tcp_task list" where
  "in_flight s = (case ps_main s of Srv_Get t \<Rightarrow> [t] | Srv_Push t \<Rightarrow> [t]
     | Srv_Accept \<Rightarrow> to_enqueue (tp_pc (ps_pool s) main_thread))"

definition main_ok :: "pool_server \<Rightarrow> bool" where
  "main_ok s \<longleftrightarrow> (case ps_main s of
     Srv_Accept \<Rightarrow> main_free s \<or> in_push_task (tp_pc (ps_pool s) main_thread)
   | Srv_Get t \<Rightarrow> main_free s
   | Srv_Push t \<Rightarrow> tp_pc (ps_pool s) main_thread = Tp_Has \<or> in_get_instance (tp_pc (ps_pool s) main_thread))"

definition ps_control :: "pool_server \<Rightarrow> bool" where
  "ps_control s \<longleftrightarrow> pool_inv (ps_pool s) \<and> tp_thread_cap (ps_pool s) = POOL_NUM \<and>
     (\<forall>t. main_thread < t \<longrightarrow> tp_pc (ps_pool s) t = Tp_Idle) \<and>
     main_ok s \<and> tps_tasks (ps_srv s) = tp_pushed (ps_pool s) @ in_flight s"

lemma instance_frame:
  assumes "instance_step t (tp_pc p t) p = Done p'"
  shows "in_get_instance (tp_pc p t)" "in_get_instance (tp_pc p' t) \<or> tp_pc p' t = Tp_Has \<or> (\<exists>i. tp_pc p t = Gi_Start i \<and> t < tp_threads p)"
    "tp_pushed p' = tp_pushed p" "tp_executed p' = tp_executed p" "u \<noteq> t \<Longrightarrow> tp_pc p' u = tp_pc p u \<or> (\<exists>i. tp_pc p t = Gi_Start i \<and> u < tp_threads p)"
  using assms by (cases "tp_pc p t"; auto split: if_splits)+

lemma pool_push_frame:
  assumes "pushTask_step t w (tp_pc p t) p = Done p'"
  shows "in_push_task (tp_pc p t)" "in_push_task (tp_pc p' t) \<or> tp_pc p' t = Tp_Has"
    "tp_pushed p' @ to_enqueue (tp_pc p' t) = tp_pushed p @ to_enqueue (tp_pc p t)" "tp_executed p' = tp_executed p"
    "u \<noteq> t \<Longrightarrow> \<not> is_worker (tp_pc p u) \<Longrightarrow> tp_pc p' u = tp_pc p u"
  using assms
  by (cases "tp_pc p t"; auto simp: guard_lock_def guard_unlock_def threadWakeup_def split: if_splits tp_pc.splits)+

lemma worker_frame:
  assumes "worker_step t (tp_pc p t) p = Done p'"
  shows "is_worker (tp_pc p t)" "tp_pushed p' = tp_pushed p" "u \<noteq> t \<Longrightarrow> tp_pc p' u = tp_pc p u"
    "(\<forall>v. tp_pc p t \<noteq> W_Run v) \<Longrightarrow> tp_executed p' = tp_executed p"
    "tp_pc p t = W_Run v \<Longrightarrow> tp_executed p' = tp_executed p @ [v]"
  using assms
  by (cases "tp_pc p t"; auto simp: guard_lock_def guard_unlock_def popTask_def split: if_splits list.splits)+

lemma control_threads:
  assumes "ps_control s"
  shows "in_get_instance (tp_pc (ps_pool s) t) \<Longrightarrow> t = main_thread \<and> (\<exists>v. ps_main s = Srv_Push v)"
    "in_push_task (tp_pc (ps_pool s) t) \<Longrightarrow> t = main_thread \<and> ps_main s = Srv_Accept"
    "is_worker (tp_pc (ps_pool s) t) \<Longrightarrow> t < main_thread" "tp_pc (ps_pool s) t = Gi_Start i \<Longrightarrow> tp_threads (ps_pool s) = main_thread"
proof -
  have c: "pool_phase (ps_pool s)" "tp_thread_cap (ps_pool s) = 20" "\<And>t. 20 < t \<Longrightarrow> tp_pc (ps_pool s) t = Tp_Idle" "main_ok s"
    using assms by (simp_all add: ps_control_def pool_inv_def POOL_NUM_def main_thread_def)
  have w: "t < 20 \<longleftrightarrow> is_worker (tp_pc (ps_pool s) t) \<or> tp_pc (ps_pool s) t = Tp_Off" for t
    using pool_phase_facts(2) [OF c(1), of t] c(2) by simp
  have m: "t = 20" if "in_get_instance (tp_pc (ps_pool s) t) \<or> in_push_task (tp_pc (ps_pool s) t)" for t
    using that w [of t] c(3) [of t] by (cases "tp_pc (ps_pool s) t"; cases "t < 20"; cases "20 < t") auto
  show "in_get_instance (tp_pc (ps_pool s) t) \<Longrightarrow> t = main_thread \<and> (\<exists>v. ps_main s = Srv_Push v)"
    using m [of t] c(4)
    by (cases "tp_pc (ps_pool s) t") (auto simp: main_ok_def main_free_def main_thread_def split: srv_pc.splits)
  show "in_push_task (tp_pc (ps_pool s) t) \<Longrightarrow> t = main_thread \<and> ps_main s = Srv_Accept"
    using m [of t] c(4)
    by (cases "tp_pc (ps_pool s) t") (auto simp: main_ok_def main_free_def main_thread_def split: srv_pc.splits)
  show "is_worker (tp_pc (ps_pool s) t) \<Longrightarrow> t < main_thread" using w [of t] by (simp add: main_thread_def)
  show "tp_pc (ps_pool s) t = Gi_Start i \<Longrightarrow> tp_threads (ps_pool s) = main_thread"
    using pool_phase_facts(6) [OF c(1), of t] c(2) by (auto simp: main_thread_def)
qed

lemma control_cap: "ps_control s \<Longrightarrow> tp_thread_cap (ps_pool s) = main_thread"
  by (simp add: ps_control_def POOL_NUM_def main_thread_def)

lemma accept_tasks:
  assumes "tcp_pool_accept func len srv = Done srv'"
  shows "tps_listen_sock srv' = tps_listen_sock srv \<and> (\<forall>g. k_recvs (tps_kern srv') g = k_recvs (tps_kern srv) g \<and>
      k_sends (tps_kern srv') g = k_sends (tps_kern srv) g \<and> k_sent (tps_kern srv') g = k_sent (tps_kern srv) g) \<and>
    (tps_tasks srv' = tps_tasks srv \<and> k_open (tps_kern srv') = k_open (tps_kern srv) \<or>
     (\<exists>v. tps_tasks srv' = tps_tasks srv @ [v] \<and> tt_sock v = lowest_fd (k_open (tps_kern srv)) \<and>
        tt_callback v = (\<lambda>sock client_ip client_port. tcp_service func sock) \<and>
        k_open (tps_kern srv') = tt_sock v # k_open (tps_kern srv)))"
  using assms
  by (auto simp: leD [OF lowest_fd_nonneg] tcp_pool_accept_def sock_Accept_uninit_def k_accept_def k_new_fd_def Let_def
      split: list.splits accept_res.splits if_splits option.splits sum.splits)

lemma pserver_control:
  assumes "pserver_step s s'" "ps_control s"
  shows "ps_control s'"
proof -
  note c = assms(2) [unfolded ps_control_def] and th = control_threads [OF assms(2)]
  have pool: "pool_inv (ps_pool s')" "tp_thread_cap (ps_pool s') = POOL_NUM"
    using pserver_pool [OF assms(1)] c pool_step_inv pool_step_frame by metis+
  have rest: "(\<forall>t. main_thread < t \<longrightarrow> tp_pc (ps_pool s') t = Tp_Idle) \<and> main_ok s' \<and>
      tps_tasks (ps_srv s') = tp_pushed (ps_pool s') @ in_flight s'"
    using assms(1)
  proof cases
    case (srv_accept len srv)
    have "in_flight s = []" using srv_accept(2,3) by (auto simp: in_flight_def main_free_def)
    moreover have "to_enqueue (tp_pc (ps_pool s) main_thread) = []" using srv_accept(3) by (auto simp: main_free_def)
    ultimately show ?thesis
      using c accept_tasks [OF srv_accept(4)] srv_accept
      by (auto simp: after_accept_def main_ok_def main_free_def in_flight_def)
  next
    case (srv_get v)
    then show ?thesis using c by (auto simp: main_ok_def in_flight_def)
  next
    case (srv_push v)
    then show ?thesis using c by (auto simp: main_ok_def in_flight_def)
  next
    case (in_get t p)
    note f = instance_frame [OF in_get(2)]
    obtain v where t: "t = main_thread" "ps_main s = Srv_Push v" using th(1) [OF f(1)] by blast
    have st: "\<not> (\<exists>i. tp_pc (ps_pool s) t = Gi_Start i \<and> t < tp_threads (ps_pool s))" using th(4) t(1) by auto
    have "tp_pc p u = Tp_Idle" if "main_thread < u" for u
    proof -
      have "\<not> (\<exists>i. tp_pc (ps_pool s) t = Gi_Start i \<and> u < tp_threads (ps_pool s))" using th(4) that by auto
      then have "tp_pc p u = tp_pc (ps_pool s) u" using f(5) [of u] that t(1) by blast
      with c that show ?thesis by simp
    qed
    with f(2,3) st t c in_get(1) show ?thesis by (auto simp: main_ok_def in_flight_def)
  next
    case (in_push t w p)
    note f = pool_push_frame [OF in_push(2)]
    have t: "t = main_thread" "ps_main s = Srv_Accept" using th(2) [OF f(1)] by blast+
    have "tp_pc p u = Tp_Idle" if "main_thread < u" for u using f(5) [of u] c that t(1) by simp
    with f(2,3) t c in_push(1) show ?thesis by (auto simp: main_ok_def main_free_def in_flight_def)
  next
    case (in_worker t p)
    note f = worker_frame [OF in_worker(2)]
    have t: "t < main_thread" using th(3) [OF f(1)] .
    then have "tp_pc p u = tp_pc (ps_pool s) u" if "main_thread \<le> u" for u using f(3) [of u] that by auto
    with f(2) c in_worker(1) show ?thesis by (auto simp: main_ok_def main_free_def in_flight_def cong: srv_pc.case_cong)
  next
    case (run_task t v p k)
    note f = worker_frame [OF run_task(3) [folded run_task(2)]]
    have t: "t < main_thread" using th(3) [OF f(1)] .
    then have "tp_pc p u = tp_pc (ps_pool s) u" if "main_thread \<le> u" for u using f(3) [of u] that by auto
    with f(2) c run_task(1) show ?thesis by (auto simp: main_ok_def main_free_def in_flight_def cong: srv_pc.case_cong)
  next
    case (in_spurious t)
    have t: "t < main_thread" using th(3) [of t] in_spurious(2) by simp
    with c in_spurious(1) show ?thesis by (auto simp: main_ok_def main_free_def in_flight_def cong: srv_pc.case_cong)
  qed
  with pool show ?thesis by (simp add: ps_control_def)
qed

section \<open>Connections and descriptors\<close>

text \<open>How many connections of \<open>fd\<close> have been served, and the tasks that have not been run to their end.\<close>

definition served_on :: "pool_server \<Rightarrow> int \<Rightarrow> nat" where
  "served_on s fd = length (filter (\<lambda>v. tt_sock v = fd) (tp_executed (ps_pool s)))"

definition pending_tasks :: "pool_server \<Rightarrow> tcp_task multiset" where
  "pending_tasks s = mset (tps_tasks (ps_srv s)) - mset (tp_executed (ps_pool s))"

definition ps_data :: "(int \<Rightarrow> session list) \<Rightarrow> kernel \<Rightarrow> pool_server \<Rightarrow> bool" where
  "ps_data clients k0 s \<longleftrightarrow>
     (\<forall>v \<in> set (tps_tasks (ps_srv s)). echo_task v) \<and> distinct (k_open (tps_kern (ps_srv s))) \<and>
     mset (k_open (tps_kern (ps_srv s))) = mset (k_open k0) + image_mset tt_sock (pending_tasks s) \<and>
     (\<forall>fd. stream_ok clients k0 (tps_kern (ps_srv s)) fd (served_on s fd))"

lemma executed_tasks:
  assumes "ps_control s"
  shows "mset (tp_executed (ps_pool s)) \<subseteq># mset (tps_tasks (ps_srv s))"
    and "tp_pc (ps_pool s) t = W_Run v \<Longrightarrow> v \<in># pending_tasks s"
proof -
  have d: "pool_data (ps_pool s)" "pool_locks (ps_pool s)" using assms by (simp_all add: ps_control_def pool_inv_def)
  have tk: "count (mset (tps_tasks (ps_srv s))) v =
      count (mset (tp_taken (ps_pool s))) v + count (mset (tp_tasks (ps_pool s) @ in_flight s)) v" for v
    using d(1) assms by (simp add: pool_data_def ps_control_def)
  have h: "count (mset (tp_taken (ps_pool s))) v =
      count (mset (tp_executed (ps_pool s))) v + at_pc (tp_pc (ps_pool s)) (\<lambda>p. in_hand p = [v])" for v
    using d(1) unfolding pool_data_def by blast
  show "mset (tp_executed (ps_pool s)) \<subseteq># mset (tps_tasks (ps_srv s))"
    by (rule mset_subset_eqI) (simp only: tk h)
  assume r: "tp_pc (ps_pool s) t = W_Run v"
  have "finite {t. tp_busy (tp_pc (ps_pool s) t)}" using d(2) by (simp add: pool_locks_def)
  then have "finite {t. in_hand (tp_pc (ps_pool s) t) = [v]}"
    by (rule finite_subset [rotated]) (auto dest: tp_role_busy(2))
  then have "0 < at_pc (tp_pc (ps_pool s)) (\<lambda>p. in_hand p = [v])"
    by (rule at_pc_pos [where t = t]) (simp add: r)
  then have "count (mset (tp_executed (ps_pool s))) v < count (mset (tps_tasks (ps_srv s))) v"
    unfolding tk [of v] h [of v] by linarith
  then show "v \<in># pending_tasks s" by (simp add: pending_tasks_def in_diff_count)
qed

lemma data_same:
  assumes "ps_data clients k0 s" "ps_srv s' = ps_srv s" "tp_executed (ps_pool s') = tp_executed (ps_pool s)"
  shows "ps_data clients k0 s'"
  using assms by (simp add: ps_data_def pending_tasks_def served_on_def)

lemma pserver_data:
  assumes "pserver_step s s'" "ps_control s" "ps_data clients k0 s" "\<forall>fd. list_all session_ok (clients fd)"
  shows "ps_data clients k0 s'"
proof -
  note d = assms(3) [unfolded ps_data_def]
  show ?thesis
    using assms(1)
  proof cases
    case (srv_accept len srv)
    note a = accept_tasks [OF srv_accept(4)]
    have s': "ps_srv s' = srv" "ps_pool s' = ps_pool s" using srv_accept(1) by (simp_all add: after_accept_def)
    have st: "\<forall>fd. stream_ok clients k0 (tps_kern srv) fd (served_on s' fd)"
      using d a s' stream_frame unfolding served_on_def by (metis (no_types, lifting))
    from a consider "tps_tasks srv = tps_tasks (ps_srv s)" "k_open (tps_kern srv) = k_open (tps_kern (ps_srv s))"
      | v where "tps_tasks srv = tps_tasks (ps_srv s) @ [v]" "tt_sock v = lowest_fd (k_open (tps_kern (ps_srv s)))"
        "echo_task v" "k_open (tps_kern srv) = tt_sock v # k_open (tps_kern (ps_srv s))"
      unfolding echo_task_def by blast
    then show ?thesis
    proof cases
      case 1
      with d st s' show ?thesis by (simp add: ps_data_def pending_tasks_def)
    next
      case 2
      have "pending_tasks s' = add_mset v (pending_tasks s)"
        using subset_mset.add_diff_assoc2 [OF executed_tasks(1) [OF assms(2)], of "{#v#}"] 2(1) s' by (simp add: pending_tasks_def)
      with d st s' 2 show ?thesis using lowest_fd_fresh by (simp add: ps_data_def)
    qed
  next
    case (run_task t v p k)
    note f = worker_frame [OF run_task(3) [folded run_task(2)]]
    have ex: "tp_executed p = tp_executed (ps_pool s) @ [v]" using f(5) [OF run_task(2)] .
    have v: "v \<in># pending_tasks s" by (rule executed_tasks(2) [OF assms(2) run_task(2)])
    then have echo: "echo_task v" using d by (auto simp: pending_tasks_def dest: in_diffD)
    have sok: "stream_ok clients k0 (tps_kern (ps_srv s)) (tt_sock v) (served_on s (tt_sock v))" using d by blast
    have n: "served_on s (tt_sock v) < length (clients (tt_sock v))"
      using task_waits [OF sok echo] run_task(4) by (metis linorder_not_less outcome.distinct(3))
    from task_serves [OF sok echo _ n] assms(4) run_task(4) have k:
      "stream_ok clients k0 k (tt_sock v) (Suc (served_on s (tt_sock v)))"
      "k_open k = removeAll (tt_sock v) (k_open (tps_kern (ps_srv s)))"
      "\<And>g. g \<noteq> tt_sock v \<Longrightarrow> k_recvs k g = k_recvs (tps_kern (ps_srv s)) g \<and>
        k_sends k g = k_sends (tps_kern (ps_srv s)) g \<and> k_sent k g = k_sent (tps_kern (ps_srv s)) g" by auto
    have st: "stream_ok clients k0 k fd (served_on s' fd)" for fd
    proof (cases "fd = tt_sock v")
      case True
      with k(1) run_task(1) ex show ?thesis by (simp add: served_on_def)
    next
      case False
      then have "served_on s' fd = served_on s fd" using run_task(1) ex by (simp add: served_on_def)
      with d k(3) [OF False] stream_frame show ?thesis by metis
    qed
    have pend: "pending_tasks s' = pending_tasks s - {#v#}" using run_task(1) ex by (simp add: pending_tasks_def)
    have "mset (k_open k) = mset (k_open (tps_kern (ps_srv s))) - {#tt_sock v#}"
      using d k(2) by (metis distinct_remove1_removeAll mset_remove1)
    also have "\<dots> = mset (k_open k0) + image_mset tt_sock (pending_tasks s')"
      using d v unfolding pend by (simp add: image_mset_Diff)
    finally show ?thesis using d st run_task(1) k(2) by (simp add: ps_data_def distinct_removeAll)
  qed (auto intro: data_same [OF assms(3)] simp: instance_frame(4) pool_push_frame(4) worker_frame(4))
qed

section \<open>What the server does\<close>

definition clients_ok :: "(int \<Rightarrow> session list) \<Rightarrow> kernel \<Rightarrow> bool" where
  "clients_ok clients k \<longleftrightarrow> distinct (k_open k) \<and> (\<forall>fd. list_all session_ok (clients fd) \<and> stream_ok clients k k fd 0)"

definition ps_rest :: "pool_server \<Rightarrow> bool" where
  "ps_rest s \<longleftrightarrow> \<not> (\<exists>s'. pserver_step s s')"

lemma start_control: "tps_tasks srv = [] \<Longrightarrow> ps_control (pool_server_start srv)"
  using pool_initial_inv [of POOL_NUM]
  by (simp add: ps_control_def pool_server_start_def main_ok_def main_free_def in_flight_def main_thread_def POOL_NUM_def)
    (simp add: pool_initial_def)

lemma start_data: "tps_tasks srv = [] \<Longrightarrow> clients_ok clients (tps_kern srv) \<Longrightarrow> ps_data clients (tps_kern srv) (pool_server_start srv)"
  by (simp add: ps_data_def clients_ok_def pool_server_start_def pending_tasks_def served_on_def) (simp add: pool_initial_def)

lemma pserver_reach:
  assumes "pserver_step\<^sup>*\<^sup>* (pool_server_start srv) s" "tps_tasks srv = []" "clients_ok clients (tps_kern srv)"
  shows "ps_control s \<and> ps_data clients (tps_kern srv) s"
  using assms(1)
proof (induction rule: rtranclp_induct)
  case base
  then show ?case using start_control start_data assms(2,3) by blast
next
  case (step s s')
  have "\<forall>fd. list_all session_ok (clients fd)" using assms(3) by (simp add: clients_ok_def)
  with step pserver_control pserver_data show ?case by blast
qed

lemma served_pending:
  assumes "ps_control s" "v \<in># pending_tasks s"
  shows "served_on s (tt_sock v) < length (filter (\<lambda>u. tt_sock u = tt_sock v) (tps_tasks (ps_srv s)))"
proof -
  let ?P = "\<lambda>u. tt_sock u = tt_sock v"
  have "mset (tps_tasks (ps_srv s)) = mset (tp_executed (ps_pool s)) + pending_tasks s"
    using executed_tasks(1) [OF assms(1)] by (simp add: pending_tasks_def)
  then have "size (filter_mset ?P (mset (tps_tasks (ps_srv s)))) =
      size (filter_mset ?P (mset (tp_executed (ps_pool s)))) + size (filter_mset ?P (pending_tasks s))" by simp
  moreover have "0 < size (filter_mset ?P (pending_tasks s))" using assms(2) by (auto simp: size_eq_0_iff_empty filter_mset_eq_conv nonempty_has_size [symmetric])
  ultimately show ?thesis by (simp add: served_on_def flip: mset_filter)
qed

lemma rest_next:
  assumes "ps_rest s" "ps_control s" "ps_data clients k0 s" "\<forall>fd. list_all session_ok (clients fd)" "wakeup_ok w (ps_pool s)"
    and "\<forall>fd. length (filter (\<lambda>v. tt_sock v = fd) (tps_tasks (ps_srv s))) \<le> length (clients fd)"
  shows "tp_next t w (ps_pool s) = Blocked"
proof -
  let ?p = "ps_pool s"
  have "instance_step t (tp_pc ?p t) ?p \<noteq> Done p" for p
    using assms(1) in_get unfolding ps_rest_def by blast
  moreover have "instance_step t (tp_pc ?p t) ?p \<noteq> Crash e" for e by (cases "tp_pc ?p t") auto
  ultimately have i: "instance_step t (tp_pc ?p t) ?p = Blocked" by (metis outcome.exhaust)
  have "pushTask_step t w (tp_pc ?p t) ?p \<noteq> Done p" for p
    using assms(1,5) in_push unfolding ps_rest_def by blast
  moreover have "pushTask_step t w (tp_pc ?p t) ?p \<noteq> Crash e" for e
    by (cases "tp_pc ?p t") (auto simp: guard_lock_def guard_unlock_def)
  ultimately have u: "pushTask_step t w (tp_pc ?p t) ?p = Blocked" by (metis outcome.exhaust)
  have "tp_pc ?p t \<noteq> W_Run v" for v
  proof
    assume r: "tp_pc ?p t = W_Run v"
    have v: "v \<in># pending_tasks s" by (rule executed_tasks(2) [OF assms(2) r])
    have d: "stream_ok clients k0 (tps_kern (ps_srv s)) (tt_sock v) (served_on s (tt_sock v))" "echo_task v"
      using assms(3) v by (auto simp: ps_data_def pending_tasks_def dest: in_diffD)
    have "served_on s (tt_sock v) < length (clients (tt_sock v))"
      using served_pending [OF assms(2) v] assms(6) by (meson order_less_le_trans)
    with task_serves [OF d] assms(4) obtain k where "tcp_task_call v (tps_kern (ps_srv s)) = Done k" by blast
    moreover obtain p where "worker_step t (W_Run v) ?p = Done p" by simp
    ultimately show False using run_task [OF r] assms(1) unfolding ps_rest_def by blast
  qed
  then have "worker_step t (tp_pc ?p t) ?p \<noteq> Done p" for p
    using assms(1) in_worker unfolding ps_rest_def by blast
  moreover have "pool_data ?p" using assms(2) by (simp add: ps_control_def pool_inv_def)
  then have "worker_step t (tp_pc ?p t) ?p \<noteq> Crash e" for e
    unfolding pool_data_def
    by (cases "tp_pc ?p t") (auto simp: guard_lock_def guard_unlock_def popTask_def split: list.splits)
  ultimately have "worker_step t (tp_pc ?p t) ?p = Blocked" by (metis outcome.exhaust)
  with i u show ?thesis by (simp add: tp_next_def)
qed

lemma rest_done:
  assumes "ps_rest s" "ps_control s" "pool_step\<^sup>*\<^sup>* (pool_initial POOL_NUM) (ps_pool s)"
    and "\<And>t w. wakeup_ok w (ps_pool s) \<Longrightarrow> tp_next t w (ps_pool s) = Blocked"
  shows "pending_tasks s = {#} \<and> k_accepts (tps_kern (ps_srv s)) = []"
proof -
  let ?p = "ps_pool s"
  obtain w where w: "wakeup_ok w ?p" by (cases "\<exists>u. tp_pc ?p u = W_Wait") (auto simp: wakeup_ok_def)
  have "0 < POOL_NUM" by (simp add: POOL_NUM_def)
  from pool_quiet [OF this assms(3), of w] assms(4) [OF w] have q:
    "mset (tp_executed ?p) = mset (tp_pushed ?p)" "\<And>t. tp_busy (tp_pc ?p t) \<Longrightarrow> tp_pc ?p t = W_Wait" by blast+
  note c = assms(2) [unfolded ps_control_def]
  have "\<not> in_get_instance (tp_pc ?p main_thread)" "\<not> in_push_task (tp_pc ?p main_thread)"
    using q(2) [of main_thread] by (cases "tp_pc ?p main_thread"; simp add: tp_busy_def)+
  with c have m: "main_free s" "\<And>v. ps_main s = Srv_Push v \<Longrightarrow> tp_pc ?p main_thread = Tp_Has"
    by (auto simp: main_ok_def main_free_def split: srv_pc.splits)
  then have a: "ps_main s = Srv_Accept"
    using assms(1) srv_get [of s] srv_push [of s] unfolding ps_rest_def by (cases "ps_main s") blast+
  then have "in_flight s = []" using m(1) by (auto simp: in_flight_def main_free_def)
  then have "pending_tasks s = {#}" using c q(1) by (simp add: pending_tasks_def)
  moreover have "k_accepts (tps_kern (ps_srv s)) = []"
  proof (rule ccontr)
    assume "k_accepts (tps_kern (ps_srv s)) \<noteq> []"
    then obtain a rest where k: "k_accepts (tps_kern (ps_srv s)) = a # rest" by (cases "k_accepts (tps_kern (ps_srv s))") auto
    have "\<exists>srv. tcp_pool_accept tcp_handle 16 (ps_srv s) = Done srv"
      by (cases a) (simp_all add: k leD [OF lowest_fd_nonneg] tcp_pool_accept_def sock_Accept_uninit_def k_accept_def
          k_new_fd_def Let_def del: bind_out_Done_iff)
    with srv_accept [OF a m(1)] assms(1) show False unfolding ps_rest_def by blast
  qed
  ultimately show ?thesis by blast
qed


text \<open>The pool has no room for a twenty-first client.\<close>

definition all_held :: "pool_server \<Rightarrow> bool" where
  "all_held s \<longleftrightarrow> (\<forall>t < main_thread. \<exists>v. tp_pc (ps_pool s) t = W_Run v \<and> echo_task v \<and> k_recvs (tps_kern (ps_srv s)) (tt_sock v) = [])"

lemma held_step:
  assumes "pserver_step s s'" "ps_control s" "all_held s"
  shows "all_held s' \<and> tp_executed (ps_pool s') = tp_executed (ps_pool s) \<and> tp_taken (ps_pool s') = tp_taken (ps_pool s) \<and>
    k_sent (tps_kern (ps_srv s')) = k_sent (tps_kern (ps_srv s))"
proof -
  note th = control_threads [OF assms(2)]
  have held: "\<exists>v. tp_pc (ps_pool s) t = W_Run v \<and> echo_task v \<and> k_recvs (tps_kern (ps_srv s)) (tt_sock v) = []"
    if "is_worker (tp_pc (ps_pool s) t)" for t
    using assms(3) th(3) [OF that] by (simp add: all_held_def)
  have same: ?thesis if "\<And>t. t < main_thread \<Longrightarrow> tp_pc (ps_pool s') t = tp_pc (ps_pool s) t"
    "tp_executed (ps_pool s') = tp_executed (ps_pool s)" "tp_taken (ps_pool s') = tp_taken (ps_pool s)"
    "k_recvs (tps_kern (ps_srv s')) = k_recvs (tps_kern (ps_srv s))" "k_sent (tps_kern (ps_srv s')) = k_sent (tps_kern (ps_srv s))"
    using assms(3) that by (simp add: all_held_def)
  show ?thesis
    using assms(1)
  proof cases
    case (srv_accept len srv)
    with accept_tasks [OF srv_accept(4)] show ?thesis by (intro same) (auto simp: after_accept_def fun_eq_iff)
  next
    case (in_get t p)
    note f = instance_frame [OF in_get(2)]
    have t: "t = main_thread" using th(1) [OF f(1)] by blast
    have ns: "\<not> i < tp_threads (ps_pool s)" if g: "tp_pc (ps_pool s) t = Gi_Start i" for i
    proof
      assume "i < tp_threads (ps_pool s)"
      then have i: "i < main_thread" using th(4) [OF g] by simp
      have ph: "pool_phase (ps_pool s)" using assms(2) by (simp add: ps_control_def pool_inv_def)
      have "tp_pc (ps_pool s) i = Tp_Off"
        using pool_phase_facts(8) [OF ph g order_refl] control_cap [OF assms(2)] i by simp
      with assms(3) i show False by (auto simp: all_held_def)
    qed
    have "(u \<noteq> t \<longrightarrow> tp_pc p u = tp_pc (ps_pool s) u) \<and> tp_taken p = tp_taken (ps_pool s)" for u
      using in_get(2) ns by (cases "tp_pc (ps_pool s) t") (auto split: if_splits)
    with f(4) t in_get(1) show ?thesis by (intro same) auto
  next
    case (in_push t w p)
    note f = pool_push_frame [OF in_push(2)]
    have t: "t = main_thread" using th(2) [OF f(1)] by blast
    have "tp_pc (ps_pool s) w \<noteq> W_Wait" using held [of w] by auto
    then have wk: "threadWakeup w (ps_pool s) = ps_pool s" by (simp add: threadWakeup_def split: tp_pc.split)
    have "(u \<noteq> t \<longrightarrow> tp_pc p u = tp_pc (ps_pool s) u) \<and> tp_taken p = tp_taken (ps_pool s)" for u
      using in_push(2) wk by (cases "tp_pc (ps_pool s) t") (auto simp: guard_lock_def guard_unlock_def split: if_splits)
    with f(4) t in_push(1) show ?thesis by (intro same) auto
  next
    case (in_worker t p)
    with held worker_frame(1) [OF in_worker(2)] show ?thesis by blast
  next
    case (run_task t v p k)
    then have "k_recvs (tps_kern (ps_srv s)) (tt_sock v) = []" "echo_task v" using held [of t] by auto
    with run_task(4) show ?thesis
      by (simp add: tcp_task_call_def echo_task_def tcp_service.simps [of tcp_handle "tt_sock v"] k_recv_def)
  next
    case (in_spurious t)
    with held [of t] show ?thesis by auto
  qed (use assms(3) in \<open>auto simp: all_held_def main_thread_def\<close>)
qed

text \<open>C34. Twenty clients that send nothing and do not leave occupy all workers: from such a state on no task is
  taken from the queue or completed any more and nothing is sent to anybody, whatever is accepted and pushed and
  however the threads are scheduled.\<close>

theorem pool_server_starves:
  assumes "ps_control s" "all_held s" "pserver_step\<^sup>*\<^sup>* s s'"
  shows "tp_taken (ps_pool s') = tp_taken (ps_pool s) \<and> tp_executed (ps_pool s') = tp_executed (ps_pool s) \<and>
    k_sent (tps_kern (ps_srv s')) = k_sent (tps_kern (ps_srv s)) \<and>
    prefix (tps_tasks (ps_srv s)) (tps_tasks (ps_srv s'))"
proof -
  have tasks: "prefix (tps_tasks (ps_srv x)) (tps_tasks (ps_srv y))" if "pserver_step x y" for x y
    using that by (cases rule: pserver_step.cases) (auto simp: after_accept_def dest: accept_tasks)
  have "ps_control s' \<and> all_held s' \<and> tp_taken (ps_pool s') = tp_taken (ps_pool s) \<and> tp_executed (ps_pool s') = tp_executed (ps_pool s) \<and>
    k_sent (tps_kern (ps_srv s')) = k_sent (tps_kern (ps_srv s)) \<and> prefix (tps_tasks (ps_srv s)) (tps_tasks (ps_srv s'))"
    using assms(3)
  proof (induction rule: rtranclp_induct)
    case base
    then show ?case using assms(1,2) by simp
  next
    case (step x y)
    with held_step [OF step.hyps(2)] pserver_control [OF step.hyps(2)] tasks [OF step.hyps(2)] show ?case
      by (auto intro: prefix_order.trans)
  qed
  then show ?thesis by blast
qed

text \<open>Twenty clients, all silent, and one more that is accepted.\<close>

definition held_task :: "nat \<Rightarrow> tcp_task" where
  "held_task i = \<lparr>tt_sock = 4 + int i, tt_client_ip = ''10.0.0.1'', tt_client_port = 9000 + int i,
     tt_callback = (\<lambda>sock client_ip client_port. tcp_service tcp_handle sock)\<rparr>"

definition held_tasks :: "tcp_task list" where
  "held_tasks = map held_task [0..<20]"

definition held_server :: pool_server where
  "held_server =
     \<lparr>ps_srv = \<lparr>tps_listen_sock = \<lparr>sock_fd = 3\<rparr>, tps_tasks = held_tasks,
        tps_kern = boot_kernel\<lparr>k_open := map (\<lambda>i. 4 + int i) [0..<20] @ [3, 0, 1, 2],
          k_accepts := [AOk ''10.0.0.2'' 7000], k_recvs := (\<lambda>_. [])\<rparr>\<rparr>,
      ps_pool = \<lparr>tp_tasks = [], tp_thread_cap = 20, tp_threads = 20, tp_mtx = None, tp_instance = True,
        tp_static_mtx = None, tp_pc = (\<lambda>t. if t < 20 then W_Run (held_task t) else if t = 20 then Tp_Has else Tp_Idle),
        tp_made = 1, tp_pushed = held_tasks, tp_taken = held_tasks, tp_executed = []\<rparr>,
      ps_main = Srv_Accept\<rparr>"

lemma held_server_control: "ps_control held_server \<and> all_held held_server"
proof -
  let ?p = "ps_pool held_server"
  have busy: "{t. tp_busy (tp_pc ?p t)} \<subseteq> {..<20}" by (auto simp: held_server_def tp_busy_def split: if_splits)
  then have "finite {t. tp_busy (tp_pc ?p t)}" by (rule finite_subset) simp
  then have "pool_locks ?p" by (simp add: pool_locks_def) (simp add: held_server_def)
  moreover have "pool_phase ?p" by (auto simp: pool_phase_def held_server_def)
  moreover have "count (mset held_tasks) v = at_pc (tp_pc ?p) (\<lambda>p. in_hand p = [v])" for v
  proof -
    have "{t. in_hand (tp_pc ?p t) = [v]} = {t. t < length held_tasks \<and> v = held_tasks ! t}"
      by (auto simp: held_server_def held_tasks_def split: if_splits)
    then show ?thesis by (simp only: at_pc_def count_mset count_list_eq_length_filter length_filter_conv_card)
  qed
  then have "pool_data ?p" by (simp add: pool_data_def) (simp add: held_server_def)
  moreover have "pool_signals ?p" by (simp add: pool_signals_def held_server_def)
  ultimately have "pool_inv ?p" by (simp add: pool_inv_def)
  then show ?thesis
    by (simp add: ps_control_def all_held_def)
       (simp add: held_server_def POOL_NUM_def main_thread_def main_ok_def main_free_def in_flight_def echo_task_def held_task_def)
qed

lemma pool_server_starves_witness:
  "\<exists>s. pserver_step held_server s \<and> length (tps_tasks (ps_srv s)) = 21 \<and> tp_executed (ps_pool s) = []"
proof -
  have "\<exists>srv. tcp_pool_accept tcp_handle 16 (ps_srv held_server) = Done srv \<and> length (tps_tasks srv) = 21"
    by (simp add: held_server_def leD [OF lowest_fd_nonneg] tcp_pool_accept_def sock_Accept_uninit_def k_accept_def
        k_new_fd_def Let_def held_tasks_def del: bind_out_Done_iff)
  then obtain srv where srv: "tcp_pool_accept tcp_handle 16 (ps_srv held_server) = Done srv" "length (tps_tasks srv) = 21" by blast
  have st: "pserver_step held_server (after_accept held_server srv)"
    by (rule srv_accept [OF _ _ srv(1)]) (simp_all add: held_server_def main_free_def main_thread_def)
  note c = held_server_control [THEN conjunct1] held_server_control [THEN conjunct2]
  have "tp_executed (ps_pool (after_accept held_server srv)) = tp_executed (ps_pool held_server)"
    using pool_server_starves [OF c r_into_rtranclp [of pserver_step, OF st]] by blast
  then show ?thesis using st srv(2) by (intro exI [of _ "after_accept held_server srv"]) (simp add: after_accept_def held_server_def)
qed


end
