(* ===== verification/PoolThreads.thy ===== *)
theory PoolThreads
  imports PoolServer Tickets
begin

text \<open>
  The thread objects of the pool of \<open>7.19/tcp_socket\<close>: its version of the class \<open>Thread\<close> and the
  functions of \<open>threadPool\<close> that create, start, list and join the threads.
\<close>

section \<open>The class \<open>Thread\<close>\<close>

definition worker_new :: "int \<Rightarrow> thread_obj" where
  "worker_new number =
     \<lparr>th_tid = 0,
      th_name = snprintf 64 (to_string number @ map char_of [0xE5 :: nat, 0x8F, 0xB7, 0xE7, 0xBA, 0xBF, 0xE7, 0xA8, 0x8B]),
      th_status = NEW\<rparr>"

definition worker_get_id :: "thread_obj \<Rightarrow> nat" where "worker_get_id th = th_tid th"
definition worker_name :: "thread_obj \<Rightarrow> string" where "worker_name th = th_name th"
definition worker_get_status :: "thread_obj \<Rightarrow> thread_status" where "worker_get_status th = th_status th"

text \<open>What the new thread does: it calls the function of its object, if that is not null.\<close>

definition call_thread_func :: "('s \<Rightarrow> 's outcome) option \<Rightarrow> 's \<Rightarrow> 's outcome" where
  "call_thread_func thread_func s = (case thread_func of Some f \<Rightarrow> f s | None \<Rightarrow> Done s)"

text \<open>\<open>run\<close> and \<open>join\<close> with what they print; \<open>created\<close> is the new identifier if \<open>pthread_create\<close> succeeds.\<close>

definition worker_run :: "nat option \<Rightarrow> thread_obj \<Rightarrow> thread_obj \<times> string list" where
  "worker_run created th =
     (th\<lparr>th_tid := (case created of Some tid \<Rightarrow> tid | None \<Rightarrow> th_tid th), th_status := RUNNING\<rparr>,
      case created of None \<Rightarrow> [''create error''] | Some _ \<Rightarrow> [])"

text \<open>
  \<open>ended tid\<close>: the thread has ended; joining it waits for that. The identifier 0 belongs to no
  thread, and joining it is undefined.
\<close>

definition worker_join :: "(nat \<Rightarrow> bool) \<Rightarrow> thread_obj \<Rightarrow> thread_obj outcome" where
  "worker_join ended th =
     (if th_tid th = 0 then Crash Uninitialised
      else if ended (th_tid th) then Done (th\<lparr>th_status := EXITED\<rparr>) else Blocked)"

section \<open>The pool's vector of threads\<close>

record thread_pool =
  tpl_threads :: "thread_obj list"
  tpl_cap :: int
  tpl_printed :: "string list"

definition threadPool_new :: "int \<Rightarrow> thread_pool" where
  "threadPool_new num = \<lparr>tpl_threads = [], tpl_cap = num, tpl_printed = [''get obj'']\<rparr>"

fun init_loop :: "nat \<Rightarrow> int \<Rightarrow> thread_pool \<Rightarrow> thread_pool" where
  "init_loop 0 i tp = tp"
| "init_loop (Suc n) i tp = init_loop n (i + 1) (tp\<lparr>tpl_threads := tpl_threads tp @ [worker_new (i + 1)]\<rparr>)"

definition threadPool_init :: "thread_pool \<Rightarrow> thread_pool" where
  "threadPool_init tp = init_loop (nat (tpl_cap tp)) 0 tp"

definition startRunning :: "nat option list \<Rightarrow> thread_pool \<Rightarrow> thread_pool" where
  "startRunning created tp =
     (let rs = map2 worker_run created (tpl_threads tp)
      in tp\<lparr>tpl_threads := map fst rs, tpl_printed := tpl_printed tp @ concat (map snd rs)\<rparr>)"

definition check :: "thread_pool \<Rightarrow> thread_pool" where
  "check tp = tp\<lparr>tpl_printed := tpl_printed tp @
     map (\<lambda>th. worker_name th @ '' running ... '') (filter (\<lambda>th. worker_get_status th = RUNNING) (tpl_threads tp))\<rparr>"

fun join_all :: "(nat \<Rightarrow> bool) \<Rightarrow> thread_obj list \<Rightarrow> thread_obj list outcome" where
  "join_all ended [] = Done []"
| "join_all ended (th # ths) = bind_out (worker_join ended th) (\<lambda>th. map_outcome (Cons th) (join_all ended ths))"

definition threadPool_destroy :: "(nat \<Rightarrow> bool) \<Rightarrow> thread_pool \<Rightarrow> thread_pool outcome" where
  "threadPool_destroy ended tp =
     map_outcome (\<lambda>ths. tp\<lparr>tpl_threads := ths\<rparr>) (join_all ended (tpl_threads tp))"

section \<open>What becomes of the threads\<close>

lemma init_loop_threads:
  "tpl_threads (init_loop n i tp) = tpl_threads tp @ map (\<lambda>j. worker_new (i + int j + 1)) [0..<n] \<and>
   tpl_printed (init_loop n i tp) = tpl_printed tp \<and> tpl_cap (init_loop n i tp) = tpl_cap tp"
proof (induction n arbitrary: i tp)
  case (Suc n)
  have "[0..<Suc n] = 0 # map Suc [0..<n]" by (simp add: upt_conv_Cons map_Suc_upt del: upt_Suc)
  then show ?case using Suc.IH [of "i + 1"] by (simp add: comp_def add.commute add.left_commute del: upt_Suc)
qed simp

text \<open>A worker of the pool stays in its loop.\<close>

lemma worker_stays:
  assumes "pool_step s s'" "is_worker (tp_pc s t)"
  shows "is_worker (tp_pc s' t)"
  using assms
proof cases
  case (pool_run_get u)
  with assms(2) show ?thesis by (cases "tp_pc s u") (auto split: if_splits)
next
  case (pool_run_push u w)
  with assms(2) show ?thesis
    by (cases "tp_pc s u") (auto simp: guard_lock_def guard_unlock_def threadWakeup_def split: if_splits tp_pc.splits)
next
  case (pool_run_worker u)
  with assms(2) show ?thesis
    by (cases "tp_pc s u") (auto simp: guard_lock_def guard_unlock_def popTask_def split: if_splits list.splits)
qed (use assms(2) in auto)

lemma workers_stay: "pool_step\<^sup>*\<^sup>* s s' \<Longrightarrow> is_worker (tp_pc s t) \<Longrightarrow> is_worker (tp_pc s' t)"
  by (induction rule: rtranclp_induct) (auto intro: worker_stays)

text \<open>Thread \<open>t\<close> of the pool, with the identifier \<open>t + 1\<close>, has left its loop between two states.\<close>

definition thread_ended :: "'a pool \<Rightarrow> 'a pool \<Rightarrow> nat \<Rightarrow> bool" where
  "thread_ended s0 s tid \<longleftrightarrow> (\<exists>t < tid. tid = Suc t \<and> is_worker (tp_pc s0 t) \<and> \<not> is_worker (tp_pc s t))"

text \<open>
  The threads of the pool: after \<open>init\<close> and \<open>startRunning\<close> there are as many as asked for, numbered from 1, and every
  one counts as running and is listed by \<open>check\<close>, also one that could not be created. The destructor never returns:
  as a worker that has started stays in its loop for ever, it waits for the first thread, or joins a thread that does not exist.
\<close>

theorem pool_threads_live:
  assumes "0 < num" "length created = nat num" "tp = startRunning created (threadPool_init (threadPool_new num))"
    and "pool_step\<^sup>*\<^sup>* s0 s"
  shows "map worker_name (tpl_threads tp) = map (\<lambda>i. worker_name (worker_new (int i + 1))) [0..<nat num] \<and>
    (\<forall>th \<in> set (tpl_threads tp). worker_get_status th = RUNNING) \<and>
    tpl_printed (check tp) = tpl_printed tp @ map (\<lambda>i. worker_name (worker_new (int i + 1)) @ '' running ... '') [0..<nat num] \<and>
    (threadPool_destroy (thread_ended s0 s) tp = Blocked \<or> threadPool_destroy (thread_ended s0 s) tp = Crash Uninitialised)"
proof -
  let ?new = "map (\<lambda>i. worker_new (int i + 1)) [0..<nat num]"
  have i: "tpl_threads (threadPool_init (threadPool_new num)) = ?new"
    using init_loop_threads [of "nat num" 0 "threadPool_new num"] by (simp add: threadPool_init_def threadPool_new_def)
  then have th: "tpl_threads tp = map2 (\<lambda>c th. fst (worker_run c th)) created ?new"
    using assms(3) by (simp add: startRunning_def Let_def map2_map_map comp_def case_prod_unfold)
  have n: "map worker_name (tpl_threads tp) = map worker_name ?new"
    unfolding th by (rule nth_equalityI) (simp_all add: assms(2) worker_run_def worker_name_def)
  have r: "\<forall>th \<in> set (tpl_threads tp). worker_get_status th = RUNNING"
    unfolding th by (auto simp: worker_run_def worker_get_status_def)
  have "filter (\<lambda>th. worker_get_status th = RUNNING) (tpl_threads tp) = tpl_threads tp" using r by simp
  then have c: "tpl_printed (check tp) = tpl_printed tp @ map (\<lambda>s. s @ '' running ... '') (map worker_name (tpl_threads tp))"
    by (simp add: check_def)
  moreover have "\<not> thread_ended s0 s tid" for tid
    using workers_stay [OF assms(4)] unfolding thread_ended_def by blast
  then have "join_all (thread_ended s0 s) ths = Blocked \<or> join_all (thread_ended s0 s) ths = Crash Uninitialised" if "ths \<noteq> []" for ths
    using that by (cases ths) (simp_all add: worker_join_def)
  moreover have "tpl_threads tp \<noteq> []" using assms(1,2) th by auto
  ultimately have j: "join_all (thread_ended s0 s) (tpl_threads tp) = Blocked \<or>
      join_all (thread_ended s0 s) (tpl_threads tp) = Crash Uninitialised" by blast
  have "threadPool_destroy (thread_ended s0 s) tp = Blocked \<or> threadPool_destroy (thread_ended s0 s) tp = Crash Uninitialised"
    using j by (auto simp: threadPool_destroy_def)
  with n r c show ?thesis by (simp add: comp_def)
qed

end
