(* ===== verification/PoolDriver.thy ===== *)
theory PoolDriver
  imports ThreadPool Drivers
begin

text \<open>
  The program around the thread pool, \<open>7.10/threadPool/main.cc\<close>: the main thread gets the
  instance, pushes random arithmetic tasks for ever, and the eight workers run and print them.
\<close>

section \<open>The main thread and its pool\<close>

definition pool_task :: "nat \<Rightarrow> nat \<Rightarrow> nat \<Rightarrow> task" where
  "pool_task r1 r2 r3 =
     (let num1 = int (r1 mod 100) + 1; num2 = int (r2 mod 100) + 1; n = r3 mod 5; op = ''+-*/%'' ! n
      in Task_new num1 num2 op)"

text \<open>What a worker prints for a task it has run.\<close>

definition pool_worker_line :: "task \<Rightarrow> string outcome" where
  "pool_worker_line t = bind_out (Task_call t) (\<lambda>t. Done (''Task processing complete : '' @ Task_formatArgs t @ Task_formatResult t))"

text \<open>Threads 0 to 7 are the workers, 8 is the main thread.\<close>

inductive pool_main_step :: "task pool \<Rightarrow> task pool \<Rightarrow> bool" where
  pm_get: "tp_pc s 8 = Tp_Idle \<Longrightarrow> pool_main_step s (tp_goto 8 Gi_Check s)"
| pm_push: "tp_pc s 8 = Tp_Has \<Longrightarrow> pool_main_step s (tp_goto 8 (Pt_Lock (pool_task r1 r2 r3)) s)"
| pm_run_get: "instance_step t (tp_pc s t) s = Done s' \<Longrightarrow> pool_main_step s s'"
| pm_run_push: "pushTask_step t w (tp_pc s t) s = Done s' \<Longrightarrow> wakeup_ok w s \<Longrightarrow> pool_main_step s s'"
| pm_run_worker: "worker_step t (tp_pc s t) s = Done s' \<Longrightarrow> pool_main_step s s'"
| pm_spurious: "tp_pc s t = W_Wait \<Longrightarrow> pool_main_step s (tp_goto t W_Relock s)"

section \<open>What is on its way into the queue\<close>

fun tp_carries :: "'a tp_pc \<Rightarrow> 'a set" where
  "tp_carries (Pt_Lock v) = {v}" | "tp_carries (Pt_Enq v) = {v}" | "tp_carries _ = {}"

definition tp_hands :: "'a pool \<Rightarrow> 'a set" where
  "tp_hands s = (\<Union>t. tp_carries (tp_pc s t))"

definition pool_task_ok :: "task \<Rightarrow> bool" where
  "pool_task_ok t \<longleftrightarrow> (\<exists>r1 r2 r3. t = pool_task r1 r2 r3)"

lemma tp_hands_goto: "tp_hands (tp_goto t p s) \<subseteq> tp_hands s \<union> tp_carries p"
  by (auto simp: tp_hands_def split: if_splits)

lemma tp_carried: "tp_carries (tp_pc s t) \<subseteq> tp_hands s"
  by (auto simp: tp_hands_def)

lemma tp_hands_more [simp]:
  "tp_hands (s\<lparr>tp_mtx := m\<rparr>) = tp_hands s" "tp_hands (s\<lparr>tp_tasks := q\<rparr>) = tp_hands s"
  "tp_hands (s\<lparr>tp_pushed := x\<rparr>) = tp_hands s" "tp_hands (s\<lparr>tp_taken := x\<rparr>) = tp_hands s"
  "tp_hands (s\<lparr>tp_executed := x\<rparr>) = tp_hands s" "tp_hands (s\<lparr>tp_static_mtx := m\<rparr>) = tp_hands s"
  "tp_hands (s\<lparr>tp_instance := b\<rparr>) = tp_hands s" "tp_hands (s\<lparr>tp_made := n\<rparr>) = tp_hands s"
  "tp_hands (s\<lparr>tp_threads := n\<rparr>) = tp_hands s"
  by (simp_all add: tp_hands_def)

lemma tp_hands_wakeup: "tp_hands (threadWakeup w s) \<subseteq> tp_hands s" "tp_pushed (threadWakeup w s) = tp_pushed s"
  using tp_hands_goto [of w W_Relock s] by (auto simp: threadWakeup_def split: tp_pc.splits)

lemmas tp_hands_dests = subsetD [OF tp_hands_goto] subsetD [OF tp_hands_wakeup(1)]

lemma pool_main_pool: "pool_main_step s s' \<Longrightarrow> pool_step s s'"
  by (induction rule: pool_main_step.induct) (auto intro: pool_step.intros)

lemma pool_main_hands:
  assumes "pool_main_step s s'" "v \<in> tp_hands s' \<union> set (tp_pushed s')"
  shows "v \<in> tp_hands s \<union> set (tp_pushed s) \<or> pool_task_ok v"
  using assms
proof (cases rule: pool_main_step.cases)
  case (pm_push r1 r2 r3)
  with assms(2) show ?thesis by (auto simp: pool_task_ok_def dest!: tp_hands_dests)
next
  case (pm_run_get t)
  with assms(2) show ?thesis by (cases "tp_pc s t") (auto split: if_splits dest!: tp_hands_dests)
next
  case (pm_run_push t w)
  with assms(2) tp_carried [of s t] show ?thesis
    by (cases "tp_pc s t") (auto simp: guard_lock_def guard_unlock_def tp_hands_wakeup(2) split: if_splits dest!: tp_hands_dests)
next
  case (pm_run_worker t)
  with assms(2) show ?thesis
    by (cases "tp_pc s t") (auto simp: guard_lock_def guard_unlock_def popTask_def split: if_splits list.splits dest!: tp_hands_dests)
qed (use assms(2) in \<open>auto dest!: tp_hands_dests\<close>)

lemma pool_start_hands: "pool_start s \<Longrightarrow> tp_hands s = {} \<and> tp_pushed s = []"
  by (auto simp: pool_start_def pool_initial_def tp_hands_def split: if_splits)

interpretation poolf: fed_channel pool_step pool_start pool_inv tp_pushed tp_taken tp_tasks pool_main_step tp_hands pool_task_ok
  by unfold_locales (fact pool_main_pool pool_main_hands pool_start_hands)+

text \<open>C35. The program around the pool: under every interleaving and for every sequence of random numbers each task
  that a worker takes has numbers from 1 to 100 and one of the five operators, so that running it never faults, and
  the line printed shows its true result; a task is run at most once for each time it was pushed.\<close>

theorem pool_driver_computes:
  assumes "pool_main_step\<^sup>*\<^sup>* (pool_initial 8) s" "t \<in> set (tp_taken s)"
  shows "(\<exists>x y op. 1 \<le> x \<and> x \<le> 100 \<and> 1 \<le> y \<and> y \<le> 100 \<and> op \<in> set ''+-*/%'' \<and> t = Task_new x y op \<and>
      pool_worker_line t = Done (''Task processing complete : '' @ task_line x op y)) \<and>
    mset (tp_executed s) \<subseteq># mset (tp_pushed s)"
proof
  have "pool_start (pool_initial 8)" by (auto simp: pool_start_def)
  then have "pool_task_ok t" using poolf.taken_ok assms by blast
  then obtain r1 r2 r3 where t: "t = pool_task r1 r2 r3" by (auto simp: pool_task_ok_def)
  let ?x = "int (r1 mod 100) + 1" and ?y = "int (r2 mod 100) + 1" and ?op = "''+-*/%'' ! (r3 mod 5)"
  have r: "1 \<le> ?x" "?x \<le> 100" "1 \<le> ?y" "?y \<le> 100" "?op \<in> set ''+-*/%''"
    using nth_ops [of r3] by simp_all
  have "to_string 0 = ''0''" by code_simp
  then have "pool_worker_line t = Done (''Task processing complete : '' @ task_line ?x ?op ?y)"
    using Task_call_small [OF r] unfolding t
    by (simp add: pool_worker_line_def pool_task_def Let_def)
      (simp add: Task_new_def Task_formatArgs_def Task_formatResult_def task_line_def)
  with r show "\<exists>x y op. 1 \<le> x \<and> x \<le> 100 \<and> 1 \<le> y \<and> y \<le> 100 \<and> op \<in> set ''+-*/%'' \<and> t = Task_new x y op \<and>
      pool_worker_line t = Done (''Task processing complete : '' @ task_line x op y)"
    unfolding t pool_task_def Let_def by blast
  have "pool_inv s" using pool.reach_inv [OF poolf.dsteps [OF assms(1)] pool_initial_inv] .
  then have d: "pool_data s" by (simp add: pool_inv_def)
  have "mset (tp_executed s) \<subseteq># mset (tp_taken s)"
    using d unfolding pool_data_def by (intro mset_subset_eqI) simp
  also have "\<dots> \<subseteq># mset (tp_pushed s)" using d by (simp add: pool_data_def)
  finally show "mset (tp_executed s) \<subseteq># mset (tp_pushed s)" .
qed

text \<open>A run in which no worker waits: each number is the thread that takes the next step.\<close>

fun waits :: "'a tp_pc \<Rightarrow> bool" where
  "waits W_Wait = True" | "waits _ = False"

fun quiet_run :: "nat list \<Rightarrow> task pool \<Rightarrow> task pool option" where
  "quiet_run [] s = Some s"
| "quiet_run (t # ts) s =
     (if list_ex (\<lambda>u. waits (tp_pc s u)) [0..<8] then None
      else (case tp_next t t s of Done s' \<Rightarrow> quiet_run ts s' | _ \<Rightarrow> None))"

lemma quiet_run_reach:
  assumes "pool_main_step\<^sup>*\<^sup>* (pool_initial 8) s" "quiet_run ts s = Some s'"
  shows "pool_main_step\<^sup>*\<^sup>* (pool_initial 8) s'"
  using assms
proof (induction ts arbitrary: s)
  case (Cons t ts)
  then obtain s1 where s1: "tp_next t t s = Done s1" "quiet_run ts s1 = Some s'" "\<not> list_ex (\<lambda>u. waits (tp_pc s u)) [0..<8]"
    by (auto split: if_splits outcome.splits)
  have r: "pool_step\<^sup>*\<^sup>* (pool_initial 8) s" using poolf.dsteps [OF Cons.prems(1)] .
  have cap: "tp_thread_cap s = 8"
    using r by (induction rule: rtranclp_induct) (auto simp: pool_initial_def dest: pool_step_frame)
  have "tp_pc s u \<noteq> W_Wait" for u
    using pool_phase_facts(2) [OF pool_inv_parts(2) [OF pool.reach_inv [OF r pool_initial_inv]], of u] s1(3) cap
    by (cases "u < 8"; cases "tp_pc s u") (auto simp: list_ex_iff dest: bspec [of _ _ u])
  then have "pool_main_step s s1"
    using s1(1) by (auto simp: tp_next_def wakeup_ok_def split: outcome.splits intro: pm_run_get pm_run_push pm_run_worker)
  with Cons.prems(1) Cons.IH s1(2) show ?case by (meson rtranclp.rtrancl_into_rtrancl)
qed simp

lemma pool_demo_task_eval:
  "(case quiet_run (replicate 15 8) (tp_goto 8 Gi_Check (pool_initial 8)) of
      Some s \<Rightarrow> (case tp_pc s 8 of Tp_Has \<Rightarrow> True | _ \<Rightarrow> False) \<and>
        (case quiet_run [8, 8, 8, 8, 0, 0, 0, 0, 0] (tp_goto 8 (Pt_Lock (pool_task 0 0 0)) s) of
           Some s' \<Rightarrow> tp_taken s' = [Task_new 1 1 CHR ''+''] \<and> tp_executed s' = [Task_new 1 1 CHR ''+'']
         | None \<Rightarrow> False)
    | None \<Rightarrow> False)"
  by code_simp

lemma pool_driver_computes_witness:
  "\<exists>s :: task pool. tp_taken s = [Task_new 1 1 CHR ''+''] \<and> mset (tp_executed s) \<subseteq># mset (tp_pushed s) \<and> tp_executed s \<noteq> []"
proof -
  obtain s1 where s1: "quiet_run (replicate 15 8) (tp_goto 8 Gi_Check (pool_initial 8)) = Some s1"
    and has: "tp_pc s1 8 = Tp_Has"
    and c: "case quiet_run [8, 8, 8, 8, 0, 0, 0, 0, 0] (tp_goto 8 (Pt_Lock (pool_task 0 0 0)) s1) of
        Some s' \<Rightarrow> tp_taken s' = [Task_new 1 1 CHR ''+''] \<and> tp_executed s' = [Task_new 1 1 CHR ''+''] | None \<Rightarrow> False"
    using pool_demo_task_eval by (auto split: option.splits tp_pc.splits)
  from c obtain s2 where s2: "quiet_run [8, 8, 8, 8, 0, 0, 0, 0, 0] (tp_goto 8 (Pt_Lock (pool_task 0 0 0)) s1) = Some s2"
    "tp_taken s2 = [Task_new 1 1 CHR ''+'']" "tp_executed s2 = [Task_new 1 1 CHR ''+'']"
    by (auto split: option.splits)
  have "pool_main_step (pool_initial 8) (tp_goto 8 Gi_Check (pool_initial 8))"
    by (rule pm_get) (simp add: pool_initial_def)
  then have "pool_main_step\<^sup>*\<^sup>* (pool_initial 8) s1" using quiet_run_reach [OF _ s1] by blast
  then have "pool_main_step\<^sup>*\<^sup>* (pool_initial 8) (tp_goto 8 (Pt_Lock (pool_task 0 0 0)) s1)"
    using pm_push [OF has] by (rule rtranclp.rtrancl_into_rtrancl)
  from quiet_run_reach [OF this s2(1)] have r: "pool_main_step\<^sup>*\<^sup>* (pool_initial 8) s2" .
  from pool_driver_computes [OF r, of "Task_new 1 1 CHR ''+''"] s2(2) have "mset (tp_executed s2) \<subseteq># mset (tp_pushed s2)" by simp
  with s2(2,3) show ?thesis by (intro exI [of _ s2]) simp
qed

end
