(* ===== verification/CtrlPool25.thy ===== *)
theory CtrlPool25
  imports CtrlProps
begin

text \<open>
  The first process pool, \<open>5.25/CtrlProc\<close>: the parent writes random task numbers to random children
  for ever; a child runs tasks until its pipe ends. Every child keeps the write ends of the pipes made
  before its own. Processes and pipes are those of theory \<open>CtrlProc\<close>.
\<close>

section \<open>Tasks and creation\<close>

text \<open>The table of functions, \<open>Task1\<close> to \<open>Task3\<close> as numbers, and what \<open>Execute\<close> runs: the functions run so far.\<close>

definition func_table :: "int list" where "func_table = [1, 2, 3]"

definition Execute_25 :: "int \<Rightarrow> int list \<Rightarrow> int list" where
  "Execute_25 cmd before = (if 0 \<le> cmd \<and> cmd < int (length func_table) then before @ [func_table ! nat cmd] else before)"

fun create_loop_25 :: "nat \<Rightarrow> create_res list \<Rightarrow> EndPoint list \<Rightarrow> world \<Rightarrow> EndPoint list \<times> world" where
  "create_loop_25 n [] eps w = (eps, w)"
| "create_loop_25 0 (r # rs) eps w = (eps, w)"
| "create_loop_25 (Suc n) (r # rs) eps w =
     (if r = NoPipe then (eps, w)
      else (case fd_pipe (w_pipes w) (w_parent w) of (rfd, wfd, tab) \<Rightarrow>
        let c = \<lparr>ch_tab = tab, ch_fds = [], ch_pipefd = (rfd, wfd), ch_pc = Starting, ch_executed = []\<rparr>;
            pid = (if r = NoFork then - 1 else int (length (w_children w)));
            w1 = w\<lparr>w_parent := fd_close rfd tab, w_pipes := Suc (w_pipes w),
                   w_children := w_children w @ (if r = NoFork then [] else [c])\<rparr>
        in create_loop_25 n rs (eps @ [\<lparr>ep_child_pid = pid, ep_write_id = wfd\<rparr>]) w1))"

definition CreatProcesses_25 :: "create_res list \<Rightarrow> EndPoint list \<times> world" where
  "CreatProcesses_25 rs = create_loop_25 CHILD_NUM rs [] world0"

section \<open>Children and parent\<close>

text \<open>A step of a child: it sets up its input, then \<open>WaitCmd\<close> reads commands until the pipe ends.\<close>

definition child_step_25 :: "nat \<Rightarrow> world \<Rightarrow> world option" where
  "child_step_25 i w =
     (let c = w_children w ! i; put = (\<lambda>c. w\<lparr>w_children := (w_children w)[i := c]\<rparr>)
      in case ch_pc c of
        Starting \<Rightarrow> Some (put (c\<lparr>ch_tab := child_setup_25 c, ch_pc := Reading 0\<rparr>))
      | Reading cnt \<Rightarrow>
          (case map_of (ch_tab c) 0 of
             Some (Rd q) \<Rightarrow>
               (case w_queue w q of
                  cmd # cmds \<Rightarrow> Some ((put (c\<lparr>ch_executed := Execute_25 cmd (ch_executed c)\<rparr>))\<lparr>w_queue := (w_queue w)(q := cmds)\<rparr>)
                | [] \<Rightarrow> (if open_end (Wr q) w then None else Some (put (child_gone c))))
           | _ \<Rightarrow> Some (put (child_gone c)))
      | Gone \<Rightarrow> None)"

text \<open>A round of the parent; \<open>r1\<close> and \<open>r2\<close> are the numbers from \<open>rand\<close>. It gives the child and the task it chose.\<close>

definition main_round_25 :: "EndPoint list \<Rightarrow> nat \<Rightarrow> nat \<Rightarrow> world \<Rightarrow> ((nat \<times> int) \<times> world) outcome" where
  "main_round_25 eps r1 r2 w =
     (if eps = [] then Crash DivideByZero
      else (let tasknum = int r1 mod TASK_NUM; procs = r2 mod length eps
            in case parent_step (AWrite (ep_write_id (eps ! procs)) tasknum) w of
                 Some w' \<Rightarrow> Done ((procs, tasknum), w')
               | None \<Rightarrow> Blocked))"

record pool25 =
  p25_world :: world
  p25_sent :: "(nat \<times> int) list"

inductive pool25_step :: "EndPoint list \<Rightarrow> pool25 \<Rightarrow> pool25 \<Rightarrow> bool" for eps where
  p25_main: "w_parent (p25_world s) \<noteq> [] \<Longrightarrow> main_round_25 eps r1 r2 (p25_world s) = Done (cmd, w) \<Longrightarrow>
     pool25_step eps s \<lparr>p25_world = w, p25_sent = p25_sent s @ [cmd]\<rparr>"
| p25_child: "i < length (w_children (p25_world s)) \<Longrightarrow> child_step_25 i (p25_world s) = Some w \<Longrightarrow>
     pool25_step eps s (s\<lparr>p25_world := w\<rparr>)"
| p25_killed: "pool25_step eps s (s\<lparr>p25_world := (p25_world s)\<lparr>w_parent := []\<rparr>\<rparr>)"

section \<open>The processes that are created\<close>

definition child25 :: "nat \<Rightarrow> child" where
  "child25 i = \<lparr>ch_tab = (int i + 4, Wr i) # (3, Rd i) # tab_before i, ch_fds = [],
     ch_pipefd = (3, int i + 4), ch_pc = Starting, ch_executed = []\<rparr>"

definition eps25 :: "nat \<Rightarrow> EndPoint list" where
  "eps25 n = map (\<lambda>i. \<lparr>ep_child_pid = int i, ep_write_id = int i + 4\<rparr>) [0..<n]"

definition world25 :: "nat \<Rightarrow> world" where
  "world25 n = \<lparr>w_parent = tab_before n, w_children = map child25 [0..<n], w_pipes = n, w_queue = (\<lambda>_. [])\<rparr>"

lemma create_step_25:
  assumes "i < 5"
  shows "create_loop_25 (Suc n) (Created # rs) (eps25 i) (world25 i) = create_loop_25 n rs (eps25 (Suc i)) (world25 (Suc i))"
proof -
  have "i \<in> set [0..<5]" using assms by simp
  with pipe_five have "fd_pipe i (tab_before i) = (3, int i + 4, (int i + 4, Wr i) # (3, Rd i) # tab_before i)"
    "fd_close 3 ((int i + 4, Wr i) # (3, Rd i) # tab_before i) = tab_before (Suc i)"
    unfolding list_all_iff by blast+
  then show ?thesis by (simp add: world25_def eps25_def child25_def)
qed

lemma create_25:
  "i + n \<le> 5 \<Longrightarrow> create_loop_25 (n + m) (replicate n Created @ rs) (eps25 i) (world25 i) =
    create_loop_25 m rs (eps25 (i + n)) (world25 (i + n))"
proof (induction n arbitrary: i)
  case (Suc n)
  then have "i < 5" by simp
  from create_step_25 [OF this] Suc.IH [of "Suc i"] Suc.prems show ?case by simp
qed simp

lemma CreatProcesses_25_eq:
  assumes "n = 5 \<and> rs = [] \<or> n < 5 \<and> rs = [NoPipe]"
  shows "CreatProcesses_25 (replicate n Created @ rs) = (eps25 n, world25 n)"
proof -
  have z: "eps25 0 = []" "world25 0 = world0" by (simp_all add: eps25_def world25_def world0_def tab_before_def)
  obtain m where m: "CHILD_NUM = n + m" "n = 5 \<longrightarrow> m = 0" "n < 5 \<longrightarrow> 0 < m"
    using assms by (metis CHILD_NUM_def add_0_right le_add_diff_inverse less_or_eq_imp_le zero_less_diff diff_self_eq_0)
  from create_25 [of 0 n m rs] assms m show ?thesis
    unfolding CreatProcesses_25_def m(1) z by (cases m) auto
qed

text \<open>Which ends the children hold before and after the set-up.\<close>

lemma child25_facts:
  "list_all (\<lambda>i. map_of (child_setup_25 (child25 i)) 0 = Some (Rd i) \<and> has_end (Rd i) (child_setup_25 (child25 i)) \<and>
     has_end (Rd i) (ch_tab (child25 i)) \<and>
     list_all (\<lambda>q. (has_end (Wr q) (ch_tab (child25 i)) \<longleftrightarrow> q \<le> i) \<and> (has_end (Wr q) (child_setup_25 (child25 i)) \<longleftrightarrow> q < i)) [0..<5]) [0..<5]"
  by code_simp

lemma child25D:
  assumes "i < 5"
  shows "map_of (child_setup_25 (child25 i)) 0 = Some (Rd i)" "has_end (Rd i) (child_setup_25 (child25 i))" "has_end (Rd i) (ch_tab (child25 i))"
    "q < 5 \<Longrightarrow> has_end (Wr q) (ch_tab (child25 i)) \<longleftrightarrow> q \<le> i" "q < 5 \<Longrightarrow> has_end (Wr q) (child_setup_25 (child25 i)) \<longleftrightarrow> q < i"
proof -
  have "i \<in> set [0..<5]" "q < 5 \<Longrightarrow> q \<in> set [0..<5]" using assms by simp_all
  with child25_facts show "map_of (child_setup_25 (child25 i)) 0 = Some (Rd i)" "has_end (Rd i) (child_setup_25 (child25 i))" "has_end (Rd i) (ch_tab (child25 i))"
    "q < 5 \<Longrightarrow> has_end (Wr q) (ch_tab (child25 i)) \<longleftrightarrow> q \<le> i" "q < 5 \<Longrightarrow> has_end (Wr q) (child_setup_25 (child25 i)) \<longleftrightarrow> q < i"
    unfolding list_all_iff by blast+
qed

lemma parent_ends25:
  "list_all (\<lambda>n. list_all (\<lambda>p. p < n \<longrightarrow> map_of (tab_before n) (int p + 4) = Some (Wr p)) [0..<5]) [0..<6]"
  by code_simp

lemma parent_end25: "p < n \<Longrightarrow> n \<le> 5 \<Longrightarrow> map_of (tab_before n) (int p + 4) = Some (Wr p)"
  using parent_ends25 unfolding list_all_iff by (metis atLeastLessThan_iff le0 le_imp_less_Suc order_less_le_trans set_upt eval_nat_numeral(2) semiring_norm(28) semiring_norm(26))

lemma tab_before_ne: "tab_before n \<noteq> []"
  by (simp add: tab_before_def)

lemma tab_before_Wr: "has_end (Wr q) (tab_before n) \<longleftrightarrow> q < n"
  by (auto simp: has_end_def tab_before_def list_ex_iff)

section \<open>The invariant\<close>

fun tab25 :: "nat \<Rightarrow> child_pc \<Rightarrow> fd_table" where
  "tab25 i Starting = ch_tab (child25 i)" | "tab25 i (Reading k) = child_setup_25 (child25 i)" | "tab25 i Gone = []"

text \<open>The numbers sent to child \<open>i\<close>.\<close>

definition sent_to25 :: "nat \<Rightarrow> (nat \<times> int) list \<Rightarrow> int list" where
  "sent_to25 i sent = map snd (filter (\<lambda>x. fst x = i) sent)"

text \<open>Task number \<open>k\<close> is function \<open>k + 1\<close>.\<close>

definition child_ok25 :: "pool25 \<Rightarrow> nat \<Rightarrow> bool" where
  "child_ok25 s i \<longleftrightarrow> (let w = p25_world s; c = w_children w ! i in
     ch_tab c = tab25 i (ch_pc c) \<and> ch_pipefd c = (3, int i + 4) \<and>
     (ch_pc c = Gone \<longrightarrow> w_parent w = [] \<and> w_queue w i = []) \<and>
     ch_executed c @ map (\<lambda>x. x + 1) (w_queue w i) = map (\<lambda>x. x + 1) (sent_to25 i (p25_sent s)) \<and>
     (\<forall>x \<in> set (w_queue w i). 0 \<le> x \<and> x < 3))"

definition inv25 :: "nat \<Rightarrow> pool25 \<Rightarrow> bool" where
  "inv25 n s \<longleftrightarrow> length (w_children (p25_world s)) = n \<and>
     (w_parent (p25_world s) = tab_before n \<or> w_parent (p25_world s) = []) \<and> (\<forall>i < n. child_ok25 s i)"

lemma Execute_25_range: "0 \<le> x \<Longrightarrow> x < 3 \<Longrightarrow> Execute_25 x before = before @ [x + 1]"
proof -
  assume "0 \<le> x" "x < 3"
  then have "x = 0 \<or> x = 1 \<or> x = 2" by linarith
  then show ?thesis by (auto simp: Execute_25_def func_table_def)
qed

lemma setup_pipefd: "ch_tab c = ch_tab (child25 i) \<Longrightarrow> ch_pipefd c = (3, int i + 4) \<Longrightarrow> child_setup_25 c = child_setup_25 (child25 i)"
  by (simp add: child_setup_25_def child25_def)

text \<open>The write end of pipe \<open>q\<close> is held by the parent, by later children and by child \<open>q\<close> before its set-up.\<close>

lemma open_Wr25:
  assumes "inv25 n s" "n \<le> 5" "q < n"
  shows "open_end (Wr q) (p25_world s) \<longleftrightarrow> w_parent (p25_world s) \<noteq> [] \<or>
    (\<exists>i < n. ch_pc (w_children (p25_world s) ! i) = Starting \<and> q \<le> i \<or>
       (\<exists>k. ch_pc (w_children (p25_world s) ! i) = Reading k) \<and> q < i)"
proof -
  have p: "has_end (Wr q) (w_parent (p25_world s)) \<longleftrightarrow> w_parent (p25_world s) \<noteq> []"
    using assms(1,3) by (auto simp: inv25_def tab_before_Wr)
  have "has_end (Wr q) (ch_tab (w_children (p25_world s) ! i)) \<longleftrightarrow>
      ch_pc (w_children (p25_world s) ! i) = Starting \<and> q \<le> i \<or> (\<exists>k. ch_pc (w_children (p25_world s) ! i) = Reading k) \<and> q < i"
    if "i < n" for i
    using assms child25D(4,5) [of i q] that
    by (cases "ch_pc (w_children (p25_world s) ! i)") (auto simp: inv25_def child_ok25_def Let_def)
  then show ?thesis
    using assms(1) p by (auto simp: open_end_def list_ex_length inv25_def)
qed

lemma main_round25:
  assumes "inv25 n s" "n \<le> 5" "0 < n" "w_parent (p25_world s) \<noteq> []"
  shows "main_round_25 (eps25 n) r1 r2 (p25_world s) = Done ((r2 mod n, int r1 mod 3), (p25_world s)
    \<lparr>w_queue := (w_queue (p25_world s))(r2 mod n := w_queue (p25_world s) (r2 mod n) @ [int r1 mod 3])\<rparr>)"
proof -
  let ?p = "r2 mod n"
  have p: "?p < n" using assms(3) by simp
  have tab: "w_parent (p25_world s) = tab_before n" using assms(1,4) by (auto simp: inv25_def)
  have l: "length (eps25 n) = n" "eps25 n \<noteq> []" "ep_write_id (eps25 n ! ?p) = int ?p + 4"
    using p assms(3) by (simp_all add: eps25_def)
  have ok: "child_ok25 s ?p" using assms(1) p by (simp add: inv25_def)
  then have "ch_pc (w_children (p25_world s) ! ?p) \<noteq> Gone" using assms(4) by (auto simp: child_ok25_def Let_def)
  moreover have "?p < 5" using p assms(2) by simp
  ultimately have "has_end (Rd ?p) (ch_tab (w_children (p25_world s) ! ?p))"
    using ok child25D(2,3) [of ?p]
    by (cases "ch_pc (w_children (p25_world s) ! ?p)") (auto simp: child_ok25_def Let_def)
  moreover have "length (w_children (p25_world s)) = n" using assms(1) by (simp add: inv25_def)
  ultimately have "open_end (Rd ?p) (p25_world s)" using p by (auto simp: open_end_def list_ex_length)
  then show ?thesis
    using l parent_end25 [OF p assms(2)] by (simp add: main_round_25_def parent_step_def tab TASK_NUM_def Let_def)
qed

lemma sent_to_snoc: "sent_to25 i (sent @ [(j, x)]) = sent_to25 i sent @ (if j = i then [x] else [])"
  by (simp add: sent_to25_def)

lemma child_ok25_other:
  assumes "child_ok25 s j" "w_children (p25_world s') ! j = w_children (p25_world s) ! j"
    "w_parent (p25_world s') = w_parent (p25_world s)" "w_queue (p25_world s') j = w_queue (p25_world s) j" "p25_sent s' = p25_sent s"
  shows "child_ok25 s' j"
  using assms by (simp add: child_ok25_def Let_def)

lemma inv25_child:
  assumes "inv25 n s" "n \<le> 5" "i < n" "child_step_25 i (p25_world s) = Some w"
  shows "inv25 n (s\<lparr>p25_world := w\<rparr>)"
proof -
  let ?w = "p25_world s"
  let ?c = "w_children ?w ! i"
  have len: "length (w_children ?w) = n" using assms(1) by (simp add: inv25_def)
  have ok: "child_ok25 s i" using assms(1,3) by (simp add: inv25_def)
  have i5: "i < 5" using assms(2,3) by simp
  have at: "map_of (ch_tab ?c) 0 = Some (Rd i)" if "ch_pc ?c = Reading k" for k
    using ok that child25D(1) [OF i5] by (simp add: child_ok25_def Let_def)
  obtain c q where w: "w = ?w\<lparr>w_children := (w_children ?w)[i := c], w_queue := (w_queue ?w)(i := q)\<rparr>"
    and c: "child_ok25 (s\<lparr>p25_world := w\<rparr>) i"
  proof (cases "ch_pc ?c")
    case Starting
    have set: "child_setup_25 ?c = child_setup_25 (child25 i)"
      using ok Starting by (intro setup_pipefd) (simp_all add: child_ok25_def Let_def)
    have "?w\<lparr>w_children := (w_children ?w)[i := ?c\<lparr>ch_tab := child_setup_25 ?c, ch_pc := Reading 0\<rparr>]\<rparr> = w"
      using assms(4) Starting by (simp add: child_step_25_def Let_def)
    then have w: "w = ?w\<lparr>w_children := (w_children ?w)[i := ?c\<lparr>ch_tab := child_setup_25 ?c, ch_pc := Reading 0\<rparr>],
        w_queue := (w_queue ?w)(i := w_queue ?w i)\<rparr>" by (intro world.equality) (simp_all flip: \<open>_ = w\<close>)
    show ?thesis by (rule that [OF w]) (use ok set assms(3) len in \<open>simp add: child_ok25_def Let_def w\<close>)
  next
    case (Reading k)
    show ?thesis
    proof (cases "w_queue ?w i")
      case (Cons x xs)
      have x: "0 \<le> x" "x < 3" using ok Cons by (simp_all add: child_ok25_def Let_def)
      have w: "w = ?w\<lparr>w_children := (w_children ?w)[i := ?c\<lparr>ch_executed := ch_executed ?c @ [x + 1]\<rparr>], w_queue := (w_queue ?w)(i := xs)\<rparr>"
        using assms(4) Reading Cons at [OF Reading] by (simp add: child_step_25_def Let_def Execute_25_range [OF x])
      show ?thesis
        by (rule that [OF w]) (use ok Reading Cons assms(3) len in \<open>simp add: child_ok25_def Let_def w\<close>)
    next
      case Nil
      have eof: "\<not> open_end (Wr i) ?w" using assms(4) Reading Nil at [OF Reading] by (simp add: child_step_25_def Let_def split: if_splits)
      then have par: "w_parent ?w = []" using open_Wr25 [OF assms(1-3)] by blast
      have "?w\<lparr>w_children := (w_children ?w)[i := child_gone ?c]\<rparr> = w"
        using assms(4) Reading Nil at [OF Reading] eof by (simp add: child_step_25_def Let_def)
      then have w: "w = ?w\<lparr>w_children := (w_children ?w)[i := child_gone ?c], w_queue := (w_queue ?w)(i := [])\<rparr>"
        using Nil by (intro world.equality) (simp_all add: fun_upd_idem flip: \<open>_ = w\<close>)
      show ?thesis
        by (rule that [OF w]) (use ok Nil par assms(3) len in \<open>simp add: child_ok25_def Let_def w child_gone_def\<close>)
    qed
  next
    case Gone
    with assms(4) show ?thesis by (simp add: child_step_25_def Let_def)
  qed
  have "child_ok25 (s\<lparr>p25_world := w\<rparr>) j" if "j < n" for j
  proof (cases "j = i")
    case False
    have "child_ok25 s j" using assms(1) that by (simp add: inv25_def)
    then show ?thesis by (rule child_ok25_other) (use False in \<open>simp_all add: w\<close>)
  qed (use c in simp)
  then show ?thesis using assms(1) len by (simp add: inv25_def w)
qed

lemma inv25_step:
  assumes "pool25_step (eps25 n) s s'" "inv25 n s" "n \<le> 5"
  shows "inv25 n s'"
  using assms(1)
proof cases
  case (p25_main r1 r2 cmd w)
  have n: "0 < n" using p25_main(3) by (cases n) (simp_all add: main_round_25_def eps25_def)
  let ?p = "r2 mod n"
  have e: "cmd = (?p, int r1 mod 3)" "w = (p25_world s)\<lparr>w_queue := (w_queue (p25_world s))(?p := w_queue (p25_world s) ?p @ [int r1 mod 3])\<rparr>"
    using main_round25 [OF assms(2,3) n p25_main(2), of r1 r2] p25_main(3) by simp_all
  have "child_ok25 s' j" if "j < n" for j
  proof -
    have "child_ok25 s j" using assms(2) that by (simp add: inv25_def)
    then show ?thesis using p25_main(2) by (auto simp: p25_main(1) e child_ok25_def Let_def sent_to_snoc)
  qed
  then show ?thesis using assms(2) by (simp add: inv25_def p25_main(1) e)
next
  case (p25_child i w)
  with assms(2) inv25_child [OF assms(2,3)] show ?thesis by (simp add: inv25_def)
next
  case p25_killed
  with assms(2) show ?thesis by (auto simp: inv25_def child_ok25_def Let_def)
qed

lemma inv25_start: "inv25 n \<lparr>p25_world = world25 n, p25_sent = []\<rparr>"
  by (simp add: inv25_def world25_def child_ok25_def Let_def sent_to25_def) (simp add: child25_def)

lemma inv25_reach:
  assumes "(pool25_step (eps25 n))\<^sup>*\<^sup>* \<lparr>p25_world = world25 n, p25_sent = []\<rparr> s" "n \<le> 5"
  shows "inv25 n s"
  using assms(1) by (induction rule: rtranclp_induct) (auto intro: inv25_start inv25_step assms(2))

text \<open>After the parent's end the last child that is left can always go on.\<close>

lemma last_child_goes:
  assumes "inv25 n s" "n \<le> 5" "w_parent (p25_world s) = []" "i < n" "ch_pc (w_children (p25_world s) ! i) \<noteq> Gone"
  shows "\<exists>j < n. child_step_25 j (p25_world s) \<noteq> None"
proof -
  let ?w = "p25_world s"
  let ?P = "\<lambda>j. j < n \<and> ch_pc (w_children ?w ! j) \<noteq> Gone"
  define j where "j = Max {j. ?P j}"
  have fin: "finite {j. ?P j}" by simp
  have "{j. ?P j} \<noteq> {}" using assms(4,5) by blast
  then have "j \<in> {j. ?P j}" unfolding j_def by (rule Max_in [OF fin])
  then have j: "j < n" "ch_pc (w_children ?w ! j) \<noteq> Gone" by blast+
  have later: "ch_pc (w_children ?w ! k) = Gone" if "j < k" "k < n" for k
    using Max_ge [OF fin, of k] that by (fastforce simp: j_def)
  show ?thesis
  proof (cases "ch_pc (w_children ?w ! j)")
    case Starting
    then show ?thesis using j(1) by (intro exI [of _ j]) (simp add: child_step_25_def Let_def)
  next
    case (Reading k)
    have "child_ok25 s j" using assms(1) j(1) by (simp add: inv25_def)
    then have at: "map_of (ch_tab (w_children ?w ! j)) 0 = Some (Rd j)"
      using Reading child25D(1) [of j] j(1) assms(2) by (simp add: child_ok25_def Let_def)
    have "\<not> open_end (Wr j) ?w"
    proof
      assume "open_end (Wr j) ?w"
      then obtain i where i: "i < n" "ch_pc (w_children ?w ! i) = Starting \<and> j \<le> i \<or> (\<exists>k. ch_pc (w_children ?w ! i) = Reading k) \<and> j < i"
        using open_Wr25 [OF assms(1,2) j(1)] assms(3) by blast
      then have "j < i" using Reading by (cases "i = j") auto
      with later [OF this i(1)] i(2) show False by auto
    qed
    with Reading at j(1) show ?thesis
      by (intro exI [of _ j]) (simp add: child_step_25_def Let_def split: list.split)
  qed (use j(2) in simp)
qed

section \<open>What the pool does\<close>



end
