(* ===== verification/Processes.thy ===== *)
theory Processes
  imports CppString Steps
begin

text \<open>
  Programs about child processes: \<open>6.18/waithandler/wait.cc\<close>, which reaps its children in the handler
  of \<open>SIGCHLD\<close>, \<open>sigchld.cc\<close>, which lets the system do it, \<open>6.11/Core/core.cc\<close>, which prints how a
  child ended, and \<open>6.9/mykill\<close>.
\<close>

unbundle bit_operations_syntax

section \<open>Reaping in the handler of \<open>SIGCHLD\<close>\<close>

text \<open>A child counts its seconds down and exits; until it is waited for it is a zombie.\<close>

datatype rp_child = Unborn | Alive nat | Zombie | Reaped

text \<open>Where the handler is; while it runs \<open>SIGCHLD\<close> is blocked and \<open>main\<close> stands still.\<close>

datatype rp_handler = H_None | H_Enter | H_Wait

record reaper =
  rp_forked :: nat                    \<comment> \<open>how many times \<open>main\<close> has called \<open>fork\<close>\<close>
  rp_child :: "nat \<Rightarrow> rp_child"
  rp_handler :: rp_handler
  rp_pending :: bool                  \<comment> \<open>whether \<open>SIGCHLD\<close> is pending\<close>
  rp_waited :: "nat list"             \<comment> \<open>the children the handler has reported\<close>

definition reaper_start :: reaper where
  "reaper_start = \<lparr>rp_forked = 0, rp_child = (\<lambda>_. Unborn), rp_handler = H_None, rp_pending = False, rp_waited = []\<rparr>"

definition set_child :: "nat \<Rightarrow> rp_child \<Rightarrow> reaper \<Rightarrow> reaper" where
  "set_child i c s = s\<lparr>rp_child := (rp_child s)(i := c)\<rparr>"

text \<open>The loop of \<open>main\<close>; \<open>ok\<close>: \<open>fork\<close> succeeds. Afterwards \<open>main\<close> only sleeps.\<close>

definition fork_round :: "bool \<Rightarrow> reaper \<Rightarrow> reaper outcome" where
  "fork_round ok s =
     (if rp_forked s < 10
      then Done ((if ok then set_child (rp_forked s) (Alive 5) s else s)\<lparr>rp_forked := rp_forked s + 1\<rparr>)
      else Blocked)"

definition child_round :: "nat \<Rightarrow> reaper \<Rightarrow> reaper outcome" where
  "child_round i s =
     (case rp_child s i of
        Alive (Suc cnt) \<Rightarrow> Done (set_child i (Alive cnt) s)
      | Alive 0 \<Rightarrow> Done ((set_child i Zombie s)\<lparr>rp_pending := True\<rparr>)
      | _ \<Rightarrow> Blocked)"

text \<open>
  A step of the handler: it prints and sleeps, then waits for children, \<open>i\<close> the one that \<open>waitpid\<close>
  returns, until there is none to wait for.
\<close>

definition no_children :: "reaper \<Rightarrow> bool" where
  "no_children s \<longleftrightarrow> list_all (\<lambda>i. rp_child s i = Unborn \<or> rp_child s i = Reaped) [0..<10]"

fun handler_round :: "nat \<Rightarrow> rp_handler \<Rightarrow> reaper \<Rightarrow> reaper outcome" where
  "handler_round i H_None s = Blocked"
| "handler_round i H_Enter s = Done (s\<lparr>rp_handler := H_Wait\<rparr>)"
| "handler_round i H_Wait s =
     (if rp_child s i = Zombie then Done ((set_child i Reaped s)\<lparr>rp_waited := rp_waited s @ [i]\<rparr>)
      else if no_children s then Done (s\<lparr>rp_handler := H_None\<rparr>) else Blocked)"

inductive reaper_step :: "reaper \<Rightarrow> reaper \<Rightarrow> bool" where
  rp_fork: "rp_handler s = H_None \<Longrightarrow> fork_round ok s = Done s' \<Longrightarrow> reaper_step s s'"
| rp_child_runs: "child_round i s = Done s' \<Longrightarrow> reaper_step s s'"
| rp_deliver: "rp_handler s = H_None \<Longrightarrow> rp_pending s \<Longrightarrow> reaper_step s (s\<lparr>rp_pending := False, rp_handler := H_Enter\<rparr>)"
| rp_handle: "i < 10 \<Longrightarrow> handler_round i (rp_handler s) s = Done s' \<Longrightarrow> reaper_step s s'"

definition reaper_inv :: "reaper \<Rightarrow> bool" where
  "reaper_inv s \<longleftrightarrow> rp_forked s \<le> 10 \<and> (\<forall>i. rp_forked s \<le> i \<longrightarrow> rp_child s i = Unborn) \<and>
     (\<forall>i. rp_child s i = Zombie \<longrightarrow> rp_pending s \<or> rp_handler s \<noteq> H_None) \<and>
     distinct (rp_waited s) \<and> (\<forall>i. i \<in> set (rp_waited s) \<longleftrightarrow> rp_child s i = Reaped)"

lemma reaper_inv_step: "reaper_inv s \<Longrightarrow> reaper_step s s' \<Longrightarrow> reaper_inv s'"
proof (rotate_tac, induction rule: reaper_step.induct)
  case (rp_fork s ok s')
  then show ?case by (auto simp: reaper_inv_def fork_round_def set_child_def split: if_splits)
next
  case (rp_child_runs i s s')
  then show ?case
    by (cases "rp_child s i") (auto simp: reaper_inv_def child_round_def set_child_def split: nat.splits if_splits)
next
  case (rp_deliver s)
  then show ?case by (simp add: reaper_inv_def)
next
  case (rp_handle i s s')
  have z: "\<not> no_children s" if "rp_child s j = Zombie" "reaper_inv s" for j
  proof -
    have "\<not> rp_forked s \<le> j" using that unfolding reaper_inv_def by force
    then have "j < 10" using that(2) by (simp add: reaper_inv_def)
    then show ?thesis using that(1) by (auto simp: no_children_def list_all_iff intro!: bexI [of _ j])
  qed
  show ?case
  proof (cases "rp_handler s")
    case H_Wait
    with rp_handle z show ?thesis by (auto simp: reaper_inv_def set_child_def split: if_splits)
  qed (use rp_handle in \<open>auto simp: reaper_inv_def\<close>)
qed

text \<open>No run is endless: what is left to do, counted in steps.\<close>

fun child_weight :: "rp_child \<Rightarrow> nat" where
  "child_weight (Alive n) = n + 5" | "child_weight Zombie = 1" | "child_weight _ = 0"

fun handler_weight :: "rp_handler \<Rightarrow> nat" where
  "handler_weight H_None = 0" | "handler_weight H_Enter = 2" | "handler_weight H_Wait = 1"

definition reaper_measure :: "reaper \<Rightarrow> nat" where
  "reaper_measure s = 11 * (10 - rp_forked s) + (\<Sum>i < 10. child_weight (rp_child s i)) + (if rp_pending s then 3 else 0) +
     handler_weight (rp_handler s)"

lemmas child_weights = sum_weight_update [of _ 10 child_weight]

lemma reaper_measure_step:
  assumes "reaper_inv s" "reaper_step s s'"
  shows "reaper_measure s' < reaper_measure s"
  using assms(2)
proof cases
  case (rp_fork ok)
  then have f: "rp_forked s < 10" by (simp add: fork_round_def split: if_splits)
  then have u: "rp_child s (rp_forked s) = Unborn" using assms(1) by (simp add: reaper_inv_def)
  have "11 * (10 - rp_forked s) = 11 + 11 * (10 - (rp_forked s + 1))" using f by simp
  then show ?thesis
    using rp_fork f child_weights [OF f, of "rp_child s" "Alive 5"] u
    by (cases ok) (auto simp: fork_round_def reaper_measure_def set_child_def)
next
  case (rp_child_runs i)
  have "rp_child s i \<noteq> Unborn" using rp_child_runs by (auto simp: child_round_def)
  then have i: "i < 10" using assms(1) by (metis (full_types) reaper_inv_def linorder_not_less order_trans)
  from rp_child_runs obtain n where n: "rp_child s i = Alive n" by (cases "rp_child s i") (simp_all add: child_round_def)
  show ?thesis
    using rp_child_runs n child_weights [OF i, of "rp_child s" Zombie] child_weights [OF i, of "rp_child s" "Alive (n - 1)"]
    by (cases n) (auto simp: child_round_def reaper_measure_def set_child_def)
next
  case rp_deliver
  then show ?thesis by (simp add: reaper_measure_def)
next
  case (rp_handle i)
  then show ?thesis
    using child_weights [OF rp_handle(1), of "rp_child s" Reaped]
    by (cases "rp_handler s") (auto simp: reaper_measure_def set_child_def split: if_splits)
qed

interpretation reaping: measured_steps reaper_step reaper_inv reaper_measure
  by unfold_locales (fact reaper_inv_step reaper_measure_step)+

lemma reaper_start_inv: "reaper_inv reaper_start" "reaper_measure reaper_start = 110"
  by (simp_all add: reaper_inv_def reaper_start_def reaper_measure_def)

definition reaper_rest :: "reaper \<Rightarrow> bool" where
  "reaper_rest s \<longleftrightarrow> \<not> (\<exists>s'. reaper_step s s')"

lemma reaper_rest_over:
  assumes "reaper_inv s" "reaper_rest s"
  shows "rp_forked s = 10 \<and> rp_handler s = H_None \<and> \<not> rp_pending s \<and> (\<forall>i. rp_child s i = Unborn \<or> rp_child s i = Reaped)"
proof -
  have no: "\<not> reaper_step s s'" for s' using assms(2) by (simp add: reaper_rest_def)
  have cr: "child_round i s \<noteq> Done s'" and hr: "i < 10 \<Longrightarrow> handler_round i (rp_handler s) s \<noteq> Done s'"
    and fr: "rp_handler s = H_None \<Longrightarrow> fork_round True s \<noteq> Done s'" for i s'
    using no rp_child_runs rp_handle rp_fork by blast+
  have dead: "rp_child s i \<noteq> Alive k" for i k
  proof
    assume "rp_child s i = Alive k"
    then have "\<exists>s'. child_round i s = Done s'" by (cases k) (simp_all add: child_round_def)
    with cr show False by blast
  qed
  have h: "rp_handler s = H_None"
  proof (cases "rp_handler s")
    case H_Enter
    then show ?thesis using hr [of 0 "s\<lparr>rp_handler := H_Wait\<rparr>"] by simp
  next
    case H_Wait
    show ?thesis
    proof (cases "\<exists>i < 10. rp_child s i = Zombie")
      case True
      then obtain i where "i < 10" "rp_child s i = Zombie" by blast
      then show ?thesis
        using hr [of i "(set_child i Reaped s)\<lparr>rp_waited := rp_waited s @ [i]\<rparr>"] H_Wait by simp
    next
      case False
      have "rp_child s i = Unborn \<or> rp_child s i = Reaped" if "i < 10" for i
        using that False dead [of i] by (cases "rp_child s i") auto
      then have "no_children s" by (simp add: no_children_def list_all_iff)
      moreover have "rp_child s 0 \<noteq> Zombie" using False by simp
      ultimately show ?thesis using hr [of 0 "s\<lparr>rp_handler := H_None\<rparr>"] H_Wait by simp
    qed
  qed
  moreover have p: "\<not> rp_pending s" using no rp_deliver [OF h] by blast
  moreover have "rp_forked s = 10"
    using fr [OF h, of "(set_child (rp_forked s) (Alive 5) s)\<lparr>rp_forked := rp_forked s + 1\<rparr>"] assms(1)
    by (simp add: fork_round_def reaper_inv_def split: if_splits)
  moreover have "rp_child s i = Unborn \<or> rp_child s i = Reaped" for i
    using assms(1) p h dead [of i] by (cases "rp_child s i") (auto simp: reaper_inv_def)
  ultimately show ?thesis by blast
qed

text \<open>C37. The program that reaps in its handler, for every scheduling, every failure of \<open>fork\<close> and however many
  children end at once, although their signals are not counted: no child is reported twice, every run ends
  after at most 110 steps, and where it ends all ten calls of \<open>fork\<close> are made, the handler has
  returned, no zombie is left and every child that was born has been waited for.\<close>

theorem reaper_reaps:
  assumes "(reaper_step ^^ n) reaper_start s"
  shows "n \<le> 110 \<and> distinct (rp_waited s) \<and>
    (reaper_rest s \<longrightarrow> rp_forked s = 10 \<and> rp_handler s = H_None \<and> \<not> rp_pending s \<and>
      (\<forall>i. rp_child s i = Unborn \<or> rp_child s i = Reaped) \<and> (\<forall>i. i \<in> set (rp_waited s) \<longleftrightarrow> rp_child s i = Reaped))"
proof -
  have inv: "reaper_inv s" "n + reaper_measure s \<le> 110"
    using reaping.run_bounded [OF assms reaper_start_inv(1)] by (simp_all add: reaper_start_inv(2))
  then show ?thesis using reaper_rest_over [OF inv(1)] by (auto simp: reaper_inv_def)
qed

text \<open>A run to its end.\<close>

lemma reaper_reaps_witness:
  "\<exists>s. reaper_step\<^sup>*\<^sup>* reaper_start s \<and> rp_forked s = 10 \<and> rp_handler s = H_None \<and> (\<forall>i. rp_child s i \<noteq> Zombie)"
proof -
  obtain s where s: "reaper_step\<^sup>*\<^sup>* reaper_start s" "\<forall>t. \<not> reaper_step s t"
    using reaping.comes_to_rest [OF reaper_start_inv(1)] by blast
  obtain n where n: "(reaper_step ^^ n) reaper_start s" using s(1) by (auto simp: rtranclp_power)
  have "reaper_rest s" using s(2) by (simp add: reaper_rest_def)
  with reaper_reaps [OF n] have "rp_forked s = 10" "rp_handler s = H_None" "\<forall>i. rp_child s i = Unborn \<or> rp_child s i = Reaped" by blast+
  then have "rp_child s i \<noteq> Zombie" for i by (cases "rp_child s i") (auto dest: spec [of _ i])
  with s(1) \<open>rp_forked s = 10\<close> \<open>rp_handler s = H_None\<close> show ?thesis by blast
qed

section \<open>Ignoring \<open>SIGCHLD\<close>\<close>

text \<open>\<open>sigchld.cc\<close>: with \<open>SIGCHLD\<close> ignored a child that exits is gone at once.\<close>

definition auto_child_round :: "nat \<Rightarrow> reaper \<Rightarrow> reaper outcome" where
  "auto_child_round i s =
     (case rp_child s i of
        Alive (Suc cnt) \<Rightarrow> Done (set_child i (Alive cnt) s)
      | Alive 0 \<Rightarrow> Done (set_child i Reaped s)
      | _ \<Rightarrow> Blocked)"

inductive sigchld_step :: "reaper \<Rightarrow> reaper \<Rightarrow> bool" where
  ig_fork: "fork_round ok s = Done s' \<Longrightarrow> sigchld_step s s'"
| ig_child: "auto_child_round i s = Done s' \<Longrightarrow> sigchld_step s s'"

lemma sigchld_no_zombie:
  assumes "sigchld_step\<^sup>*\<^sup>* reaper_start s"
  shows "rp_child s i \<noteq> Zombie \<and> rp_waited s = []"
  using assms
proof (induction arbitrary: i rule: rtranclp_induct)
  case base
  show ?case by (simp add: reaper_start_def)
next
  case (step s s')
  from step.hyps(2) show ?case
  proof cases
    case (ig_fork ok)
    with step.IH show ?thesis by (auto simp: fork_round_def set_child_def split: if_splits)
  next
    case (ig_child j)
    with step.IH show ?thesis
      by (cases "rp_child s j") (auto simp: auto_child_round_def set_child_def split: nat.splits if_splits)
  qed
qed

section \<open>How a child ended\<close>

text \<open>The status \<open>waitpid\<close> gives: the low byte of the exit code in bits 8 to 15, or the signal and the core flag.\<close>

datatype ending = Exited int | Killed nat bool

definition wait_status :: "ending \<Rightarrow> 32 word" where
  "wait_status e = (case e of
     Exited code \<Rightarrow> push_bit 8 (word_of_int code AND 0xFF)
   | Killed sig core \<Rightarrow> word_of_nat sig OR (if core then 0x80 else 0))"

text \<open>What \<open>core.cc\<close> prints of it: exit code, signal and core flag. If \<open>fork\<close> has failed there is no child and the status stays 0.\<close>

definition print_status :: "32 word \<Rightarrow> int \<times> int \<times> int" where
  "print_status status = (sint (drop_bit 8 status AND 0xFF), sint (status AND 0x7F), sint (drop_bit 7 status AND 0x1))"

definition core_child :: "bool \<Rightarrow> string list \<times> ending" where
  "core_child core_enabled = (replicate 3 ''segfault ahead'', Killed 11 core_enabled)"

definition core_main :: "bool \<Rightarrow> bool \<Rightarrow> int \<times> int \<times> int" where
  "core_main forked core_enabled = print_status (if forked then wait_status (snd (core_child core_enabled)) else 0)"

section \<open>\<open>mykill\<close>\<close>

datatype kill_result = Usage | Killed_ok int int | Kill_failed int int

definition kill_exit :: "kill_result \<Rightarrow> int" where
  "kill_exit r = (case r of Usage \<Rightarrow> 1 | Killed_ok pid signum \<Rightarrow> 0 | Kill_failed pid signum \<Rightarrow> 2)"

text \<open>\<open>main\<close>, with the arguments after the program's name; \<open>kill pid signum\<close> is what the system call returns.\<close>

definition mykill :: "(int \<Rightarrow> int \<Rightarrow> int) \<Rightarrow> string list \<Rightarrow> kill_result" where
  "mykill kill args =
     (case args of
        [a, b] \<Rightarrow> (let signum = atoi a; pid = atoi b
                   in if kill pid signum = - 1 then Kill_failed pid signum else Killed_ok pid signum)
      | _ \<Rightarrow> Usage)"

text \<open>Every status, read back.\<close>

lemma exit_status_all: "list_all (\<lambda>n. print_status (push_bit 8 (word_of_nat n)) = (int n, 0, 0)) [0..<256]"
  by code_simp

lemma exit_status: "print_status (wait_status (Exited code)) = (code mod 256, 0, 0)"
proof -
  have m: "(0xFF :: 32 word) = mask 8" by (simp add: mask_numeral)
  have "word_of_int code AND 0xFF = (word_of_int (take_bit 8 code) :: 32 word)"
    unfolding m by (rule bit_word_eqI) (auto simp: bit_simps)
  also have "\<dots> = word_of_nat (nat (code mod 256))" by (simp add: take_bit_eq_mod)
  finally have w: "wait_status (Exited code) = push_bit 8 (word_of_nat (nat (code mod 256)))" by (simp add: wait_status_def)
  have "nat (code mod 256) < 256" by (simp add: nat_less_iff)
  then have "nat (code mod 256) \<in> set [0..<256]" by simp
  with exit_status_all show ?thesis unfolding w list_all_iff by fastforce
qed

lemma kill_status_all:
  "list_all (\<lambda>sig. list_all (\<lambda>core. print_status (wait_status (Killed sig core)) = (0, int sig, if core then 1 else 0)) [True, False]) [0..<128]"
  by code_simp

text \<open>What \<open>core.cc\<close> prints of a status is how the child ended: for every exit code its low byte and no signal, for
  every signal the signal and the core flag and no exit code; for its own child that is signal 11, and three zeros if there
  is no child. \<open>mykill\<close> sends, for two numbers that fit an \<open>int\<close>, exactly that signal to exactly that process,
  and takes an argument that is no number for 0, the own process group.\<close>

theorem core_reports:
  assumes "sig < 128" "fits_int signum" "fits_int pid"
  shows "print_status (wait_status (Exited code)) = (code mod 256, 0, 0) \<and>
    print_status (wait_status (Killed sig core)) = (0, int sig, if core then 1 else 0) \<and>
    core_main forked core = (0, if forked then 11 else 0, if forked \<and> core then 1 else 0) \<and>
    mykill kill [to_string signum, to_string pid] = (if kill pid signum = - 1 then Kill_failed pid signum else Killed_ok pid signum) \<and>
    (length args \<noteq> 2 \<longrightarrow> kill_exit (mykill kill args) = 1) \<and>
    mykill kill [to_string signum, ''x''] = (if kill 0 signum = - 1 then Kill_failed 0 signum else Killed_ok 0 signum)"
proof -
  have k: "print_status (wait_status (Killed n b)) = (0, int n, if b then 1 else 0)" if "n < 128" for n b
  proof -
    have "n \<in> set [0..<128]" "b \<in> set [True, False]" using that by auto
    with kill_status_all show ?thesis unfolding list_all_iff by blast
  qed
  have z: "print_status 0 = (0, 0, 0)" by code_simp
  have x: "atoi ''x'' = 0" by code_simp
  have "length args \<noteq> 2 \<longrightarrow> mykill kill args = Usage"
    by (auto simp: mykill_def numeral_2_eq_2 split: list.splits)
  then show ?thesis
    using exit_status k [OF assms(1)] k [of 11 core] z x
    by (simp add: core_main_def core_child_def mykill_def atoi_to_string assms(2,3) Let_def kill_exit_def)
qed

lemma core_reports_witness:
  "print_status (wait_status (Exited 258)) = (2, 0, 0) \<and>
   mykill (\<lambda>pid sig. 0) [to_string 9, to_string 4711] = Killed_ok 4711 9"
proof -
  have h: "(11 :: nat) < 128" "fits_int 9" "fits_int 4711" by (simp_all add: fits_int_def)
  from core_reports [OF h, of 258 True True "\<lambda>pid sig. 0" "[]"] show ?thesis by simp
qed

end
