(* ===== verification/SignalLessons.thy ===== *)
theory SignalLessons
  imports Signals CppString
begin

text \<open>
  Two more signal programs: \<open>6.11/sigfunc/sigfunc.cc\<close>, which blocks \<open>SIGINT\<close> for ten seconds and prints
  a set every second, and \<open>6.9/signal/signal.cc\<close>, which tries to catch every signal. Signals and processes
  are those of theory \<open>Signals\<close>; a process that has ended does nothing any more.
\<close>

section \<open>\<open>sigfunc.cc\<close>\<close>

definition showBlock :: "(nat \<Rightarrow> bool) \<Rightarrow> string" where
  "showBlock oset = map (\<lambda>signo. if oset signo then CHR ''1'' else CHR ''0'') [1..<32]"

record sigfunc =
  sf_set :: "nat \<Rightarrow> bool"
  sf_oset :: "nat \<Rightarrow> bool"
  sf_cnt :: nat
  sf_proc :: sig_proc

text \<open>\<open>sigprocmask(SIG_SETMASK, &set, &oset)\<close>: the new mask, and the old one.\<close>

definition swap_mask :: "(nat \<Rightarrow> bool) \<Rightarrow> sig_proc \<Rightarrow> (nat \<Rightarrow> bool) \<times> sig_proc" where
  "swap_mask newmask p = (sp_blocked p, sigprocmask newmask p)"

definition sigfunc_init :: sigfunc where
  "sigfunc_init =
     (let new = (\<lambda>n. n = 2); r = swap_mask new sig_start
      in \<lparr>sf_set = new, sf_oset = fst r, sf_cnt = 0, sf_proc = snd r\<rparr>)"

definition show_set :: "(nat \<Rightarrow> bool) \<Rightarrow> sig_proc \<Rightarrow> sig_proc" where
  "show_set shown p = (if sp_alive p then p\<lparr>sp_out := sp_out p @ [Bits (showBlock shown)]\<rparr> else p)"

text \<open>One round; \<open>k\<close> is how often \<open>SIGINT\<close> arrives during the second it sleeps.\<close>

definition sigfunc_round :: "nat \<Rightarrow> sigfunc \<Rightarrow> sigfunc" where
  "sigfunc_round k s =
     (let p = (sig_raise SIGINT ^^ k) (show_set (sf_set s) (sf_proc s)); cnt = sf_cnt s + 1
      in if cnt = 10
         then (let r = swap_mask (sf_oset s) p
               in \<lparr>sf_set = fst r, sf_oset = sf_oset s, sf_cnt = cnt, sf_proc = show_set (fst r) (snd r)\<rparr>)
         else s\<lparr>sf_cnt := cnt, sf_proc := p\<rparr>)"

definition sigfunc_main :: "nat list \<Rightarrow> sigfunc" where
  "sigfunc_main ks = fold sigfunc_round ks sigfunc_init"

section \<open>\<open>signal.cc\<close>\<close>

text \<open>\<open>signal\<close> installs a handler, except for \<open>SIGKILL\<close> and \<open>SIGSTOP\<close>.\<close>

definition signal :: "nat \<Rightarrow> sig_proc \<Rightarrow> sig_proc" where
  "signal n p = (if n = 9 \<or> n = 19 then p else p\<lparr>sp_handler := (sp_handler p)(n := True)\<rparr>)"

definition catch_all :: "sig_proc \<Rightarrow> sig_proc" where
  "catch_all p = fold signal [1..<32] p"

section \<open>What they show\<close>

definition sf_proc_at :: "bool \<Rightarrow> bool \<Rightarrow> bool \<Rightarrow> sig_out list \<Rightarrow> sig_proc" where
  "sf_proc_at blocked pend alive out = \<lparr>sp_pending = (\<lambda>n. pend \<and> n = SIGINT), sp_blocked = (\<lambda>n. blocked \<and> n = SIGINT),
     sp_handler = (\<lambda>_. False), sp_alive = alive, sp_out = out\<rparr>"

definition int_shown :: sig_out where
  "int_shown = Bits (showBlock (\<lambda>n. n = SIGINT))"

lemma raise_blocked: "(sig_raise SIGINT ^^ k) (sf_proc_at True b a out) = sf_proc_at True (b \<or> 0 < k) a out"
  by (induction k) (auto simp: sig_raise_def sf_proc_at_def fun_eq_iff)

lemma raise_open_default: "(sig_raise SIGINT ^^ k) (sf_proc_at False False a out) = sf_proc_at False False (a \<and> k = 0) out"
  by (induction k) (auto simp: sig_raise_def sig_deliver_def sf_proc_at_def)

lemma unmask_default: "sigprocmask (\<lambda>_. False) (sf_proc_at True b a out) = sf_proc_at False False (a \<and> \<not> b) out"
proof -
  have "filter (\<lambda>n. b \<and> n = SIGINT) [1..<32] = (if b then [SIGINT] else [])"
    by (simp add: SIGINT_def upt_conv_Cons)
  then show ?thesis by (cases b) (simp_all add: sigprocmask_def sf_proc_at_def sig_deliver_def)
qed

lemma sigfunc_init_at: "sigfunc_init = \<lparr>sf_set = (\<lambda>n. n = SIGINT), sf_oset = (\<lambda>_. False), sf_cnt = 0, sf_proc = sf_proc_at True False True []\<rparr>"
  by (simp add: sigfunc_init_def swap_mask_def sigprocmask_def sig_start_def sf_proc_at_def SIGINT_def fun_eq_iff Let_def)

lemma show_set_at: "show_set (\<lambda>n. n = SIGINT) (sf_proc_at m b a out) = sf_proc_at m b a (out @ (if a then [int_shown] else []))"
  by (simp add: show_set_def sf_proc_at_def int_shown_def)

text \<open>The first nine rounds, the tenth, and the rounds after it.\<close>

lemma sigfunc_early:
  "length ks < 10 \<Longrightarrow> sigfunc_main ks = \<lparr>sf_set = (\<lambda>n. n = SIGINT), sf_oset = (\<lambda>_. False), sf_cnt = length ks,
     sf_proc = sf_proc_at True (\<exists>k \<in> set ks. 0 < k) True (replicate (length ks) int_shown)\<rparr>"
proof (induction ks rule: rev_induct)
  case Nil
  show ?case by (simp add: sigfunc_main_def sigfunc_init_at)
next
  case (snoc k ks)
  then show ?case
    by (simp add: sigfunc_main_def sigfunc_round_def show_set_at raise_blocked replicate_append_same disj_commute)
qed

lemma sigfunc_late:
  assumes "10 \<le> length ks"
  shows "sigfunc_main ks = \<lparr>sf_set = (\<lambda>n. n = SIGINT), sf_oset = (\<lambda>_. False), sf_cnt = length ks,
     sf_proc = sf_proc_at False False (\<forall>k \<in> set ks. k = 0) (sp_out (sf_proc (sigfunc_main ks)))\<rparr> \<and>
     ((\<forall>k \<in> set ks. k = 0) \<longrightarrow> sp_out (sf_proc (sigfunc_main ks)) = replicate (length ks + 1) int_shown)"
  using assms
proof (induction ks rule: rev_induct)
  case (snoc k ks)
  show ?case
  proof (cases "length ks < 10")
    case True
    then have n: "length ks = 9" using snoc.prems by simp
    let ?b = "\<exists>k \<in> set ks. 0 < k"
    have "sp_blocked (sf_proc_at True b a out) = (\<lambda>n. n = SIGINT)" for b a out by (simp add: sf_proc_at_def)
    then have "sigfunc_main (ks @ [k]) = \<lparr>sf_set = (\<lambda>n. n = SIGINT), sf_oset = (\<lambda>_. False), sf_cnt = 10,
       sf_proc = sf_proc_at False False (\<not> (?b \<or> 0 < k)) (replicate 10 int_shown @ (if \<not> (?b \<or> 0 < k) then [int_shown] else []))\<rparr>"
      using sigfunc_early [OF True] n
      by (simp add: sigfunc_main_def sigfunc_round_def show_set_at raise_blocked swap_mask_def unmask_default Let_def
          replicate_append_same numeral_eq_Suc)
    then show ?thesis using n by (auto simp: sf_proc_at_def numeral_eq_Suc)
  next
    case False
    define out where "out = sp_out (sf_proc (sigfunc_main ks))"
    have ih: "sigfunc_main ks = \<lparr>sf_set = (\<lambda>n. n = SIGINT), sf_oset = (\<lambda>_. False), sf_cnt = length ks,
        sf_proc = sf_proc_at False False (\<forall>k \<in> set ks. k = 0) out\<rparr>" "(\<forall>k \<in> set ks. k = 0) \<longrightarrow> out = replicate (length ks + 1) int_shown"
      using snoc.IH False by (auto simp: out_def)
    have "sigfunc_main (ks @ [k]) = sigfunc_round k (sigfunc_main ks)" by (simp add: sigfunc_main_def)
    also have "\<dots> = \<lparr>sf_set = (\<lambda>n. n = SIGINT), sf_oset = (\<lambda>_. False), sf_cnt = length ks + 1,
        sf_proc = sf_proc_at False False ((\<forall>k \<in> set ks. k = 0) \<and> k = 0) (out @ (if \<forall>k \<in> set ks. k = 0 then [int_shown] else []))\<rparr>"
      unfolding ih(1) using False by (simp add: sigfunc_round_def show_set_at raise_open_default)
    finally show ?thesis using ih(2) by (auto simp: sf_proc_at_def replicate_append_same conj_commute)
  qed
qed simp

lemma catch_all_handlers: "sp_handler (catch_all p) = (\<lambda>n. sp_handler p n \<or> n \<in> {1..<32} - {9, 19})"
  "sp_alive (catch_all p) = sp_alive p" "sp_blocked (catch_all p) = sp_blocked p" "sp_out (catch_all p) = sp_out p"
proof -
  have f: "sp_handler (fold signal ns q) = (\<lambda>n. sp_handler q n \<or> n \<in> set ns - {9, 19}) \<and> sp_alive (fold signal ns q) = sp_alive q \<and>
      sp_blocked (fold signal ns q) = sp_blocked q \<and> sp_out (fold signal ns q) = sp_out q" for ns q
    by (induction ns arbitrary: q) (auto simp: signal_def fun_eq_iff)
  from f [of "[1..<32]" p] show "sp_handler (catch_all p) = (\<lambda>n. sp_handler p n \<or> n \<in> {1..<32} - {9, 19})"
    "sp_alive (catch_all p) = sp_alive p" "sp_blocked (catch_all p) = sp_blocked p" "sp_out (catch_all p) = sp_out p"
    by (simp_all add: catch_all_def)
qed

text \<open>\<open>sigfunc.cc\<close> survives every \<open>SIGINT\<close> for ten rounds; at the end of the tenth it is killed if one has
  arrived, and later by the first one. What it prints shows \<open>SIGINT\<close> as blocked in every round, also after it has been
  unblocked: it prints the saved mask. \<open>signal.cc\<close> lives through every signal it can catch, and prints it, and is ended
  by signal 9.\<close>

theorem signal_lessons:
  assumes "n \<in> {1..<32} - {9, 19}"
  shows "sp_alive (sf_proc (sigfunc_main ks)) = (length ks < 10 \<or> (\<forall>k \<in> set ks. k = 0)) \<and>
    (sp_alive (sf_proc (sigfunc_main ks)) \<longrightarrow> sp_out (sf_proc (sigfunc_main ks)) =
       replicate (length ks + (if length ks < 10 then 0 else 1)) int_shown \<and>
       sp_blocked (sf_proc (sigfunc_main ks)) SIGINT = (length ks < 10)) \<and>
    sp_alive (sig_raise n (catch_all sig_start)) \<and> sp_out (sig_raise n (catch_all sig_start)) = [Caught n] \<and>
    \<not> sp_alive (sig_raise 9 (catch_all sig_start))"
proof -
  have c: "sp_alive (sig_raise n (catch_all sig_start)) \<and> sp_out (sig_raise n (catch_all sig_start)) = [Caught n] \<and>
      \<not> sp_alive (sig_raise 9 (catch_all sig_start))"
    using assms by (auto simp: sig_raise_def sig_deliver_def catch_all_handlers sig_start_def)
  show ?thesis
  proof (cases "length ks < 10")
    case True
    from sigfunc_early [OF True] True c show ?thesis by (simp add: sf_proc_at_def)
  next
    case False
    then have l: "10 \<le> length ks" by simp
    have "sp_alive (sf_proc (sigfunc_main ks)) = (\<forall>k \<in> set ks. k = 0)" "\<not> sp_blocked (sf_proc (sigfunc_main ks)) SIGINT"
      by (subst sigfunc_late [OF l, THEN conjunct1], simp add: sf_proc_at_def)+
    with sigfunc_late [OF l, THEN conjunct2] False c show ?thesis by auto
  qed
qed

lemma signal_lessons_witness:
  "\<not> sp_alive (sf_proc (sigfunc_main (1 # replicate 9 0))) \<and> sp_alive (sf_proc (sigfunc_main (replicate 9 3))) \<and>
   sp_out (sig_raise 15 (catch_all sig_start)) = [Caught 15]"
proof -
  have h: "(15 :: nat) \<in> {1..<32} - {9, 19}" by simp
  from signal_lessons [OF h, of "1 # replicate 9 0"] signal_lessons [OF h, of "replicate 9 3"] show ?thesis by simp
qed


section \<open>A handler each for one signal\<close>

text \<open>\<open>alarm.cc\<close>: \<open>SIGALRM\<close> comes after \<open>n\<close> rounds of the loop that counts; its handler prints and exits.\<close>

definition showcnt :: "int \<Rightarrow> string \<times> int" where
  "showcnt cnt = (''cnt = '' @ to_string cnt, 2)"

fun alarm_main :: "nat \<Rightarrow> int \<Rightarrow> (string \<times> int) outcome" where
  "alarm_main 0 cnt = Done (showcnt cnt)"
| "alarm_main (Suc n) cnt = (if fits_int (cnt + 1) then alarm_main n (cnt + 1) else Crash SignedOverflow)"

lemma alarm_counts: "0 \<le> cnt \<Longrightarrow> fits_int cnt \<Longrightarrow>
  alarm_main n cnt = (if fits_int (cnt + int n) then Done (showcnt (cnt + int n)) else Crash SignedOverflow)"
  by (induction n cnt rule: alarm_main.induct) (auto simp: fits_int_def algebra_simps)

text \<open>
  \<open>volatile/test.cc\<close>: each number is how often \<open>SIGINT\<close> arrives before the next look at the flag; the result
  is how often the handler has run when \<open>main\<close> quits.
\<close>

fun flag_main :: "nat list \<Rightarrow> bool \<Rightarrow> nat \<Rightarrow> nat outcome" where
  "flag_main [] flag caught = Blocked"
| "flag_main (k # ks) flag caught =
     (let flag = (flag \<or> 0 < k) in if flag then Done (caught + k) else flag_main ks flag (caught + k))"

lemma flag_quits: "flag_main ks False caught =
  (case dropWhile (\<lambda>k. k = 0) ks of [] \<Rightarrow> Blocked | k # ks' \<Rightarrow> Done (caught + k))"
  by (induction ks arbitrary: caught) auto

text \<open>\<open>sig/signal.cc\<close>: the write through a null pointer raises \<open>SIGSEGV\<close>, whose handler exits with its number.\<close>

definition segv_handler :: "nat \<Rightarrow> sig_proc \<Rightarrow> sig_proc outcome" where
  "segv_handler signo p = Crash (ExitWith (int signo))"

definition segv_main :: "sig_proc outcome" where
  "segv_main = (let p = signal 11 sig_start in if sp_handler p 11 then segv_handler 11 p else Done (p\<lparr>sp_alive := False\<rparr>))"

lemma segv_exits: "segv_main = Crash (ExitWith 11)"
  by (simp add: segv_main_def signal_def segv_handler_def)

end
