(* ===== verification/ThreadLessons.thy ===== *)
theory ThreadLessons
  imports Log Steps
begin

text \<open>
  The programs on threads of \<open>6.26\<close>, \<open>6.28\<close> and \<open>7.3/mythread\<close>: joining, detaching, thread numbers
  in hexadecimal, and a condition variable that wakes all threads. One step is one statement of
  one thread; writing a text and writing the end of the line are two.
\<close>

section \<open>Three threads and their joins: \<open>thread.cc\<close>\<close>

datatype printed = Hello | Quit | MainLine | Endl

datatype pr_pc = Pr_Off | Pr_Text nat | Pr_Endl nat | Pr_Quit | Pr_QuitEndl | Pr_Over

datatype pr_main = Mk nat | Join nat | Say nat | SayEndl nat | Returned

text \<open>Threads 1 to 3 run \<open>f1\<close> to \<open>f3\<close>; 0 stands for \<open>main\<close> in what is printed.\<close>

record printers =
  pr_pc :: "nat \<Rightarrow> pr_pc"
  pr_main :: pr_main
  pr_out :: "(nat \<times> printed) list"

definition pr_start :: printers where
  "pr_start = \<lparr>pr_pc = (\<lambda>_. Pr_Off), pr_main = Mk 1, pr_out = []\<rparr>"

definition pr_put :: "nat \<Rightarrow> printed \<Rightarrow> printers \<Rightarrow> printers" where
  "pr_put t x s = s\<lparr>pr_out := pr_out s @ [(t, x)]\<rparr>"

definition pr_goto :: "nat \<Rightarrow> pr_pc \<Rightarrow> printers \<Rightarrow> printers" where
  "pr_goto t p s = s\<lparr>pr_pc := (pr_pc s)(t := p)\<rparr>"

text \<open>The head of \<open>while (cnt--)\<close>, in the threads and in \<open>main\<close>.\<close>

fun loop_head :: "nat \<Rightarrow> pr_pc" where
  "loop_head 0 = Pr_Quit" | "loop_head (Suc cnt) = Pr_Text cnt"

fun main_head :: "nat \<Rightarrow> pr_main" where
  "main_head 0 = Returned" | "main_head (Suc cnt) = Say cnt"

fun printer_step :: "nat \<Rightarrow> pr_pc \<Rightarrow> printers \<Rightarrow> printers outcome" where
  "printer_step t (Pr_Text cnt) s = Done (pr_goto t (Pr_Endl cnt) (pr_put t Hello s))"
| "printer_step t (Pr_Endl cnt) s = Done (pr_goto t (loop_head cnt) (pr_put t Endl s))"
| "printer_step t Pr_Quit s = Done (pr_goto t Pr_QuitEndl (pr_put t Quit s))"
| "printer_step t Pr_QuitEndl s = Done (pr_goto t Pr_Over (pr_put t Endl s))"
| "printer_step t _ s = Blocked"

text \<open>\<open>ok\<close>: whether the system has room for another thread.\<close>

fun pr_main_step :: "bool \<Rightarrow> pr_main \<Rightarrow> printers \<Rightarrow> printers outcome" where
  "pr_main_step ok (Mk i) s =
     (if 3 < i then Done (s\<lparr>pr_main := Join 1\<rparr>)
      else if ok then Done (pr_goto i (loop_head 5) (s\<lparr>pr_main := Mk (Suc i)\<rparr>)) else Crash SystemError)"
| "pr_main_step ok (Join i) s =
     (if 3 < i then Done (s\<lparr>pr_main := main_head 6\<rparr>)
      else if pr_pc s i = Pr_Over then Done (s\<lparr>pr_main := Join (Suc i)\<rparr>) else Blocked)"
| "pr_main_step ok (Say cnt) s = Done ((pr_put 0 MainLine s)\<lparr>pr_main := SayEndl cnt\<rparr>)"
| "pr_main_step ok (SayEndl cnt) s = Done ((pr_put 0 Endl s)\<lparr>pr_main := main_head cnt\<rparr>)"
| "pr_main_step ok Returned s = Blocked"

inductive printers_step :: "printers \<Rightarrow> printers \<Rightarrow> bool" where
  pr_thread: "printer_step t (pr_pc s t) s = Done s' \<Longrightarrow> printers_step s s'"
| pr_in_main: "pr_main_step ok (pr_main s) s = Done s' \<Longrightarrow> printers_step s s'"

text \<open>What a thread has printed, from where it is, and the same for \<open>main\<close>.\<close>

definition lines :: "nat \<Rightarrow> printed \<Rightarrow> printed list" where
  "lines n x = concat (replicate n [x, Endl])"

fun pr_said :: "pr_pc \<Rightarrow> printed list" where
  "pr_said Pr_Off = []"
| "pr_said (Pr_Text cnt) = lines (4 - cnt) Hello"
| "pr_said (Pr_Endl cnt) = lines (4 - cnt) Hello @ [Hello]"
| "pr_said Pr_Quit = lines 5 Hello"
| "pr_said Pr_QuitEndl = lines 5 Hello @ [Quit]"
| "pr_said Pr_Over = lines 5 Hello @ lines 1 Quit"

fun main_said :: "pr_main \<Rightarrow> printed list" where
  "main_said (Say cnt) = lines (5 - cnt) MainLine"
| "main_said (SayEndl cnt) = lines (5 - cnt) MainLine @ [MainLine]"
| "main_said Returned = lines 6 MainLine"
| "main_said _ = []"

definition of_thread :: "nat \<Rightarrow> (nat \<times> printed) list \<Rightarrow> printed list" where
  "of_thread t out = map snd (filter (\<lambda>p. fst p = t) out)"

fun pc_ok :: "pr_pc \<Rightarrow> bool" where
  "pc_ok (Pr_Text cnt) = (cnt \<le> 4)" | "pc_ok (Pr_Endl cnt) = (cnt \<le> 4)" | "pc_ok _ = True"

fun main_ok :: "(nat \<Rightarrow> pr_pc) \<Rightarrow> pr_main \<Rightarrow> bool" where
  "main_ok pcs (Mk i) = (1 \<le> i \<and> i \<le> 4 \<and> (\<forall>t \<ge> i. pcs t = Pr_Off) \<and> (\<forall>t. 1 \<le> t \<and> t < i \<longrightarrow> pcs t \<noteq> Pr_Off))"
| "main_ok pcs (Join i) = (1 \<le> i \<and> i \<le> 4 \<and> (\<forall>t. 1 \<le> t \<and> t < i \<longrightarrow> pcs t = Pr_Over) \<and> (\<forall>t. 1 \<le> t \<and> t \<le> 3 \<longrightarrow> pcs t \<noteq> Pr_Off))"
| "main_ok pcs (Say cnt) = (cnt \<le> 5 \<and> (\<forall>t. 1 \<le> t \<and> t \<le> 3 \<longrightarrow> pcs t = Pr_Over))"
| "main_ok pcs (SayEndl cnt) = (cnt \<le> 5 \<and> (\<forall>t. 1 \<le> t \<and> t \<le> 3 \<longrightarrow> pcs t = Pr_Over))"
| "main_ok pcs Returned = (\<forall>t. 1 \<le> t \<and> t \<le> 3 \<longrightarrow> pcs t = Pr_Over)"

definition pr_inv :: "printers \<Rightarrow> bool" where
  "pr_inv s \<longleftrightarrow> (\<forall>t. pc_ok (pr_pc s t)) \<and> (\<forall>t. t = 0 \<or> 3 < t \<longrightarrow> pr_pc s t = Pr_Off) \<and> main_ok (pr_pc s) (pr_main s) \<and>
     (\<exists>before. pr_out s = before @ map (Pair 0) (main_said (pr_main s)) \<and> of_thread 0 before = [] \<and>
        (\<forall>t. t \<noteq> 0 \<longrightarrow> of_thread t before = pr_said (pr_pc s t)))"

fun pr_weight :: "pr_pc \<Rightarrow> nat" where
  "pr_weight (Pr_Text cnt) = 2 * cnt + 4" | "pr_weight (Pr_Endl cnt) = 2 * cnt + 3"
| "pr_weight Pr_Quit = 2" | "pr_weight Pr_QuitEndl = 1" | "pr_weight _ = 0"

fun pr_main_weight :: "pr_main \<Rightarrow> nat" where
  "pr_main_weight (Mk i) = 13 * (4 - i) + 17" | "pr_main_weight (Join i) = (4 - i) + 13"
| "pr_main_weight (Say cnt) = 2 * cnt + 2" | "pr_main_weight (SayEndl cnt) = 2 * cnt + 1" | "pr_main_weight Returned = 0"

definition printers_weight :: "printers \<Rightarrow> nat" where
  "printers_weight s = pr_weight (pr_pc s 1) + pr_weight (pr_pc s 2) + pr_weight (pr_pc s 3) + pr_main_weight (pr_main s)"


lemma of_thread_simps:
  "of_thread t [] = []" "of_thread t (out @ [(u, x)]) = of_thread t out @ (if u = t then [x] else [])"
  by (simp_all add: of_thread_def)

lemma lines_Suc: "lines n x @ [x, Endl] = lines (Suc n) x"
  by (induction n) (simp_all add: lines_def)

text \<open>A step of a thread: while \<open>main\<close> prints there is none.\<close>

lemma printer_moves:
  assumes "printer_step t (pr_pc s t) s = Done s'"
  shows "\<exists>x. pr_out s' = pr_out s @ [(t, x)] \<and> pr_main s' = pr_main s \<and> pr_pc s t \<noteq> Pr_Off \<and> pr_pc s t \<noteq> Pr_Over \<and>
    (\<forall>u. u \<noteq> t \<longrightarrow> pr_pc s' u = pr_pc s u) \<and> pr_pc s' t \<noteq> Pr_Off \<and> pr_weight (pr_pc s' t) < pr_weight (pr_pc s t) \<and>
    (pc_ok (pr_pc s t) \<longrightarrow> pc_ok (pr_pc s' t) \<and> pr_said (pr_pc s' t) = pr_said (pr_pc s t) @ [x])"
proof (cases "pr_pc s t")
  case (Pr_Endl cnt)
  show ?thesis
  proof (cases cnt)
    case 0
    then show ?thesis using Pr_Endl assms lines_Suc [of 4 Hello] by (auto simp: pr_goto_def pr_put_def)
  next
    case (Suc n)
    have "lines (4 - Suc n) Hello @ [Hello, Endl] = lines (4 - n) Hello" if "Suc n \<le> 4"
    proof -
      have "Suc (4 - Suc n) = 4 - n" using that by arith
      with lines_Suc [of "4 - Suc n" Hello] show ?thesis by simp
    qed
    then show ?thesis using Pr_Endl Suc assms by (auto simp: pr_goto_def pr_put_def)
  qed
qed (use assms in \<open>auto simp: pr_goto_def pr_put_def lines_def\<close>)

lemma main_ok_threads:
  assumes "main_ok pcs m" "pcs t \<noteq> Pr_Off" "pcs t \<noteq> Pr_Over" "t \<noteq> 0" "t \<le> 3" "p \<noteq> Pr_Off"
  shows "main_ok (pcs(t := p)) m \<and> main_said m = []"
proof -
  have t: "1 \<le> t" using assms(4) by simp
  show ?thesis
  proof (cases m)
    case (Mk i)
    with assms have "t < i" by (metis main_ok.simps(1) not_le)
    with Mk assms show ?thesis by auto
  next
    case (Join i)
    with assms t have "\<not> t < i" by auto
    with Join assms show ?thesis by auto
  qed (use assms t in auto)
qed

lemma pr_inv_thread:
  assumes "pr_inv s" "printer_step t (pr_pc s t) s = Done s'"
  shows "pr_inv s'"
proof -
  from printer_moves [OF assms(2)] obtain x where x: "pr_out s' = pr_out s @ [(t, x)]" "pr_main s' = pr_main s"
    "pr_pc s t \<noteq> Pr_Off" "pr_pc s t \<noteq> Pr_Over" "\<And>u. u \<noteq> t \<Longrightarrow> pr_pc s' u = pr_pc s u" "pr_pc s' t \<noteq> Pr_Off"
    "pc_ok (pr_pc s t) \<Longrightarrow> pc_ok (pr_pc s' t) \<and> pr_said (pr_pc s' t) = pr_said (pr_pc s t) @ [x]" by blast
  have i: "pc_ok (pr_pc s u)" "u = 0 \<or> 3 < u \<Longrightarrow> pr_pc s u = Pr_Off" "main_ok (pr_pc s) (pr_main s)" for u
    using assms(1) unfolding pr_inv_def by blast+
  obtain b where b: "pr_out s = b @ map (Pair 0) (main_said (pr_main s))" "of_thread 0 b = []"
    "\<And>u. u \<noteq> 0 \<Longrightarrow> of_thread u b = pr_said (pr_pc s u)" using assms(1) unfolding pr_inv_def by blast
  have t: "t \<noteq> 0" "t \<le> 3" using x(3) i(2) [of t] by (cases "t = 0"; cases "3 < t"; simp)+
  have pc: "pr_pc s' = (pr_pc s)(t := pr_pc s' t)" using x(5) by auto
  note m = main_ok_threads [OF i(3) x(3,4) t x(6), folded pc]
  have out: "pr_out s' = (b @ [(t, x)]) @ map (Pair 0) (main_said (pr_main s'))" using b(1) m x(1,2) by simp
  have "pc_ok (pr_pc s' u)" for u using i(1) x(5,7) by (cases "u = t") auto
  moreover have "pr_pc s' u = Pr_Off" if "u = 0 \<or> 3 < u" for u using that i(2) [OF that] x(5) [of u] t by auto
  moreover have "of_thread u (b @ [(t, x)]) = pr_said (pr_pc s' u)" if "u \<noteq> 0" for u
    using b(3) [OF that] x(5) [of u] x(7) i(1) by (cases "u = t") (simp_all add: of_thread_simps)
  moreover have "of_thread 0 (b @ [(t, x)]) = []" using b(2) t by (simp add: of_thread_simps)
  ultimately show ?thesis unfolding pr_inv_def using m x(2) out by metis
qed


lemma pr_inv_main:
  assumes "pr_inv s" "pr_main_step ok (pr_main s) s = Done s'"
  shows "pr_inv s' \<and> printers_weight s' < printers_weight s"
proof -
  have i: "pc_ok (pr_pc s u)" "u = 0 \<or> 3 < u \<Longrightarrow> pr_pc s u = Pr_Off" "main_ok (pr_pc s) (pr_main s)" for u
    using assms(1) unfolding pr_inv_def by blast+
  obtain b where b: "pr_out s = b @ map (Pair 0) (main_said (pr_main s))" "of_thread 0 b = []"
    "\<And>u. u \<noteq> 0 \<Longrightarrow> of_thread u b = pr_said (pr_pc s u)" using assms(1) unfolding pr_inv_def by blast
  have same: "pr_inv s'" if "pr_pc s' = pr_pc s" "main_ok (pr_pc s) (pr_main s')"
    "pr_out s' = b @ map (Pair 0) (main_said (pr_main s'))"
    unfolding pr_inv_def that(1,3) using i b(2,3) that(2) by blast
  show ?thesis
  proof (cases "pr_main s")
    case (Mk n)
    show ?thesis
    proof (cases "3 < n")
      case True
      with Mk assms(2) have s': "s' = s\<lparr>pr_main := Join 1\<rparr>" by simp
      have "n = 4" using i(3) Mk True by simp
      with i(3) Mk have "main_ok (pr_pc s) (Join 1)" by simp
      then have "pr_inv s'" using b(1) Mk by (intro same) (simp_all add: s')
      with s' Mk \<open>n = 4\<close> show ?thesis by (simp add: printers_weight_def)
    next
      case False
      with Mk assms(2) have s': "s' = pr_goto n (loop_head 5) (s\<lparr>pr_main := Mk (Suc n)\<rparr>)" by (simp split: if_splits)
      have off: "pr_pc s n = Pr_Off" "1 \<le> n" using i(3) Mk by simp_all
      have h: "loop_head 5 = Pr_Text 4" by (simp add: numeral_eq_Suc)
      have pc: "pr_pc s' = (pr_pc s)(n := Pr_Text 4)" "pr_main s' = Mk (Suc n)" "pr_out s' = pr_out s"
        by (simp_all add: s' pr_goto_def h)
      have "main_ok (pr_pc s') (pr_main s')" using i(3) Mk False unfolding pc by (auto simp: less_Suc_eq)
      moreover have "of_thread u b = pr_said (pr_pc s' u)" if "u \<noteq> 0" for u
        using b(3) [OF that] off unfolding pc by (simp add: lines_def)
      moreover have "pr_out s' = b @ map (Pair 0) (main_said (pr_main s'))" using b(1) Mk pc by simp
      moreover have "pc_ok (pr_pc s' u)" "u = 0 \<or> 3 < u \<longrightarrow> pr_pc s' u = Pr_Off" for u
        using i(1,2) [of u] off False unfolding pc by auto
      ultimately have "pr_inv s'" unfolding pr_inv_def using b(2) by blast
      moreover have "n = 1 \<or> n = 2 \<or> n = 3" using off(2) False by auto
      then have "printers_weight s' < printers_weight s" using off(1) Mk by (auto simp: printers_weight_def pc)
      ultimately show ?thesis ..
    qed
  next
    case (Join n)
    show ?thesis
    proof (cases "3 < n")
      case True
      have h: "main_head 6 = Say 5" by (simp add: numeral_eq_Suc)
      with True Join assms(2) have s': "s' = s\<lparr>pr_main := Say 5\<rparr>" by simp
      have "n = 4" using i(3) Join True by simp
      with i(3) Join have "main_ok (pr_pc s) (Say 5)" by auto
      then have "pr_inv s'" using b(1) Join by (intro same) (simp_all add: s' lines_def)
      with s' Join \<open>n = 4\<close> show ?thesis by (simp add: printers_weight_def)
    next
      case False
      with Join assms(2) have s': "s' = s\<lparr>pr_main := Join (Suc n)\<rparr>" "pr_pc s n = Pr_Over" by (simp_all split: if_splits)
      with i(3) Join False have "main_ok (pr_pc s) (Join (Suc n))" by (auto simp: less_Suc_eq)
      then have "pr_inv s'" using b(1) Join by (intro same) (simp_all add: s')
      with s' Join False show ?thesis by (simp add: printers_weight_def)
    qed
  next
    case (Say cnt)
    with assms(2) have s': "s' = (pr_put 0 MainLine s)\<lparr>pr_main := SayEndl cnt\<rparr>" by simp
    have "pr_inv s'" using b(1) i(3) Say by (intro same) (simp_all add: s' pr_put_def)
    with s' Say show ?thesis by (simp add: printers_weight_def pr_put_def)
  next
    case (SayEndl cnt)
    with assms(2) have s': "s' = (pr_put 0 Endl s)\<lparr>pr_main := main_head cnt\<rparr>" by simp
    have l: "main_said (SayEndl cnt) @ [Endl] = main_said (main_head cnt)"
    proof (cases cnt)
      case 0
      then show ?thesis using lines_Suc [of 5 MainLine] by simp
    next
      case (Suc n)
      then have "Suc (5 - Suc n) = 5 - n" using i(3) SayEndl by simp arith
      with lines_Suc [of "5 - Suc n" MainLine] Suc show ?thesis by simp
    qed
    have "main_ok (pr_pc s) (main_head cnt)" using i(3) SayEndl by (cases cnt) auto
    moreover have "pr_out s' = b @ map (Pair 0) (main_said (main_head cnt))"
      using b(1) SayEndl by (simp add: s' pr_put_def l [symmetric])
    ultimately have "pr_inv s'" by (intro same) (simp_all add: s' pr_put_def)
    moreover have "pr_main_weight (main_head cnt) < pr_main_weight (SayEndl cnt)" by (cases cnt) simp_all
    ultimately show ?thesis using s' SayEndl by (simp add: printers_weight_def pr_put_def)
  next
    case Returned
    with assms(2) show ?thesis by simp
  qed
qed

lemma pr_inv_step:
  assumes "pr_inv s" "printers_step s s'"
  shows "pr_inv s' \<and> printers_weight s' < printers_weight s"
  using assms(2)
proof cases
  case (pr_thread t)
  from printer_moves [OF pr_thread] have m: "pr_main s' = pr_main s" "pr_pc s t \<noteq> Pr_Off"
    "\<And>u. u \<noteq> t \<Longrightarrow> pr_pc s' u = pr_pc s u" "pr_weight (pr_pc s' t) < pr_weight (pr_pc s t)" by blast+
  have "t = 1 \<or> t = 2 \<or> t = 3"
  proof (rule ccontr)
    assume "\<not> ?thesis"
    then have "t = 0 \<or> 3 < t" by auto
    with assms(1) m(2) show False unfolding pr_inv_def by blast
  qed
  then have "printers_weight s' < printers_weight s" using m(1,3,4) by (auto simp: printers_weight_def)
  with pr_inv_thread [OF assms(1) pr_thread] show ?thesis ..
next
  case (pr_in_main ok)
  with pr_inv_main [OF assms(1)] show ?thesis by blast
qed

interpretation printers: measured_steps printers_step pr_inv printers_weight
  by unfold_locales (use pr_inv_step in blast)+


definition printers_rest :: "printers \<Rightarrow> bool" where
  "printers_rest s \<longleftrightarrow> \<not> (\<exists>s'. printers_step s s')"

lemma printers_rest_over:
  assumes "pr_inv s" "printers_rest s"
  shows "pr_main s = Returned"
proof (rule ccontr)
  assume m: "pr_main s \<noteq> Returned"
  have no: "printer_step t (pr_pc s t) s \<noteq> Done s'" "pr_main_step True (pr_main s) s \<noteq> Done s'" for t s'
    using assms(2) unfolding printers_rest_def by (blast intro: pr_thread pr_in_main)+
  then obtain i where i: "pr_main s = Join i" "i \<le> 3" "pr_pc s i \<noteq> Pr_Over"
    using m by (cases "pr_main s") (force split: if_splits)+
  have "main_ok (pr_pc s) (pr_main s)" using assms(1) unfolding pr_inv_def by blast
  with i have "pr_pc s i \<noteq> Pr_Off" by auto
  with no(1) [of i] i(3) show False by (cases "pr_pc s i") auto
qed

text \<open>\<open>thread.cc\<close>, under every interleaving: a run takes at most 56 steps; where it ends \<open>main\<close> has
  returned. Nothing of \<open>main\<close> is printed before the three threads have printed their five lines and their farewell, each in
  order, although the pieces of different threads may be mixed; then \<open>main\<close> prints its six lines.\<close>

theorem threads_joined:
  assumes "(printers_step ^^ n) pr_start s"
  shows "n \<le> 56 \<and>
    ((0, MainLine) \<in> set (pr_out s) \<longrightarrow> (\<forall>t. 1 \<le> t \<and> t \<le> 3 \<longrightarrow> pr_pc s t = Pr_Over)) \<and>
    (printers_rest s \<longrightarrow> (\<exists>before. pr_out s = before @ map (Pair 0) (lines 6 MainLine) \<and> of_thread 0 before = [] \<and>
       (\<forall>t. 1 \<le> t \<and> t \<le> 3 \<longrightarrow> of_thread t before = lines 5 Hello @ lines 1 Quit)))"
proof -
  have start: "pr_inv pr_start" "printers_weight pr_start = 56"
    by (auto simp: pr_inv_def pr_start_def printers_weight_def of_thread_simps)
  note b = printers.run_bounded [OF assms start(1)]
  then have inv: "pr_inv s" ..
  then have ok: "main_ok (pr_pc s) (pr_main s)" unfolding pr_inv_def by blast
  from inv obtain before where o: "pr_out s = before @ map (Pair 0) (main_said (pr_main s))" "of_thread 0 before = []"
    "\<And>t. t \<noteq> 0 \<Longrightarrow> of_thread t before = pr_said (pr_pc s t)" unfolding pr_inv_def by blast
  have "(0, MainLine) \<notin> set before" using o(2) by (force simp: of_thread_def filter_empty_conv)
  then have "\<forall>t. 1 \<le> t \<and> t \<le> 3 \<longrightarrow> pr_pc s t = Pr_Over" if "(0, MainLine) \<in> set (pr_out s)"
    using that o(1) ok by (cases "pr_main s") auto
  moreover have "pr_out s = before @ map (Pair 0) (lines 6 MainLine) \<and>
      (\<forall>t. 1 \<le> t \<and> t \<le> 3 \<longrightarrow> of_thread t before = lines 5 Hello @ lines 1 Quit)" if "printers_rest s"
    using printers_rest_over [OF inv that] o ok by auto
  ultimately show ?thesis using b o(2) start(2) by auto
qed


lemma threads_joined_witness:
  "\<exists>s before. printers_step\<^sup>*\<^sup>* pr_start s \<and> pr_out s = before @ map (Pair 0) (lines 6 MainLine) \<and>
    of_thread 2 before = lines 5 Hello @ lines 1 Quit"
proof -
  have start: "pr_inv pr_start" by (auto simp: pr_inv_def pr_start_def of_thread_simps)
  obtain s where s: "printers_step\<^sup>*\<^sup>* pr_start s" "\<forall>t. \<not> printers_step s t" using printers.comes_to_rest [OF start] by blast
  obtain n where n: "(printers_step ^^ n) pr_start s" using s(1) by (auto simp: rtranclp_power)
  have "printers_rest s" using s(2) by (simp add: printers_rest_def)
  with threads_joined [OF n] obtain b where "pr_out s = b @ map (Pair 0) (lines 6 MainLine)"
    "\<forall>t. 1 \<le> t \<and> t \<le> 3 \<longrightarrow> of_thread t b = lines 5 Hello @ lines 1 Quit" by blast
  with s(1) show ?thesis by (intro exI [of _ s] exI [of _ b]) simp
qed

section \<open>Detaching: \<open>detach.cc\<close>\<close>

text \<open>
  The thread detaches itself while \<open>main\<close> joins it. As the comment in the program says, joining a
  detached thread fails with \<open>EINVAL\<close>, and a join that has begun waits for the end all the same. The
  id of a detached thread that has ended may not be used any more. When \<open>main\<close> returns, the process
  ends and with it the thread.
\<close>

datatype dt_pc = Dt_Off | Dt_Detach | Dt_Loop nat | Dt_Over

datatype dt_main = Dm_Create | Dm_Join | Dm_Wait | Dm_Tell int | Dm_Gone

record detach =
  dt_pc :: dt_pc
  dt_main :: dt_main
  dt_detached :: bool
  dt_lines :: nat
  dt_told :: "int option"     \<comment> \<open>the return code of \<open>pthread_join\<close> that \<open>main\<close> reports\<close>

definition EINVAL :: int where "EINVAL = 22"

definition detach_start :: detach where
  "detach_start = \<lparr>dt_pc = Dt_Off, dt_main = Dm_Create, dt_detached = False, dt_lines = 0, dt_told = None\<rparr>"

fun detach_thread :: "dt_pc \<Rightarrow> detach \<Rightarrow> detach outcome" where
  "detach_thread Dt_Detach s = Done (s\<lparr>dt_pc := Dt_Loop 5, dt_detached := (dt_main s \<noteq> Dm_Wait)\<rparr>)"
| "detach_thread (Dt_Loop (Suc cnt)) s = Done (s\<lparr>dt_pc := Dt_Loop cnt, dt_lines := dt_lines s + 1\<rparr>)"
| "detach_thread (Dt_Loop 0) s = Done (s\<lparr>dt_pc := Dt_Over\<rparr>)"
| "detach_thread _ s = Blocked"

fun detach_main :: "bool \<Rightarrow> dt_main \<Rightarrow> detach \<Rightarrow> detach outcome" where
  "detach_main ok Dm_Create s = Done (s\<lparr>dt_pc := (if ok then Dt_Detach else Dt_Off), dt_main := Dm_Join\<rparr>)"
| "detach_main ok Dm_Join s =
     (if dt_pc s = Dt_Off then Crash Uninitialised
      else if \<not> dt_detached s then Done (s\<lparr>dt_main := Dm_Wait\<rparr>)
      else if dt_pc s = Dt_Over then Crash UseAfterFree
      else Done (s\<lparr>dt_main := Dm_Tell EINVAL\<rparr>))"
| "detach_main ok Dm_Wait s = (if dt_pc s = Dt_Over then Done (s\<lparr>dt_main := Dm_Tell 0\<rparr>) else Blocked)"
| "detach_main ok (Dm_Tell r) s = Done (s\<lparr>dt_told := Some r, dt_main := Dm_Gone\<rparr>)"
| "detach_main ok Dm_Gone s = Blocked"

inductive detach_step :: "detach \<Rightarrow> detach \<Rightarrow> bool" where
  dt_thread: "dt_main s \<noteq> Dm_Gone \<Longrightarrow> detach_thread (dt_pc s) s = Done s' \<Longrightarrow> detach_step s s'"
| dt_in_main: "detach_main ok (dt_main s) s = Done s' \<Longrightarrow> detach_step s s'"

fun dt_left :: "dt_pc \<Rightarrow> nat" where
  "dt_left Dt_Off = 5" | "dt_left Dt_Detach = 5" | "dt_left (Dt_Loop cnt) = cnt" | "dt_left Dt_Over = 0"

definition detach_inv :: "detach \<Rightarrow> bool" where
  "detach_inv s \<longleftrightarrow> dt_left (dt_pc s) + dt_lines s = 5 \<and> (dt_detached s \<longrightarrow> dt_pc s \<noteq> Dt_Detach \<and> dt_pc s \<noteq> Dt_Off) \<and>
     (case dt_main s of
        Dm_Create \<Rightarrow> dt_pc s = Dt_Off \<and> dt_told s = None
      | Dm_Join \<Rightarrow> dt_told s = None \<and> (dt_pc s = Dt_Over \<or> dt_pc s \<noteq> Dt_Over \<and> (dt_detached s \<or> (dt_pc s = Dt_Off \<or> dt_pc s = Dt_Detach)))
      | Dm_Wait \<Rightarrow> dt_told s = None \<and> \<not> dt_detached s \<and> dt_pc s \<noteq> Dt_Off
      | Dm_Tell r \<Rightarrow> dt_told s = None \<and> (if dt_detached s then r = EINVAL else r = 0 \<and> dt_pc s = Dt_Over)
      | Dm_Gone \<Rightarrow> (if dt_detached s then dt_told s = Some EINVAL else dt_told s = Some 0 \<and> dt_pc s = Dt_Over))"

fun dt_weight :: "dt_pc \<Rightarrow> nat" where
  "dt_weight Dt_Detach = 7" | "dt_weight (Dt_Loop cnt) = cnt + 1" | "dt_weight _ = 0"

fun dm_weight :: "dt_main \<Rightarrow> nat" where
  "dm_weight Dm_Create = 11" | "dm_weight Dm_Join = 3" | "dm_weight Dm_Wait = 2" | "dm_weight (Dm_Tell r) = 1" | "dm_weight Dm_Gone = 0"

lemma detach_inv_step:
  assumes "detach_inv s" "detach_step s s'"
  shows "detach_inv s' \<and> dt_weight (dt_pc s') + dm_weight (dt_main s') < dt_weight (dt_pc s) + dm_weight (dt_main s)"
  using assms(2)
proof cases
  case dt_thread
  with assms(1) show ?thesis
    by (cases "dt_pc s" rule: dt_left.cases; cases "dt_main s")
      (auto simp: detach_inv_def elim: detach_thread.elims split: dt_main.splits if_splits)
next
  case (dt_in_main ok)
  with assms(1) show ?thesis
    by (cases "dt_main s") (auto simp: detach_inv_def split: dt_main.splits if_splits)
qed

interpretation detaching: measured_steps detach_step detach_inv "\<lambda>s. dt_weight (dt_pc s) + dm_weight (dt_main s)"
  by unfold_locales (use detach_inv_step in blast)+

text \<open>\<open>detach.cc\<close>: every run ends after at most 11 steps. If \<open>main\<close> joins before the thread detaches itself, it reports success
  after all five lines; if it comes later, it reports \<open>EINVAL\<close> and the process ends with any number of lines left
  out. A run stops earlier with a fault if the thread could not be created, or has detached itself and
  ended before \<open>main\<close> joins it.\<close>

lemma detach_outcomes:
  assumes "(detach_step ^^ n) detach_start s"
  shows "n \<le> 11 \<and> (case dt_told s of None \<Rightarrow> True | Some r \<Rightarrow> r = 0 \<and> dt_lines s = 5 \<or> r = EINVAL \<and> dt_detached s \<and> dt_lines s \<le> 5) \<and>
    ((\<forall>s'. \<not> detach_step s s') \<longrightarrow> dt_told s \<noteq> None \<or> detach_main ok (dt_main s) s = Crash Uninitialised \<or>
       dt_detached s \<and> dt_lines s = 5 \<and> detach_main ok (dt_main s) s = Crash UseAfterFree)"
proof -
  have "detach_inv detach_start" by (simp add: detach_inv_def detach_start_def)
  then have b: "detach_inv s" "n \<le> 11" using detaching.run_bounded [OF assms] by (auto simp: detach_start_def)
  have "dt_told s \<noteq> None \<or> detach_main ok (dt_main s) s = Crash Uninitialised \<or>
       dt_detached s \<and> dt_lines s = 5 \<and> detach_main ok (dt_main s) s = Crash UseAfterFree" if r: "\<forall>s'. \<not> detach_step s s'"
  proof -
    have no: "dt_main s \<noteq> Dm_Gone \<Longrightarrow> \<not> (\<exists>s'. detach_thread (dt_pc s) s = Done s')" "\<not> (\<exists>s'. detach_main ok (dt_main s) s = Done s')"
      using r by (blast intro: detach_step.intros)+
    show ?thesis
    proof (cases "dt_main s")
      case Dm_Wait
      then have "dt_pc s \<noteq> Dt_Over" "dt_pc s \<noteq> Dt_Off" using no(2) b(1) by (auto simp: detach_inv_def)
      moreover have "\<exists>s'. detach_thread (Dt_Loop cnt) s = Done s'" for cnt by (cases cnt) simp_all
      ultimately show ?thesis using no(1) Dm_Wait by (cases "dt_pc s" rule: dt_left.cases) auto
    qed (use no(2) b(1) in \<open>auto simp: detach_inv_def split: if_splits\<close>)
  qed
  moreover have "case dt_told s of None \<Rightarrow> True | Some r \<Rightarrow> r = 0 \<and> dt_lines s = 5 \<or> r = EINVAL \<and> dt_detached s \<and> dt_lines s \<le> 5"
    using b(1) by (auto simp: detach_inv_def EINVAL_def split: dt_main.splits if_splits option.splits)
  ultimately show ?thesis using b(2) by blast
qed


section \<open>Waking all threads: \<open>mythread.cc\<close>\<close>

datatype my_pc = My_Off | My_Lock | My_Wait | My_Asleep | My_Relock | My_Show | My_Unlock

text \<open>
  \<open>my_created\<close>: how many threads \<open>main\<close> has tried to create; \<open>my_woken\<close>: how often a thread was woken, by
  a broadcast or without one; \<open>my_shown\<close>: the threads that have printed, in order.
\<close>

record mythreads =
  my_pc :: "nat \<Rightarrow> my_pc"
  my_mutex :: "nat option"
  my_created :: nat
  my_broadcasts :: nat
  my_spurious :: "nat \<Rightarrow> nat"
  my_shown :: "nat list"

definition MY_NUM :: nat where "MY_NUM = 5"

definition my_start :: mythreads where
  "my_start = \<lparr>my_pc = (\<lambda>_. My_Off), my_mutex = None, my_created = 0, my_broadcasts = 0, my_spurious = (\<lambda>_. 0), my_shown = []\<rparr>"

definition my_goto :: "nat \<Rightarrow> my_pc \<Rightarrow> mythreads \<Rightarrow> mythreads" where
  "my_goto t p s = s\<lparr>my_pc := (my_pc s)(t := p)\<rparr>"

text \<open>\<open>pthread_cond_wait\<close> is falling asleep with the mutex released, and taking it again when woken.\<close>

fun my_thread :: "nat \<Rightarrow> my_pc \<Rightarrow> mythreads \<Rightarrow> mythreads outcome" where
  "my_thread t My_Lock s = (if my_mutex s = None then Done (my_goto t My_Wait (s\<lparr>my_mutex := Some t\<rparr>)) else Blocked)"
| "my_thread t My_Wait s = Done (my_goto t My_Asleep (s\<lparr>my_mutex := None\<rparr>))"
| "my_thread t My_Relock s = (if my_mutex s = None then Done (my_goto t My_Show (s\<lparr>my_mutex := Some t\<rparr>)) else Blocked)"
| "my_thread t My_Show s = Done (my_goto t My_Unlock (s\<lparr>my_shown := my_shown s @ [t]\<rparr>))"
| "my_thread t My_Unlock s = Done (my_goto t My_Lock (s\<lparr>my_mutex := None\<rparr>))"
| "my_thread t _ s = Blocked"

definition my_broadcast :: "mythreads \<Rightarrow> mythreads" where
  "my_broadcast s = s\<lparr>my_pc := (\<lambda>t. if my_pc s t = My_Asleep then My_Relock else my_pc s t), my_broadcasts := my_broadcasts s + 1\<rparr>"

text \<open>\<open>main\<close>: it creates the threads, then broadcasts for ever; the joins after the loop are never reached.\<close>

definition my_main :: "bool \<Rightarrow> mythreads \<Rightarrow> mythreads" where
  "my_main ok s =
     (if my_created s < MY_NUM
      then (if ok then my_goto (my_created s) My_Lock s else s)\<lparr>my_created := my_created s + 1\<rparr>
      else my_broadcast s)"

inductive my_step :: "mythreads \<Rightarrow> mythreads \<Rightarrow> bool" where
  my_in_thread: "my_thread t (my_pc s t) s = Done s' \<Longrightarrow> my_step s s'"
| my_in_main: "my_step s (my_main ok s)"
| my_wakes: "my_pc s t = My_Asleep \<Longrightarrow> my_step s ((my_goto t My_Relock s)\<lparr>my_spurious := (my_spurious s)(t := my_spurious s t + 1)\<rparr>)"

fun my_holds :: "my_pc \<Rightarrow> bool" where
  "my_holds My_Wait = True" | "my_holds My_Show = True" | "my_holds My_Unlock = True" | "my_holds _ = False"

fun my_awake :: "my_pc \<Rightarrow> nat" where
  "my_awake My_Relock = 1" | "my_awake My_Show = 1" | "my_awake _ = 0"

definition my_inv :: "mythreads \<Rightarrow> bool" where
  "my_inv s \<longleftrightarrow> (\<forall>t. my_holds (my_pc s t) \<longleftrightarrow> my_mutex s = Some t) \<and> (\<forall>t. my_created s \<le> t \<longrightarrow> my_pc s t = My_Off) \<and>
     (\<forall>t. count_list (my_shown s) t + my_awake (my_pc s t) \<le> my_broadcasts s + my_spurious s t)"

lemma my_inv_thread:
  assumes "my_inv s" "my_thread t (my_pc s t) s = Done s'"
  shows "my_inv s'"
proof -
  have h: "my_holds (my_pc s u) = (my_mutex s = Some u)"
    "my_created s \<le> u \<Longrightarrow> my_pc s u = My_Off"
    "count_list (my_shown s) u + my_awake (my_pc s u) \<le> my_broadcasts s + my_spurious s u" for u
    using assms(1) unfolding my_inv_def by blast+
  have off: "my_created s \<le> u \<Longrightarrow> u \<noteq> t" for u using h(2) [of u] assms(2) by auto
  show ?thesis
    using assms(2) h(1) [of t] h(3) [of t] off
    by (cases "my_pc s t") (auto simp: my_inv_def my_goto_def h split: if_splits)
qed

lemma my_inv_step: "my_inv s \<Longrightarrow> my_step s s' \<Longrightarrow> my_inv s'"
proof (rotate_tac, induction rule: my_step.induct)
  case (my_in_thread t s s')
  then show ?case by (rule my_inv_thread [rotated])
next
  case (my_in_main s ok)
  have h: "my_holds (my_pc s u) = (my_mutex s = Some u)"
    "my_created s \<le> u \<Longrightarrow> my_pc s u = My_Off"
    "count_list (my_shown s) u + my_awake (my_pc s u) \<le> my_broadcasts s + my_spurious s u" for u
    using my_in_main unfolding my_inv_def by blast+
  have b: "my_holds (if p = My_Asleep then My_Relock else p) = my_holds p"
    "my_awake (if p = My_Asleep then My_Relock else p) \<le> my_awake p + 1" for p by auto
  show ?case
  proof (cases "my_created s < MY_NUM")
    case True
    then show ?thesis using h h(1,3) [of "my_created s"] by (auto simp: my_inv_def my_main_def my_goto_def)
  next
    case False
    have "count_list (my_shown s) u + my_awake (if my_pc s u = My_Asleep then My_Relock else my_pc s u) \<le>
        my_broadcasts s + 1 + my_spurious s u" for u
      using h(3) [of u] b(2) [of "my_pc s u"] by linarith
    moreover have "my_created s \<le> u \<longrightarrow> (if my_pc s u = My_Asleep then My_Relock else my_pc s u) = My_Off" for u
      using h(2) [of u] by auto
    ultimately show ?thesis using False h(1) by (simp add: my_inv_def my_main_def my_broadcast_def b(1) del: if_split)
  qed
next
  case (my_wakes s t)
  then have "\<not> my_created s \<le> t" unfolding my_inv_def by fastforce
  with my_wakes show ?case by (auto simp: my_inv_def my_goto_def dest: spec [of _ t])
qed

text \<open>\<open>mythread.cc\<close>: at most one thread is between its calls on the mutex at a time; each prints at most once per
  broadcast and spurious wake-up, so that a broadcast that comes before a thread sleeps is lost for it; and
  \<open>main\<close> can always go on.\<close>

lemma mythreads_woken:
  assumes "my_step\<^sup>*\<^sup>* my_start s"
  shows "(my_holds (my_pc s t) \<and> my_holds (my_pc s u) \<longrightarrow> t = u) \<and>
    count_list (my_shown s) t \<le> my_broadcasts s + my_spurious s t \<and> (MY_NUM \<le> t \<longrightarrow> t \<notin> set (my_shown s)) \<and>
    (\<exists>s'. my_step s s' \<and> my_shown s' = my_shown s)"
proof -
  have start: "my_inv my_start" by (simp add: my_inv_def my_start_def)
  have "my_inv s \<and> my_created s \<le> MY_NUM \<and> (\<forall>t. MY_NUM \<le> t \<longrightarrow> t \<notin> set (my_shown s))"
    using assms
  proof (induction rule: rtranclp_induct)
    case base
    show ?case using start by (simp add: my_start_def)
  next
    case (step x y)
    then have i: "my_inv x" "my_created x \<le> MY_NUM" "\<And>t. MY_NUM \<le> t \<Longrightarrow> t \<notin> set (my_shown x)" by blast+
    have off: "MY_NUM \<le> t \<Longrightarrow> my_pc x t = My_Off" for t using i(1,2) unfolding my_inv_def by (meson order_trans)
    from step.hyps(2) have "my_created y \<le> MY_NUM \<and> (\<forall>t. MY_NUM \<le> t \<longrightarrow> t \<notin> set (my_shown y))"
    proof cases
      case (my_in_thread t)
      then have "\<not> MY_NUM \<le> t" using off by fastforce
      with my_in_thread i show ?thesis by (cases "my_pc x t") (auto simp: my_goto_def split: if_splits)
    qed (use i in \<open>auto simp: my_main_def my_goto_def my_broadcast_def\<close>)
    with my_inv_step [OF i(1) step.hyps(2)] show ?case by blast
  qed
  moreover have "my_step s (my_main False s)" "my_shown (my_main False s) = my_shown s"
    by (rule my_in_main) (simp add: my_main_def my_broadcast_def)
  ultimately show ?thesis unfolding my_inv_def
    by (metis add_leD1 option.inject)
qed


section \<open>Objects of a class in threads: \<open>pthread.cc\<close>\<close>

text \<open>The object a thread makes for itself, and what it prints with \<open>%d\<close>.\<close>

record task_obj =
  to_name :: string
  to_time :: int
  to_id :: int

definition task_obj_new :: "string \<Rightarrow> int \<Rightarrow> int \<Rightarrow> task_obj" where
  "task_obj_new name now number = \<lparr>to_name = name, to_time = now, to_id = number\<rparr>"

definition task_obj_func :: "task_obj \<Rightarrow> int" where
  "task_obj_func o' = int32 (to_id o')"

text \<open>The numbers on the heap, one for each thread that is created; \<open>ml_main\<close>: the next thread, or \<open>None\<close> after the return.\<close>

record multi =
  ml_ready :: "nat set"
  ml_main :: "nat option"
  ml_out :: "int list"

definition pthread_func :: "int \<Rightarrow> nat \<Rightarrow> int" where
  "pthread_func now i = task_obj_func (task_obj_new ''name'' now (int i + 1))"

inductive multi_step :: "multi \<Rightarrow> multi \<Rightarrow> bool" where
  ml_create: "ml_main s = Some i \<Longrightarrow> i < 5 \<Longrightarrow>
     multi_step s (s\<lparr>ml_main := Some (Suc i), ml_ready := (if ok then insert i (ml_ready s) else ml_ready s)\<rparr>)"
| ml_return: "ml_main s = Some i \<Longrightarrow> 5 \<le> i \<Longrightarrow> multi_step s (s\<lparr>ml_main := None\<rparr>)"
| ml_thread: "ml_main s \<noteq> None \<Longrightarrow> i \<in> ml_ready s \<Longrightarrow>
     multi_step s (s\<lparr>ml_ready := ml_ready s - {i}, ml_out := ml_out s @ [pthread_func now i]\<rparr>)"

text \<open>\<open>pthread.cc\<close>: numbers 1 to 5, each at most once, in the order of the threads as they run. \<open>main\<close> joins none of
  them: numbers may be missing when it returns.\<close>

lemma multi_numbers:
  assumes "multi_step\<^sup>*\<^sup>* \<lparr>ml_ready = {}, ml_main = Some 0, ml_out = []\<rparr> s"
  shows "distinct (ml_out s) \<and> set (ml_out s) \<subseteq> {1..5}"
proof -
  let ?i = "\<lambda>s. distinct (ml_out s) \<and> set (ml_out s) \<subseteq> {1..5} \<and> (\<forall>i. i \<in> ml_ready s \<longrightarrow> i < 5 \<and> int i + 1 \<notin> set (ml_out s)) \<and>
    (\<forall>j. ml_main s = Some j \<longrightarrow> (\<forall>i \<ge> j. i \<notin> ml_ready s \<and> int i + 1 \<notin> set (ml_out s)) \<and> ml_ready s \<subseteq> {..<j} \<and> j \<le> 5)"
  have f: "pthread_func now i = int i + 1" if "i < 5" for now i
    using that by (simp add: pthread_func_def task_obj_func_def task_obj_new_def int32_id fits_int_def)
  have "?i s"
    using assms
  proof (induction rule: rtranclp_induct)
    case (step x y)
    from step.hyps(2) show ?case
    proof cases
      case (ml_thread i now)
      with step.IH have i: "i < 5" by blast
      with f step.IH ml_thread show ?thesis by auto
    qed (use step.IH in auto)
  qed simp
  then show ?thesis by blast
qed

section \<open>Thread numbers in hexadecimal: \<open>addr.cc\<close>\<close>

definition hex_digits :: string where "hex_digits = ''0123456789abcdef''"

fun hex_of :: "nat \<Rightarrow> string" where
  "hex_of n = (if n < 16 then [hex_digits ! n] else hex_of (n div 16) @ [hex_digits ! (n mod 16)])"

declare hex_of.simps [simp del]

text \<open>\<open>%x\<close> takes an \<open>unsigned int\<close>: of the 64 bits of a \<open>pthread_t\<close> it shows the lower 32.\<close>

definition DecToHex :: "64 word \<Rightarrow> string" where
  "DecToHex tid = snprintf 64 (''0x'' @ hex_of (unat (ucast tid :: 32 word)))"

definition hex_value :: "string \<Rightarrow> nat" where
  "hex_value s = foldl (\<lambda>n c. 16 * n + length (takeWhile (\<lambda>d. d \<noteq> c) hex_digits)) 0 s"

lemma hex_digit: "d < 16 \<Longrightarrow> length (takeWhile (\<lambda>c. c \<noteq> hex_digits ! d) hex_digits) = d"
proof -
  have "list_all (\<lambda>d. length (takeWhile (\<lambda>c. c \<noteq> hex_digits ! d) hex_digits) = d) [0..<16]" by code_simp
  then show "d < 16 \<Longrightarrow> ?thesis" by (simp add: list_all_iff)
qed

lemma hex_of_value: "hex_value (hex_of n) = n"
proof (induction n rule: hex_of.induct)
  case (1 n)
  then show ?case by (subst hex_of.simps) (simp add: hex_value_def hex_digit)
qed

lemma length_hex_of: "n < 16 ^ Suc k \<Longrightarrow> length (hex_of n) \<le> Suc k"
proof (induction k arbitrary: n)
  case (Suc k)
  then have "n div 16 < 16 ^ Suc k" by (simp add: less_mult_imp_div_less mult.commute)
  with Suc.IH show ?case by (subst hex_of.simps) simp
qed (simp add: hex_of.simps)

text \<open>\<open>DecToHex\<close> reads back as the lower half of the number, so that it tells two threads apart exactly if their
  lower halves differ.\<close>

lemma DecToHex_lower:
  "hex_value (drop 2 (DecToHex tid)) = unat tid mod 2 ^ 32 \<and>
   (DecToHex a = DecToHex b \<longleftrightarrow> unat a mod 2 ^ 32 = unat b mod 2 ^ 32)"
proof -
  have u: "unat (ucast t :: 32 word) = unat t mod 2 ^ 32" for t :: "64 word" by (simp add: unsigned_ucast_eq take_bit_eq_mod)
  have l: "length (hex_of (unat t mod 2 ^ 32)) \<le> Suc 7" for t :: "64 word" by (rule length_hex_of) simp
  have d: "DecToHex t = ''0x'' @ hex_of (unat t mod 2 ^ 32)" for t
    using l [of t] unfolding DecToHex_def u snprintf_def by (intro take_all) simp
  have "hex_of m = hex_of n \<longleftrightarrow> m = n" for m n by (metis hex_of_value)
  then show ?thesis by (simp add: d hex_of_value)
qed

end
