(* ===== verification/InputLessons.thy ===== *)
theory InputLessons
  imports Log Kernel
begin

text \<open>
  Two programs that read in a loop and print the array as it is: \<open>8.6/NonBlock/main.cc\<close>, which polls
  the standard input, and \<open>5.25/pipe/pipe.cpp\<close>, a parent that reads what its child writes.
\<close>

unbundle bit_operations_syntax

section \<open>Polling the standard input\<close>

text \<open>What the program does as seen from outside: prompts, texts, log lines by level, and its other work.\<close>

datatype nb_event = Prompt | Shown string | Logged LEVEL string | OtherTask

definition nb_log :: "LEVEL \<Rightarrow> string \<Rightarrow> fmt_arg list \<Rightarrow> nb_event list outcome" where
  "nb_log l format args = bind_out (vformat format args) (\<lambda>message. Done [Logged l (snprintf 1024 message)])"

text \<open>\<open>SetNonBlock_input\<close>; \<open>flags\<close> is what \<open>fcntl\<close> returns. It gives the flags that are set.\<close>

definition O_NONBLOCK :: "32 word" where "O_NONBLOCK = 0x800"

definition SetNonBlock_input :: "int \<Rightarrow> 32 word outcome" where
  "SetNonBlock_input flags = (if flags < 0 then Crash (ExitWith (level_num Error)) else Done (word_of_int flags OR O_NONBLOCK))"

text \<open>
  One round for one answer of \<open>read\<close>; the array is not terminated. \<open>strerror\<close> gives the text of an
  error number.
\<close>

definition nb_round :: "(int \<Rightarrow> string) \<Rightarrow> recv_res \<Rightarrow> string \<Rightarrow> (string \<times> nb_event list) outcome" where
  "nb_round strerror r buffer =
     (let eof = bind_out (nb_log Info ''end of file'' []) (\<lambda>e. Done (buffer, Prompt # e)) in
      case r of
        RData d \<Rightarrow>
          (if d = [] then eof
           else (let buffer' = recv_into buffer d
                 in bind_out (c_string buffer') (\<lambda>t. Done (buffer', [Prompt, Shown (''I get: '' @ t)]))))
      | REof \<Rightarrow> eof
      | RErr EAGAIN \<Rightarrow> Done (buffer, [Prompt, OtherTask])
      | RErr EINTR \<Rightarrow> Done (buffer, [Prompt])
      | RErr (EOther n) \<Rightarrow> bind_out (nb_log Error ''errno:%d, errstring%s'' [AInt n, AStr (strerror n)]) (\<lambda>e. Done (buffer, Prompt # e)))"

definition nb_main :: "(int \<Rightarrow> string) \<Rightarrow> int \<Rightarrow> recv_res list \<Rightarrow> string \<Rightarrow> (string \<times> nb_event list) outcome" where
  "nb_main strerror flags answers buffer =
     bind_out (SetNonBlock_input flags) (\<lambda>_.
       for_each (\<lambda>r (buffer, out). bind_out (nb_round strerror r buffer) (\<lambda>(buffer, e). Done (buffer, out @ e))) answers (buffer, []))"

text \<open>A text shorter than what the array held before is shown with the end of the older one.\<close>

lemma nb_stale:
  assumes "NUL \<notin> set d" "NUL \<notin> set old" "length d \<le> length old" "d \<noteq> []"
  shows "nb_round strerror (RData d) (old @ NUL # tail) = Done (recv_into (old @ NUL # tail) d, [Prompt, Shown (''I get: '' @ d @ drop (length d) old)])"
proof -
  have e: "recv_into (old @ NUL # tail) d = (d @ drop (length d) old) @ NUL # tail" using assms(3) by (simp add: recv_into_def)
  have "NUL \<notin> set (drop (length d) old)" using assms(2) by (auto dest: in_set_dropD)
  then have "c_string (recv_into (old @ NUL # tail) d) = Done (d @ drop (length d) old)"
    unfolding e c_string_def c_str_stop using assms(1) by (simp add: c_str_id)
  then show ?thesis using assms(4) by (simp add: nb_round_def Let_def)
qed

definition quiet_answer :: "recv_res \<Rightarrow> bool" where
  "quiet_answer r \<longleftrightarrow> r = RErr EAGAIN \<or> r = RErr EINTR"

lemma nb_quiet:
  assumes "list_all quiet_answer rs"
  shows "for_each (\<lambda>r (buffer, out). bind_out (nb_round strerror r buffer) (\<lambda>(buffer, e). Done (buffer, out @ e))) rs (b, out) =
    Done (b, out @ concat (map (\<lambda>r. Prompt # (if r = RErr EAGAIN then [OtherTask] else [])) rs))"
  using assms by (induction rs arbitrary: out) (auto simp: nb_round_def quiet_answer_def)

lemma nb_eof:
  "for_each (\<lambda>r (buffer, out). bind_out (nb_round strerror r buffer) (\<lambda>(buffer, e). Done (buffer, out @ e))) (replicate n REof) (b, out) =
    Done (b, out @ concat (replicate n [Prompt, Logged Info ''end of file'']))"
  by (induction n arbitrary: out) (simp_all add: nb_round_def nb_log_def snprintf_def)


text \<open>\<open>NonBlock/main.cc\<close>, once \<open>fcntl\<close> has worked: a text that follows a longer one, however often nothing was there in
  between, is shown with the end of the longer one; the first text is printed beyond the array if there happens to be no zero
  byte in it; and after the end of the input the program goes round without a pause, logging each time.\<close>

theorem nonblock_input:
  assumes "0 \<le> flags" "NUL \<notin> set d" "NUL \<notin> set old" "length d \<le> length old" "length old < length buffer"
    and "buffer ! length old = NUL" "list_all quiet_answer rs" "NUL \<notin> set junk" "d \<noteq> []"
  shows "\<exists>b. nb_main strerror flags (RData old # rs @ RData d # replicate n REof) buffer = Done (b,
      [Prompt, Shown (''I get: '' @ old)] @ concat (map (\<lambda>r. Prompt # (if r = RErr EAGAIN then [OtherTask] else [])) rs) @
      [Prompt, Shown (''I get: '' @ d @ drop (length d) old)] @ concat (replicate n [Prompt, Logged Info ''end of file'']))"
    and "length d \<le> length junk \<Longrightarrow> nb_main strerror flags (RData d # later) junk = Crash OutOfBounds"
proof -
  let ?more = "drop (Suc (length old)) buffer"
  let ?loop = "\<lambda>r (buffer, out). bind_out (nb_round strerror r buffer) (\<lambda>(buffer, e). Done (buffer, out @ e))"
  obtain f where f: "SetNonBlock_input flags = Done f" using assms(1) by (simp add: SetNonBlock_input_def)
  have e: "recv_into buffer old = old @ NUL # ?more"
    using assms(5,6) by (simp add: recv_into_def Cons_nth_drop_Suc [symmetric])
  have first: "nb_round strerror (RData old) buffer = Done (old @ NUL # ?more, [Prompt, Shown (''I get: '' @ old)])"
    using assms(3,4,9) by (auto simp: nb_round_def e c_string_def c_str_stop c_str_id)
  show "\<exists>b. nb_main strerror flags (RData old # rs @ RData d # replicate n REof) buffer = Done (b,
      [Prompt, Shown (''I get: '' @ old)] @ concat (map (\<lambda>r. Prompt # (if r = RErr EAGAIN then [OtherTask] else [])) rs) @
      [Prompt, Shown (''I get: '' @ d @ drop (length d) old)] @ concat (replicate n [Prompt, Logged Info ''end of file'']))"
    by (simp add: nb_main_def f first for_each_append nb_quiet [OF assms(7)] nb_stale [OF assms(2-4,9)] nb_eof del: bind_out_Done_iff)
  assume "length d \<le> length junk"
  have "NUL \<notin> set (recv_into junk d)" using assms(2,8) by (auto simp: recv_into_def dest: in_set_dropD)
  then show "nb_main strerror flags (RData d # later) junk = Crash OutOfBounds"
    using assms(9) by (simp add: nb_main_def f nb_round_def c_string_def)
qed

section \<open>A parent and its child: \<open>pipe.cpp\<close>\<close>

text \<open>
  \<open>pp_chunks\<close> are the bytes of each \<open>read\<close> of the parent, none at the end of the file; the code does not
  keep them. A write of one line waits until it fits into the pipe.
\<close>

record pipe_prog =
  pp_cnt :: int
  pp_alive :: bool
  pp_pipe :: string
  pp_buffer :: string
  pp_shown :: "string list"
  pp_chunks :: "string list"

definition PIPE_SIZE :: nat where "PIPE_SIZE = 65536"

definition pp_start :: "bool \<Rightarrow> string \<Rightarrow> pipe_prog" where
  "pp_start forked buffer = \<lparr>pp_cnt = 1, pp_alive = forked, pp_pipe = [], pp_buffer = buffer, pp_shown = [], pp_chunks = []\<rparr>"

definition child_line :: "int \<Rightarrow> string" where
  "child_line cnt = snprintf 1024 (''hello, I am child, cnt: '' @ to_string cnt @ [newline])"

definition pp_child :: "pipe_prog \<Rightarrow> pipe_prog outcome" where
  "pp_child s =
     (if \<not> pp_alive s then Blocked
      else if \<not> fits_int (pp_cnt s + 1) then Crash SignedOverflow
      else (let buffer = child_line (pp_cnt s)
            in if PIPE_SIZE < length (pp_pipe s) + length buffer then Blocked
               else Done (s\<lparr>pp_pipe := pp_pipe s @ buffer, pp_cnt := pp_cnt s + 1\<rparr>)))"

text \<open>The parent reads at most 1023 bytes; the result of \<open>read\<close> is not looked at.\<close>

definition pp_parent :: "pipe_prog \<Rightarrow> pipe_prog outcome" where
  "pp_parent s =
     (if pp_pipe s = [] \<and> pp_alive s then Blocked
      else (let d = take 1023 (pp_pipe s); buffer = recv_into (pp_buffer s) d
            in bind_out (c_string buffer) (\<lambda>t.
                 Done (s\<lparr>pp_pipe := drop 1023 (pp_pipe s), pp_buffer := buffer,
                         pp_shown := pp_shown s @ [''I am father, I get :'' @ t], pp_chunks := pp_chunks s @ [d]\<rparr>))))"

inductive pp_step :: "pipe_prog \<Rightarrow> pipe_prog \<Rightarrow> bool" where
  pp_writes: "pp_child s = Done s' \<Longrightarrow> pp_step s s'"
| pp_reads: "pp_parent s = Done s' \<Longrightarrow> pp_step s s'"
| pp_dies: "pp_step s (s\<lparr>pp_alive := False\<rparr>)"

definition pp_inv :: "pipe_prog \<Rightarrow> bool" where
  "pp_inv s \<longleftrightarrow> 1 \<le> pp_cnt s \<and> fits_int (pp_cnt s) \<and> concat (pp_chunks s) @ pp_pipe s = concat (map child_line [1..pp_cnt s - 1]) \<and>
     length (pp_buffer s) = 1024 \<and> pp_buffer s ! 1023 = NUL \<and>
     list_all2 (\<lambda>c t. prefix (''I am father, I get :'' @ c) t) (pp_chunks s) (pp_shown s)"

lemma child_line_plain: "NUL \<notin> set (child_line cnt)"
proof -
  have "NUL \<notin> set (''hello, I am child, cnt: '' @ to_string cnt @ [newline])"
    using to_string_no_NUL [of cnt] by (simp add: NUL_def newline_def)
  then show ?thesis by (auto simp: child_line_def snprintf_def dest: in_set_takeD)
qed


lemma pp_inv_step:
  assumes "pp_inv s" "pp_step s s'"
  shows "pp_inv s'"
  using assms(2)
proof cases
  case pp_writes
  then have s': "s' = s\<lparr>pp_pipe := pp_pipe s @ child_line (pp_cnt s), pp_cnt := pp_cnt s + 1\<rparr>" "fits_int (pp_cnt s + 1)"
    by (auto simp: pp_child_def Let_def split: if_splits)
  have "[1..pp_cnt s] = [1..pp_cnt s - 1] @ [pp_cnt s]" using assms(1) by (intro upto_rec2) (simp add: pp_inv_def)
  then show ?thesis using assms(1) s' by (simp add: pp_inv_def)
next
  case pp_reads
  let ?d = "take 1023 (pp_pipe s)"
  have n: "NUL \<notin> set ?d"
  proof -
    have "set (pp_pipe s) \<subseteq> set (concat (pp_chunks s) @ pp_pipe s)" by simp
    also have "\<dots> = set (concat (map child_line [1..pp_cnt s - 1]))" using assms(1) unfolding pp_inv_def by metis
    finally show ?thesis using child_line_plain by (fastforce dest: in_set_takeD)
  qed
  from pp_reads obtain t where t: "c_string (recv_into (pp_buffer s) ?d) = Done t"
    "s' = s\<lparr>pp_pipe := drop 1023 (pp_pipe s), pp_buffer := recv_into (pp_buffer s) ?d,
       pp_shown := pp_shown s @ [''I am father, I get :'' @ t], pp_chunks := pp_chunks s @ [?d]\<rparr>"
    by (auto simp: pp_parent_def Let_def split: if_splits)
  then have "t = ?d @ c_str (drop (length ?d) (pp_buffer s))"
    using n c_str_append [OF n] by (simp add: c_string_def recv_into_def split: if_splits)
  then have "prefix (''I am father, I get :'' @ ?d) (''I am father, I get :'' @ t)" by simp
  moreover have "recv_into (pp_buffer s) ?d ! 1023 = NUL" "length (recv_into (pp_buffer s) ?d) = 1024"
    using assms(1) by (auto simp: recv_into_def pp_inv_def nth_append)
  moreover have "concat (pp_chunks s @ [?d]) @ drop 1023 (pp_pipe s) = concat (pp_chunks s) @ pp_pipe s" by simp
  ultimately show ?thesis
    using assms(1) unfolding t(2) pp_inv_def by (simp add: list_all2_appendI)
next
  case pp_dies
  then show ?thesis using assms(1) by (simp add: pp_inv_def)
qed

text \<open>\<open>pipe.cpp\<close> from an array that happens to end in a zero byte: all that the parent has read, and what is still in the pipe, are
  the lines of the child in order; what it prints after a read begins with what it has read, and it never
  goes wrong. Once the child is gone and the pipe is empty it prints the old array for ever.\<close>

theorem pipe_conserves:
  assumes "pp_step\<^sup>*\<^sup>* (pp_start forked buffer) s" "length buffer = 1024" "buffer ! 1023 = NUL"
  shows "concat (pp_chunks s) @ pp_pipe s = concat (map child_line [1..pp_cnt s - 1]) \<and>
    list_all2 (\<lambda>c t. prefix (''I am father, I get :'' @ c) t) (pp_chunks s) (pp_shown s) \<and>
    (\<forall>e. pp_parent s \<noteq> Crash e) \<and>
    (pp_pipe s = [] \<and> \<not> pp_alive s \<longrightarrow>
      (\<exists>s'. pp_step s s' \<and> pp_buffer s' = pp_buffer s \<and> pp_pipe s' = [] \<and>
         pp_shown s' = pp_shown s @ [''I am father, I get :'' @ c_str (pp_buffer s)]))"
proof -
  have inv: "pp_inv s"
    using assms(1)
  proof (induction rule: rtranclp_induct)
    case base
    show ?case using assms(2,3) by (simp add: pp_inv_def pp_start_def fits_int_def)
  qed (rule pp_inv_step)
  have "recv_into (pp_buffer s) (take 1023 (pp_pipe s)) ! 1023 = NUL" "length (recv_into (pp_buffer s) (take 1023 (pp_pipe s))) = 1024"
    using inv by (auto simp: recv_into_def pp_inv_def nth_append)
  then have "NUL \<in> set (recv_into (pp_buffer s) (take 1023 (pp_pipe s)))"
    using nth_mem [of 1023 "recv_into (pp_buffer s) (take 1023 (pp_pipe s))"] by simp
  then have r: "c_string (recv_into (pp_buffer s) (take 1023 (pp_pipe s))) = Done (c_str (recv_into (pp_buffer s) (take 1023 (pp_pipe s))))"
    by (simp add: c_string_def)
  have "\<exists>s'. pp_step s s' \<and> pp_buffer s' = pp_buffer s \<and> pp_pipe s' = [] \<and>
      pp_shown s' = pp_shown s @ [''I am father, I get :'' @ c_str (pp_buffer s)]" if "pp_pipe s = []" "\<not> pp_alive s"
  proof -
    let ?s = "s\<lparr>pp_shown := pp_shown s @ [''I am father, I get :'' @ c_str (pp_buffer s)], pp_chunks := pp_chunks s @ [[]]\<rparr>"
    have "pp_parent s = Done ?s"
      using that r by (simp add: pp_parent_def recv_into_def del: bind_out_Done_iff)
    then show ?thesis using that(1) by (intro exI [of _ ?s]) (simp add: pp_reads)
  qed
  moreover have "pp_parent s \<noteq> Crash e" for e by (simp add: pp_parent_def r Let_def)
  ultimately show ?thesis using inv unfolding pp_inv_def by blast
qed

end
