(* ===== verification/Programs.thy ===== *)
theory Programs
  imports Fifo UdpEcho Tcp Http CalServer
begin

text \<open>
  The \<open>main\<close> functions around the servers and clients: what they make of their arguments, how they get
  their sockets and pipes, and which exit code they leave. \<open>args\<close> are the arguments after the name of the
  program. A server is taken up to the loop that serves its clients, a client to the end of its loop.
\<close>

section \<open>Arguments\<close>

text \<open>\<open>argv[i + 1]\<close>: behind the last argument there is a null pointer.\<close>

definition argv_at :: "string list \<Rightarrow> nat \<Rightarrow> string outcome" where
  "argv_at args i = (if i < length args then Done (args ! i) else Crash OutOfBounds)"

text \<open>\<open>uint16_t port = atoi(argv[i + 1])\<close>\<close>

definition port_arg :: "string \<Rightarrow> int" where
  "port_arg a = uint16 (atoi a)"

section \<open>Servers\<close>

definition http_main :: "string list \<Rightarrow> kernel \<Rightarrow> http_server outcome" where
  "http_main args k =
     (if length args \<noteq> 1 then Crash (ExitWith USAGE_ERR)
      else bind_out (argv_at args 0) (\<lambda>a. init_http_server (port_arg a) k))"

definition http_main_0 :: "kernel \<Rightarrow> http_server outcome" where
  "http_main_0 k = init_http_server 8888 k"

definition tcp_main :: "kernel \<Rightarrow> tcp_server outcome" where
  "tcp_main k = tcp_server_init 8888 k"

definition cal_main :: "kernel \<Rightarrow> cal_server outcome" where
  "cal_main k = init_cal_server 8888 k"

text \<open>The UDP servers print how they are used and go on; the usage is all that is shown of \<open>argc\<close>.\<close>

definition udp_main :: "(string \<Rightarrow> string option) \<Rightarrow> string list \<Rightarrow> datagram list \<Rightarrow> kernel \<Rightarrow> (address \<times> string) list outcome" where
  "udp_main shell args ds k =
     bind_out (argv_at args 0) (\<lambda>a.
     bind_out (udp_server_init (port_arg a) k) (\<lambda>_. udp_server_start (handle_func2 shell) ds))"

definition udp_main_16 :: "string list \<Rightarrow> datagram list \<Rightarrow> kernel \<Rightarrow> (address \<times> string) list outcome" where
  "udp_main_16 args ds k =
     bind_out (argv_at args 0) (\<lambda>a.
     bind_out (udp_server_init_16 (port_arg a) k) (\<lambda>_. udp_server_start_16 ds))"

definition chat_main :: "string list \<Rightarrow> kernel \<Rightarrow> (int \<times> kernel \<times> chat) outcome" where
  "chat_main args k = bind_out (argv_at args 0) (\<lambda>a. chat_server_start (port_arg a) k)"

section \<open>Clients\<close>

definition client_socket :: "kernel \<Rightarrow> (int \<times> kernel) outcome" where
  "client_socket k = (if k_ok k Sys_socket then Done (k_new_fd k) else Crash (ExitWith SOCKET_ERROR))"

definition tcp_client_main :: "string list \<Rightarrow> bool list \<Rightarrow> string \<Rightarrow> string list \<Rightarrow> kernel \<Rightarrow> (string list \<times> kernel) outcome" where
  "tcp_client_main args answers buffer lines k =
     (if length args \<noteq> 2 then Crash (ExitWith USAGE_ERR)
      else bind_out (argv_at args 0) (\<lambda>server_ip.
           bind_out (argv_at args 1) (\<lambda>port.
           bind_out (client_socket k) (\<lambda>(sock, k1).
           bind_out (tcp_connect answers) (\<lambda>_. tcp_client_loop sock buffer lines [] k1)))))"

definition udp_client_main :: "string list \<Rightarrow> string list \<Rightarrow> datagram list \<Rightarrow> kernel \<Rightarrow> string list outcome" where
  "udp_client_main args lines replies k =
     bind_out (argv_at args 0) (\<lambda>server_ip.
     bind_out (argv_at args 1) (\<lambda>port.
     bind_out (client_socket k) (\<lambda>_. udp_client lines replies [])))"

definition udp_client_main_16 :: "string list \<Rightarrow> string list \<Rightarrow> datagram list \<Rightarrow> kernel \<Rightarrow> string list outcome" where
  "udp_client_main_16 args lines replies k =
     bind_out (argv_at args 0) (\<lambda>server_ip.
     bind_out (argv_at args 1) (\<lambda>port.
     bind_out (client_socket k) (\<lambda>_. udp_client_16 lines replies [])))"

text \<open>
  The chat client: its second thread shows what arrives, \<open>main\<close> sends the lines typed, for ever: at the
  end of the input \<open>getline\<close> leaves an empty line. \<open>n\<close> is the number of rounds.
\<close>

fun chat_client_send :: "nat \<Rightarrow> string list \<Rightarrow> string list \<Rightarrow> string list" where
  "chat_client_send 0 input sent = sent"
| "chat_client_send (Suc n) input sent =
     (case input of
        [] \<Rightarrow> chat_client_send n [] (sent @ [[]])
      | message # lines \<Rightarrow> chat_client_send n lines (sent @ [message]))"

definition chat_client_main :: "nat \<Rightarrow> string list \<Rightarrow> string list \<Rightarrow> datagram list \<Rightarrow> kernel \<Rightarrow> (string list \<times> string list) outcome" where
  "chat_client_main n args input replies k =
     bind_out (argv_at args 0) (\<lambda>server_ip.
     bind_out (argv_at args 1) (\<lambda>port.
     bind_out (client_socket k) (\<lambda>_.
     bind_out (for_each recv_from_server replies []) (\<lambda>shown. Done (chat_client_send n input [], shown)))))"

definition cal_client_main :: "json_lib \<Rightarrow> string list \<Rightarrow> string list \<Rightarrow> kernel \<Rightarrow> (response list \<times> kernel) outcome option" where
  "cal_client_main J args lines k =
     (case bind_out (argv_at args 0) (\<lambda>server_ip. bind_out (argv_at args 1) (\<lambda>port.
        bind_out (sock_Socket sock_new k) (\<lambda>(client, k1).
          if sock_Connect server_ip (port_arg port) client k1 \<noteq> 0 then Crash (ExitWith CONNECT_ERROR)
          else Done (sock_fd client, k1)))) of
        Done (client_sock, k1) \<Rightarrow> client_loop J client_sock [] lines [] k1
      | Crash e \<Rightarrow> Some (Crash e)
      | Blocked \<Rightarrow> Some Blocked)"


section \<open>The named pipe\<close>

text \<open>
  \<open>there\<close> and the last component of the results: whether the file \<open>./fifo\<close> exists. \<open>mkfifo\<close> fails if it
  does, or for another reason if \<open>mk\<close> is false; \<open>op\<close>: whether \<open>open\<close> succeeds on an existing pipe. The first
  component of a result is the exit code.
\<close>

definition mkfifo_ok :: "bool \<Rightarrow> bool \<Rightarrow> bool" where
  "mkfifo_ok mk there \<longleftrightarrow> mk \<and> \<not> there"

definition newserver_main :: "bool \<Rightarrow> bool \<Rightarrow> recv_res list \<Rightarrow> string \<Rightarrow> bool \<Rightarrow> (int \<times> string list \<times> bool) outcome" where
  "newserver_main mk op reads buffer there =
     (if \<not> mkfifo_ok mk there then Done (1, [], there)
      else if \<not> op then Done (2, [], True)
      else bind_out (newserver buffer reads []) (\<lambda>shown. Done (0, shown, False)))"

text \<open>\<open>server.cc\<close> only prints that a call has failed; \<open>read\<close> from the descriptor -1 then fails each time.\<close>

definition server_old_main :: "bool \<Rightarrow> bool \<Rightarrow> recv_res list \<Rightarrow> string \<Rightarrow> bool \<Rightarrow> (int \<times> string list \<times> bool) outcome" where
  "server_old_main mk op reads buffer there =
     (let there' = there \<or> mk
      in bind_out (server_old buffer (if op \<and> there' then reads else map (\<lambda>_. RErr (EOther 9)) reads) [])
           (\<lambda>shown. Done (0, shown, there')))"

definition newclient_main :: "bool \<Rightarrow> string \<Rightarrow> string \<Rightarrow> bool \<Rightarrow> (int \<times> string list \<times> bool) outcome" where
  "newclient_main op buffer input there =
     (if \<not> (there \<and> op) then Done (1, [], there)
      else bind_out (newclient buffer input []) (\<lambda>sent. Done (0, sent, there)))"

definition client_old_main :: "bool \<Rightarrow> string \<Rightarrow> string list \<Rightarrow> bool \<Rightarrow> (int \<times> string list \<times> bool) outcome" where
  "client_old_main op buffer lines there =
     (if \<not> (there \<and> op) then Done (1, [], there)
      else bind_out (client_old buffer lines []) (\<lambda>sent. Done (0, sent, False)))"

section \<open>What the arguments and the surroundings decide\<close>

lemma chat_client_sends: "chat_client_send (length input + n) input sent = sent @ input @ replicate n []"
proof (induction input arbitrary: sent)
  case Nil
  then show ?case by (induction n arbitrary: sent) (simp_all add: replicate_append_same)
qed simp

lemma open_listener_works:
  assumes "k_ok k Sys_socket" "k_ok k Sys_bind" "k_ok k Sys_listen"
  shows "\<exists>s k'. open_listener port k = Done (s, k') \<and> k_bound k' (sock_fd s) = Some (uint16 port) \<and> k_listening k' (sock_fd s)"
proof -
  have "\<exists>s k'. open_listener port k = Done (s, k')"
    using assms by (simp add: open_listener_def sock_Socket_def sock_Bind_def sock_Listen_def k_new_fd_def Let_def del: bind_out_Done_iff)
  then show ?thesis using open_listener_Done(3,4) by blast
qed

lemma uint16_uint16 [simp]: "uint16 (uint16 p) = uint16 p"
  by (simp add: uint16_mod)

lemma port_arg_number: "fits_int p \<Longrightarrow> port_arg (to_string p) = p mod 65536"
  by (simp add: port_arg_def atoi_to_string uint16_mod)

text \<open>How the programs start. The web server exits with 1 unless it has exactly one argument, and listens on that number modulo
  65536; the TCP client exits with 1 unless it has two arguments and with 5 if five attempts to connect fail. The UDP servers and
  all UDP clients and the calculator's client only print their usage: with too few arguments they read behind them, with too many they
  work as if the others were not there, and the UDP server gives any text it receives to the shell.\<close>

theorem programs_start:
  assumes "k_ok k Sys_socket" "k_ok k Sys_bind" "k_ok k Sys_listen" "fits_int p"
  shows "(http_main args k = Crash (ExitWith USAGE_ERR) \<longleftrightarrow> length args \<noteq> 1)"
    and "\<exists>s. http_main [to_string p] k = Done s \<and> k_listening (hs_kern s) (sock_fd (hs_listensock s)) \<and>
      k_bound (hs_kern s) (sock_fd (hs_listensock s)) = Some (p mod 65536)"
    and "length args \<noteq> 2 \<Longrightarrow> tcp_client_main args answers buffer lines k = Crash (ExitWith USAGE_ERR)"
    and "tcp_client_main [ip, a] (replicate 5 False) buffer lines k = Crash (ExitWith CONNECT_ERROR)"
    and "udp_main shell [] ds k = Crash OutOfBounds \<and> udp_main_16 [] ds k = Crash OutOfBounds \<and> chat_main [] k = Crash OutOfBounds"
    and "udp_main shell (a # more_args) ds k = udp_server_start (handle_func2 shell) ds \<and>
      udp_main_16 (a # more_args) ds k = udp_server_start_16 ds"
    and "length args < 2 \<Longrightarrow> udp_client_main args lines replies k = Crash OutOfBounds \<and>
      udp_client_main_16 args lines replies k = Crash OutOfBounds \<and> chat_client_main n args lines replies k = Crash OutOfBounds \<and>
      cal_client_main J args lines k = Some (Crash OutOfBounds)"
    and "udp_client_main (ip # a # more_args) lines replies k = udp_client lines replies [] \<and>
      chat_client_main (length lines + n) (ip # a # more_args) lines replies k =
        bind_out (for_each recv_from_server replies []) (\<lambda>shown. Done (lines @ replicate n [], shown))"
proof -
  note works = open_listener_works [OF assms(1-3)]
  show "http_main args k = Crash (ExitWith USAGE_ERR) \<longleftrightarrow> length args \<noteq> 1"
    using works [of "port_arg (args ! 0)"] by (auto simp: http_main_def argv_at_def init_http_server_def)
  have "port_arg (to_string p) = p mod 65536" "uint16 (p mod 65536) = p mod 65536"
    using port_arg_number [OF assms(4)] by (simp_all add: uint16_mod)
  with works [of "port_arg (to_string p)"]
  show "\<exists>s. http_main [to_string p] k = Done s \<and> k_listening (hs_kern s) (sock_fd (hs_listensock s)) \<and>
      k_bound (hs_kern s) (sock_fd (hs_listensock s)) = Some (p mod 65536)"
    by (auto simp: http_main_def argv_at_def init_http_server_def)
  show "length args \<noteq> 2 \<Longrightarrow> tcp_client_main args answers buffer lines k = Crash (ExitWith USAGE_ERR)"
    by (simp add: tcp_client_main_def)
  show "tcp_client_main [ip, a] (replicate 5 False) buffer lines k = Crash (ExitWith CONNECT_ERROR)"
    using assms(1) by (simp add: tcp_client_main_def argv_at_def client_socket_def k_new_fd_def tcp_connect_def numeral_eq_Suc split: prod.split)
  show "udp_main shell [] ds k = Crash OutOfBounds \<and> udp_main_16 [] ds k = Crash OutOfBounds \<and> chat_main [] k = Crash OutOfBounds"
    by (simp add: udp_main_def udp_main_16_def chat_main_def argv_at_def)
  show "udp_main shell (a # more_args) ds k = udp_server_start (handle_func2 shell) ds \<and>
      udp_main_16 (a # more_args) ds k = udp_server_start_16 ds"
    using assms(1,2) by (simp add: udp_main_def udp_main_16_def argv_at_def udp_server_init_def udp_server_init_16_def k_new_fd_def Let_def)
  show "udp_client_main (ip # a # more_args) lines replies k = udp_client lines replies [] \<and>
      chat_client_main (length lines + n) (ip # a # more_args) lines replies k =
        bind_out (for_each recv_from_server replies []) (\<lambda>shown. Done (lines @ replicate n [], shown))"
    using assms(1) by (simp add: udp_client_main_def chat_client_main_def argv_at_def client_socket_def chat_client_sends)
  assume "length args < 2"
  then have "args = [] \<or> (\<exists>x. args = [x])" by (cases args rule: remdups_adj.cases) auto
  then show "udp_client_main args lines replies k = Crash OutOfBounds \<and>
      udp_client_main_16 args lines replies k = Crash OutOfBounds \<and> chat_client_main n args lines replies k = Crash OutOfBounds \<and>
      cal_client_main J args lines k = Some (Crash OutOfBounds)"
    by (auto simp: udp_client_main_def udp_client_main_16_def chat_client_main_def cal_client_main_def argv_at_def)
qed


lemma programs_start_witness:
  "(\<exists>s. http_main [''65616''] boot_kernel = Done s \<and> k_bound (hs_kern s) (sock_fd (hs_listensock s)) = Some 80) \<and>
   udp_client_main [''127.0.0.1''] [''hello''] [] boot_kernel = Crash OutOfBounds \<and>
   tcp_client_main [] [] [] [] boot_kernel = Crash (ExitWith 1)"
proof -
  have k: "k_ok boot_kernel Sys_socket" "k_ok boot_kernel Sys_bind" "k_ok boot_kernel Sys_listen" "fits_int 65616"
    by (simp_all add: boot_kernel_def fits_int_def)
  have "digit_char 6 = CHR ''6''" "digit_char 5 = CHR ''5''" "digit_char (Suc 0) = CHR ''1''" by code_simp+
  then have n: "to_string 65616 = ''65616''" "(65616 :: int) mod 65536 = 80" by (simp_all add: to_string_def digits_of.simps)
  from programs_start(2) [OF k, unfolded n]
  have "\<exists>s. http_main [''65616''] boot_kernel = Done s \<and> k_bound (hs_kern s) (sock_fd (hs_listensock s)) = Some 80" by blast
  moreover have "udp_client_main [''127.0.0.1''] [''hello''] [] boot_kernel = Crash OutOfBounds"
    using programs_start(7) [OF k] by simp
  moreover have "tcp_client_main [] [] [] [] boot_kernel = Crash (ExitWith 1)"
    using programs_start(3) [OF k, of "[]"] by (simp add: USAGE_ERR_def)
  ultimately show ?thesis by blast
qed

text \<open>What a run leaves behind: the new server removes the pipe only where it has served; if it could create but not open it, the next
  start fails. The old server goes on with a pipe it could not create, and removes none.\<close>

lemma fifo_left_over:
  "newserver_main True op (reads @ [REof]) buffer True = Done (1, [], True)"
  "newserver_main True False reads buffer False = Done (2, [], True)"
  "newserver_main True True [REof] (NUL # buffer) False = Done (0, [], False)"
  "server_old_main mk True [REof] (NUL # buffer) True = Done (0, [], True)"
  "newclient_main op buffer input False = Done (1, [], False)"
  by (simp_all add: newserver_main_def server_old_main_def newclient_main_def mkfifo_ok_def buf_set_def)

text \<open>The old server with a pipe it cannot open reports an error for each \<open>read\<close> and never ends.\<close>

lemma server_old_spins: "buffer \<noteq> [] \<Longrightarrow> server_old_main mk False reads buffer there = Blocked"
proof -
  have "buffer \<noteq> [] \<Longrightarrow> server_old buffer (map (\<lambda>_. RErr (EOther 9)) reads) shown = Blocked" for shown
    by (induction reads arbitrary: buffer) (simp_all add: buf_set_def)
  then show "buffer \<noteq> [] \<Longrightarrow> ?thesis" by (simp add: server_old_main_def Let_def)
qed

end
