(* ===== verification/Exercises.thy ===== *)
theory Exercises
  imports Calculator Log
begin

text \<open>
  The exercises beside the lessons: fast exponentiation (\<open>exercise/test.cc\<close>), writing and reading a file
  (\<open>exercise/file.c\<close>), the small library of \<open>5.13\<close> and \<open>5.14\<close> with its program, and the client of a
  database (\<open>MySQL/main.cpp\<close>).
\<close>

section \<open>Fast exponentiation\<close>

text \<open>
  The arithmetic of \<open>double\<close> is a parameter: \<open>mul\<close> is the product and \<open>one\<close> the number 1. The numbers that
  \<open>Pow\<close> prints with \<open>%d\<close> come with its result.
\<close>

function Pow_fast :: "('d \<Rightarrow> 'd \<Rightarrow> 'd) \<Rightarrow> 'd \<Rightarrow> 'd \<Rightarrow> int \<Rightarrow> int list \<times> 'd" where
  "Pow_fast mul one x n =
     (if n = 0 then ([], one)
      else (case Pow_fast mul one x (n sdiv 2) of (out, y) \<Rightarrow>
        (int32 n # out, if n smod 2 = 0 then mul y y else mul (mul y y) x)))"
  by pat_completeness auto
termination
proof (relation "measure (\<lambda>(mul, one, x, n). nat \<bar>n\<bar>)")
  fix n :: int
  assume "n \<noteq> 0"
  then have "\<bar>n sdiv 2\<bar> < \<bar>n\<bar>" by (auto simp: signed_divide_int_def sgn_if abs_if)
  then show "((mul, one, x, n sdiv 2), mul, one, x, n) \<in> measure (\<lambda>(mul, one, x, n). nat \<bar>n\<bar>)"
    for mul :: "'d \<Rightarrow> 'd \<Rightarrow> 'd" and one x by simp
qed simp

declare Pow_fast.simps [simp del]

text \<open>\<open>myPow\<close>, whose \<open>N\<close> has 64 bits, calls \<open>Pow\<close> and ends without returning a value.\<close>

definition myPow :: "('d \<Rightarrow> 'd \<Rightarrow> 'd) \<Rightarrow> 'd \<Rightarrow> 'd \<Rightarrow> int \<Rightarrow> int list \<times> 'd outcome" where
  "myPow mul one x n =
     (let N = n in (fst (if 0 \<le> N then Pow_fast mul one x N else Pow_fast mul one x (- N)), Crash Uninitialised))"

fun power_of :: "('d \<Rightarrow> 'd \<Rightarrow> 'd) \<Rightarrow> 'd \<Rightarrow> 'd \<Rightarrow> nat \<Rightarrow> 'd" where
  "power_of mul one x 0 = one" | "power_of mul one x (Suc n) = mul (power_of mul one x n) x"

lemma power_of_add:
  assumes "\<And>a b c. mul (mul a b) c = mul a (mul b c)" "\<And>a. mul a one = a"
  shows "power_of mul one x (m + n) = mul (power_of mul one x m) (power_of mul one x n)"
  by (induction n) (simp_all add: assms)

text \<open>\<open>Pow\<close> is the power for every associative product with a right unit, with one call for each binary digit of the
  exponent; rounding is where \<open>double\<close> differs. \<open>myPow\<close> can take every \<open>int\<close>, also the least, but gives no result, and for a
  negative exponent would have computed the power of its absolute value.\<close>

theorem Pow_power:
  assumes "\<And>a b c. mul (mul a b) c = mul a (mul b c)" "\<And>a. mul a one = a" "0 \<le> n" "n < 2 ^ k"
  shows "snd (Pow_fast mul one x n) = power_of mul one x (nat n) \<and> length (fst (Pow_fast mul one x n)) \<le> k"
  using assms(3,4)
proof (induction k arbitrary: n)
  case 0
  then show ?case by (simp add: Pow_fast.simps)
next
  case (Suc k)
  show ?case
  proof (cases "n = 0")
    case False
    have d: "n sdiv 2 = n div 2" "n smod 2 = n mod 2"
      using Suc.prems(1) by (simp_all add: signed_divide_int_def signed_modulo_int_def sgn_if minus_div_mult_eq_mod)
    have "0 \<le> n div 2" "n div 2 < 2 ^ k" using Suc.prems by simp_all
    from Suc.IH [OF this] have y: "snd (Pow_fast mul one x (n div 2)) = power_of mul one x (nat (n div 2))"
      "length (fst (Pow_fast mul one x (n div 2))) \<le> k" by blast+
    let ?m = "nat (n div 2)"
    have n: "nat n = (if n mod 2 = 0 then ?m + ?m else Suc (?m + ?m))" using Suc.prems(1) by (auto simp: nat_eq_iff) presburger+
    obtain out z where p: "Pow_fast mul one x (n div 2) = (out, z)" by (cases "Pow_fast mul one x (n div 2)")
    show ?thesis
      using y n power_of_add [OF assms(1,2), of x ?m ?m] False
      by (simp add: Pow_fast.simps [of mul one x n] d p)
  qed (simp add: Pow_fast.simps)
qed


lemma Pow_power_witness:
  "snd (Pow_fast (*) 1 (2 :: int) 31) = 2147483648 \<and> length (fst (Pow_fast (*) 1 (2 :: int) 31)) \<le> 5"
proof -
  have a: "a * b * c = a * (b * c)" "a * 1 = a" for a b c :: int by simp_all
  have p: "power_of (*) 1 (2 :: int) (nat 31) = 2147483648" by code_simp
  from Pow_power [where mul = "(*)" and one = "1 :: int" and x = 2 and n = 31 and k = 5, OF a] show ?thesis
    unfolding p by simp
qed

section \<open>A file written and read back\<close>

text \<open>
  \<open>file.c\<close> writes the array with its terminating zero and reads at most 1024 bytes into an array of zeros;
  \<open>w\<close> and \<open>r\<close>: whether the calls of \<open>fopen\<close> succeed. It gives the exit code, what is printed, and the file.
\<close>

definition file_text :: string where
  "file_text = ''linux so easy!'' @ [newline, NUL]"

definition file_main :: "bool \<Rightarrow> bool \<Rightarrow> string option \<Rightarrow> (int \<times> string \<times> string option) outcome" where
  "file_main w r file =
     (if \<not> w then Done (1, [], file)
      else (let file' = file_text
            in if \<not> r then Done (1, [], Some file')
               else bind_out (c_string (recv_into (replicate 1024 NUL) (take 1024 file'))) (\<lambda>buff.
                      Done (0, ''I read : '' @ buff, Some file'))))"

lemma file_main_reads:
  "file_main True True file = Done (0, ''I read : linux so easy!'' @ [newline], Some file_text)"
proof -
  have "NUL \<notin> set (''linux so easy!'' @ [newline])" by (simp add: NUL_def newline_def)
  from c_str_id [OF this] show ?thesis
    by (simp add: file_main_def Let_def file_text_def recv_into_def c_string_def)
      (simp add: c_str_def NUL_def newline_def)
qed

section \<open>The library and its program\<close>

definition Add :: "int \<Rightarrow> int \<Rightarrow> int outcome" where "Add x y = checked (x + y)"
definition Sub :: "int \<Rightarrow> int \<Rightarrow> int outcome" where "Sub x y = checked (x - y)"

text \<open>The program of \<open>5.14\<close>: the results are computed, but not handed to \<open>printf\<close>. The one of \<open>5.13\<close> hands them over.\<close>

definition mathlib_main :: "string outcome" where
  "mathlib_main =
     bind_out (Add 100 50) (\<lambda>c. bind_out (Sub 100 50) (\<lambda>d.
     bind_out (vformat (''%d + %d = %d'' @ [newline]) [AInt 100, AInt 50]) (\<lambda>l1.
     bind_out (vformat (''%d - %d = %d'' @ [newline]) [AInt 100, AInt 50]) (\<lambda>l2. Done (l1 @ l2)))))"

definition mylib_main :: "string outcome" where
  "mylib_main =
     bind_out (Add 10 20) (\<lambda>c.
     bind_out (vformat (''%d + %d = %d'' @ [newline]) [AInt 10, AInt 20, AInt c]) (\<lambda>l1.
     bind_out (Sub 10 20) (\<lambda>d.
     bind_out (vformat (''%d - %d = %d'' @ [newline]) [AInt 10, AInt 20, AInt d]) (\<lambda>l2. Done (l1 @ l2)))))"

lemma library_programs:
  "mathlib_main = Crash Uninitialised"
  "mylib_main = Done (''10 + 20 = 30'' @ newline # ''10 - 20 = -10'' @ [newline])"
  by code_simp+

section \<open>The client of a database\<close>

text \<open>
  The client library is a parameter: whether its calls succeed and the table it returns, a column that is
  \<open>NULL\<close> as \<open>None\<close>. Writing a null pointer to \<open>cout\<close> makes the stream fail: nothing is written after it.
\<close>

record mysql =
  my_init :: bool
  my_connect :: bool
  my_charset :: bool
  my_result :: "(string list \<times> string option list list) option"

definition cout_put :: "string option \<Rightarrow> string \<times> bool \<Rightarrow> string \<times> bool" where
  "cout_put t = (\<lambda>(out, good). case t of None \<Rightarrow> (out, False) | Some s \<Rightarrow> (if good then out @ c_str s else out, good))"

definition put_row :: "string option list \<Rightarrow> string \<times> bool \<Rightarrow> string \<times> bool" where
  "put_row row c = cout_put (Some [newline]) (fold (\<lambda>x c. cout_put (Some [CHR 0x09]) (cout_put x c)) row c)"

definition mysql_main :: "mysql \<Rightarrow> (int \<times> string) outcome" where
  "mysql_main m =
     (if \<not> my_init m then Done (1, [])
      else if \<not> my_connect m then Done (2, ''init success'' @ [newline])
      else (case my_result m of
          None \<Rightarrow> Crash UseAfterFree
        | Some (titles, rows) \<Rightarrow>
            Done (0, fst (fold put_row rows (put_row (map Some titles)
              (''init success'' @ newline # ''connect success'' @ newline #
               ''rows: '' @ to_string (int (length rows)) @ newline # ''columns: '' @ to_string (int (length titles)) @ [newline], True))))))"

definition row_text :: "string list \<Rightarrow> string" where
  "row_text row = concat (map (\<lambda>x. c_str x @ [CHR 0x09]) row) @ [newline]"

lemma c_str_one: "c \<noteq> NUL \<Longrightarrow> c_str [c] = [c]"
  by (simp add: c_str_def)

lemma cout_put_simps [simp]:
  "cout_put None (out, good) = (out, False)" "cout_put (Some s) (out, True) = (out @ c_str s, True)"
  "cout_put x (out, False) = (out, False)"
  by (simp_all add: cout_put_def split: option.split)

lemma put_row_good: "put_row (map Some row) (out, True) = (out @ row_text row, True)"
proof -
  have t: "c_str [CHR 0x09] = [CHR 0x09]" "c_str [newline] = [newline]" by (simp_all add: c_str_one NUL_def newline_def)
  have "fold (\<lambda>x c. cout_put (Some [CHR 0x09]) (cout_put x c)) (map Some row) (out, True) =
      (out @ concat (map (\<lambda>x. c_str x @ [CHR 0x09]) row), True)" for out
    by (induction row arbitrary: out) (simp_all add: t)
  then show ?thesis by (simp add: put_row_def row_text_def t)
qed

lemma put_row_bad: "put_row row (out, False) = (out, False)"
proof -
  have "fold (\<lambda>x c. cout_put (Some [CHR 0x09]) (cout_put x c)) row (out, False) = (out, False)"
    by (induction row) simp_all
  then show ?thesis by (simp add: put_row_def)
qed

text \<open>A table without \<open>NULL\<close> is shown whole; after the first \<open>NULL\<close> nothing is shown any more; a query that fails, which nobody
  checks, ends in a null pointer.\<close>

lemma mysql_shows:
  assumes "my_init m" "my_connect m"
  shows "my_result m = Some (titles, map (map Some) rows) \<Longrightarrow> \<exists>header. mysql_main m = Done (0, header @ row_text titles @ concat (map row_text rows))"
    and "my_result m = Some (titles, map (map Some) rows @ (map Some before @ [None] @ later) # others) \<Longrightarrow>
      \<exists>header. mysql_main m = Done (0, header @ row_text titles @ concat (map row_text rows) @ concat (map (\<lambda>x. c_str x @ [CHR 0x09]) before))"
    and "my_result m = None \<Longrightarrow> mysql_main m = Crash UseAfterFree"
proof -
  have good: "fold put_row (map (map Some) rows) (out, True) = (out @ concat (map row_text rows), True)" for out
    by (induction rows arbitrary: out) (simp_all add: put_row_good)
  have bad: "fold put_row others (out, False) = (out, False)" for out by (induction others) (simp_all add: put_row_bad)
  have t: "c_str [CHR 0x09] = [CHR 0x09]" by (simp add: c_str_one NUL_def)
  have b: "fold (\<lambda>x c. cout_put (Some [CHR 0x09]) (cout_put x c)) (map Some before) (out, True) =
      (out @ concat (map (\<lambda>x. c_str x @ [CHR 0x09]) before), True)" for out
    by (induction before arbitrary: out) (simp_all add: t)
  have f: "fold (\<lambda>x c. cout_put (Some [CHR 0x09]) (cout_put x c)) later (out, False) = (out, False)" for out
    by (induction later) simp_all
  have null: "put_row (map Some before @ [None] @ later) (out, True) = (out @ concat (map (\<lambda>x. c_str x @ [CHR 0x09]) before), False)" for out
    by (simp add: put_row_def b f)
  show "my_result m = Some (titles, map (map Some) rows) \<Longrightarrow> \<exists>header. mysql_main m = Done (0, header @ row_text titles @ concat (map row_text rows))"
    using assms by (simp add: mysql_main_def put_row_good good)
  show "my_result m = Some (titles, map (map Some) rows @ (map Some before @ [None] @ later) # others) \<Longrightarrow>
      \<exists>header. mysql_main m = Done (0, header @ row_text titles @ concat (map row_text rows) @ concat (map (\<lambda>x. c_str x @ [CHR 0x09]) before))"
    using assms null by (simp add: mysql_main_def put_row_good good bad)
  show "my_result m = None \<Longrightarrow> mysql_main m = Crash UseAfterFree"
    using assms by (simp add: mysql_main_def)
qed

end
