(* ===== verification/TcpThreads.thy ===== *)
theory TcpThreads
  imports Tcp ConnThreads "HOL-Library.Sublist"
begin

text \<open>
  The server of \<open>7.18/tcp_socket\<close> as a whole: the main thread accepts and creates a thread for each
  connection, and the threads serve their connections at the same time, a step being one \<open>read\<close> with the
  call of the handler, or one \<open>write\<close>. It is an instance of \<open>connection_threads\<close>.
\<close>

section \<open>A service in steps\<close>

text \<open>\<open>Cn_Off\<close>: the thread was not created, which nobody notices; \<open>Cn_End\<close>: it has closed its socket and ended.\<close>

datatype conn_pc = Cn_Off | Cn_Read | Cn_Write string | Cn_End

definition conn_read :: "(string \<Rightarrow> string outcome) \<Rightarrow> int \<Rightarrow> kernel \<Rightarrow> (conn_pc \<times> kernel) outcome" where
  "conn_read func sock k =
     bind_out (k_recv sock k) (\<lambda>(call, k1). case call of (old, r) \<Rightarrow>
       (case r of
          RData data \<Rightarrow>
            (if data = [] then Done (Cn_End, k_close sock k1)
             else bind_out (bind_out (buf_set (recv_into old data) (int (length data)) NUL) c_string) (\<lambda>str.
                  bind_out (func str) (\<lambda>res. Done (Cn_Write res, k1))))
        | REof \<Rightarrow> Done (Cn_End, k_close sock k1)
        | RErr e \<Rightarrow> Done (Cn_End, k_close sock k1)))"

definition conn_write :: "string \<Rightarrow> int \<Rightarrow> kernel \<Rightarrow> (conn_pc \<times> kernel) outcome" where
  "conn_write res sock k = bind_out (k_send sock res k) (\<lambda>k1. Done (Cn_Read, k1))"

fun conn_step :: "(string \<Rightarrow> string outcome) \<Rightarrow> conn_pc \<Rightarrow> int \<Rightarrow> kernel \<Rightarrow> (conn_pc \<times> kernel) outcome" where
  "conn_step func Cn_Read sock k = conn_read func sock k"
| "conn_step func (Cn_Write res) sock k = conn_write res sock k"
| "conn_step func _ sock k = Blocked"

text \<open>A service alone is its steps, one after the other.\<close>

lemma conn_step_service:
  "tcp_service func sock k = bind_out (conn_step func Cn_Read sock k) (\<lambda>(pc, k1).
     if pc = Cn_End then Done k1
     else bind_out (conn_step func pc sock k1) (\<lambda>(pc, k2). tcp_service func sock k2))"
  by (simp add: tcp_service.simps [of func sock k] conn_read_def conn_write_def bind_out_assoc)
    (auto simp: conn_write_def bind_out_assoc intro!: bind_out_cong split: prod.splits recv_res.splits)

section \<open>The whole server\<close>

definition tcp_run_step :: "(tcp_server, conn_pc) threads_run \<Rightarrow> (tcp_server, conn_pc) threads_run \<Rightarrow> bool" where
  "tcp_run_step = threads_step tcp_accept ts_kern (\<lambda>k. ts_kern_update (\<lambda>_. k)) (\<lambda>s. map td_sock (ts_threads s))
     (conn_step tcp_handle) Cn_Off Cn_Read"

definition tr_sock :: "(tcp_server, conn_pc) threads_run \<Rightarrow> nat \<Rightarrow> int" where
  "tr_sock s i = td_sock (ts_threads (tr_srv s) ! i)"

section \<open>The server keeps to the interface\<close>

definition tcp_solo :: "int \<Rightarrow> conn_pc \<times> kernel \<Rightarrow> conn_pc \<times> kernel \<Rightarrow> bool" where
  "tcp_solo fd = (\<lambda>(p, k) r. conn_step tcp_handle p fd k = Done r)"

lemma tcp_solo_read: "tcp_solo fd (Cn_Read, k) (p', k') \<longleftrightarrow> (\<exists>old r k1. k_recv fd k = Done ((old, r), k1) \<and>
    (case r of
       RData d \<Rightarrow> (if d = [] then p' = Cn_End \<and> k' = k_close fd k1 else \<exists>res. p' = Cn_Write res \<and> k' = k1 \<and>
         bind_out (buf_set (recv_into old d) (int (length d)) NUL) c_string = Done res)
     | _ \<Rightarrow> p' = Cn_End \<and> k' = k_close fd k1))"
proof (cases "k_recv fd k")
  case (Done x)
  moreover obtain old r k1 where "x = ((old, r), k1)" by (metis surj_pair)
  ultimately show ?thesis
    by (cases r) (auto simp: tcp_solo_def conn_read_def tcp_handle_def bind_out_assoc simp del: bind_out_Done_iff, auto)
qed (simp_all add: tcp_solo_def conn_read_def)

lemma tcp_solo_readE:
  assumes "tcp_solo fd (Cn_Read, k) (p', k')"
  obtains (ends) c k1 where "k_recv fd k = Done (c, k1)" "p' = Cn_End" "k' = k_close fd k1"
    | (reads) old d res where "k_recv fd k = Done ((old, RData d), k')" "p' = Cn_Write res"
      "bind_out (buf_set (recv_into old d) (int (length d)) NUL) c_string = Done res"
proof -
  from assms obtain old r k1 where "k_recv fd k = Done ((old, r), k1)" "case r of
       RData d \<Rightarrow> (if d = [] then p' = Cn_End \<and> k' = k_close fd k1 else \<exists>res. p' = Cn_Write res \<and> k' = k1 \<and>
         bind_out (buf_set (recv_into old d) (int (length d)) NUL) c_string = Done res)
     | _ \<Rightarrow> p' = Cn_End \<and> k' = k_close fd k1" unfolding tcp_solo_read by blast
  with ends reads show thesis by (cases r) (simp_all del: bind_out_Done_iff split: if_splits, blast+)
qed

lemma tcp_solo_write: "tcp_solo fd (Cn_Write res, k) (p', k') \<longleftrightarrow> p' = Cn_Read \<and> k_send fd res k = Done k'"
  by (auto simp: tcp_solo_def conn_write_def)

lemma tcp_solo_not: "\<not> tcp_solo fd (Cn_Off, k) r" "\<not> tcp_solo fd (Cn_End, k) r"
  by (simp_all add: tcp_solo_def)

lemma tcp_solo_laws:
  assumes s: "tcp_solo fd (p, k) (p', k')"
  shows "g \<noteq> fd \<Longrightarrow> stream k' g = stream k g" "k_open k' = (if p' = Cn_End then removeAll fd (k_open k) else k_open k)"
    and "k_accepts k' = k_accepts k \<and> stream_left (stream k' fd) < stream_left (stream k fd)"
    and "stream k2 fd = stream k fd \<Longrightarrow> \<exists>k2'. tcp_solo fd (p, k2) (p', k2') \<and> stream k2' fd = stream k' fd"
proof -
  have p: "p = Cn_Read \<or> (\<exists>res. p = Cn_Write res)" using s by (cases p) (simp_all add: tcp_solo_not)
  show "stream k' g = stream k g" if "g \<noteq> fd"
    using s p that by (auto simp: tcp_solo_write k_recv_frame(3) k_send_frame(3) elim!: tcp_solo_readE)
  show "k_open k' = (if p' = Cn_End then removeAll fd (k_open k) else k_open k)"
    using s p by (auto simp: tcp_solo_write k_recv_frame(1) k_send_frame(1) elim!: tcp_solo_readE)
  show "k_accepts k' = k_accepts k \<and> stream_left (stream k' fd) < stream_left (stream k fd)"
    using s p by (auto simp: tcp_solo_write k_recv_frame(2,4) k_send_frame(2,4) elim!: tcp_solo_readE)
  show "\<exists>k2'. tcp_solo fd (p, k2) (p', k2') \<and> stream k2' fd = stream k' fd" if "stream k2 fd = stream k fd"
    using p
  proof (elim disjE exE)
    assume r: "p = Cn_Read"
    with s obtain old r k1 where k1: "k_recv fd k = Done ((old, r), k1)" by (auto simp: tcp_solo_read)
    from k_recv_frame(5) [OF this that] obtain k21 where "k_recv fd k2 = Done ((old, r), k21)" "stream k21 fd = stream k1 fd" by blast
    with s r k1 show ?thesis by (auto simp: tcp_solo_read split: if_splits recv_res.splits)
  next
    fix res assume "p = Cn_Write res"
    with s k_send_frame(5) [of fd res k k' k2, OF _ that] show ?thesis by (auto simp: tcp_solo_write)
  qed
qed

lemma tcp_accept_Done:
  assumes "tcp_accept len s = Done s'"
  shows "\<exists>so n addr. sock_Accept_uninit len so (ts_kern s) = Done ((n, addr), ts_kern s') \<and>
    map td_sock (ts_threads s') = (if n < 0 then map td_sock (ts_threads s) else map td_sock (ts_threads s) @ [n])"
proof -
  obtain n addr k where a: "sock_Accept_uninit len (ts_listen_sock s) (ts_kern s) = Done ((n, addr), k)"
    using assms by (auto simp: tcp_accept_def simp del: split_paired_Ex)
  with assms show ?thesis
    by (intro exI [of _ "ts_listen_sock s"] exI [of _ n] exI [of _ addr]) (auto simp: tcp_accept_def split: if_splits option.splits)
qed

interpretation echo: threaded_server tcp_accept ts_kern "\<lambda>k. ts_kern_update (\<lambda>_. k)" "\<lambda>s. map td_sock (ts_threads s)"
    "conn_step tcp_handle" Cn_Off Cn_Read "\<lambda>p. p = Cn_End"
  rewrites "threads_step tcp_accept ts_kern (\<lambda>k. ts_kern_update (\<lambda>_. k)) (\<lambda>s. map td_sock (ts_threads s))
     (conn_step tcp_handle) Cn_Off Cn_Read = tcp_run_step"
    and "threaded_server.solo (conn_step tcp_handle) = tcp_solo"
proof -
  note laws = tcp_solo_laws [unfolded tcp_solo_def prod.case]
  show t: "threaded_server tcp_accept ts_kern (\<lambda>k. ts_kern_update (\<lambda>_. k)) (\<lambda>s. map td_sock (ts_threads s))
      (conn_step tcp_handle) Cn_Off Cn_Read (\<lambda>p. p = Cn_End)"
  proof
    show "\<exists>len s'. tcp_accept len s = Done s'" if "k_accepts (ts_kern s) \<noteq> []" for s
      using that by (intro exI [of _ 16], cases "k_accepts (ts_kern s)"; cases "hd (k_accepts (ts_kern s))")
        (auto simp: tcp_accept_def sock_Accept_uninit_def k_accept_def k_new_fd_def Let_def)
  qed (assumption | rule tcp_accept_Done laws | simp)+
  show "threaded_server.solo (conn_step tcp_handle) = tcp_solo"
    by (simp add: fun_eq_iff threaded_server.solo_def [OF t] tcp_solo_def)
qed (simp add: tcp_run_step_def)

text \<open>A service in one go is a run of its steps.\<close>

lemma service_as_steps:
  "tcp_service tcp_handle fd k = Done k' \<longleftrightarrow> (tcp_solo fd)\<^sup>*\<^sup>* (Cn_Read, k) (Cn_End, k')"
proof
  assume "tcp_service tcp_handle fd k = Done k'"
  then show "(tcp_solo fd)\<^sup>*\<^sup>* (Cn_Read, k) (Cn_End, k')"
  proof (induction "length (k_recvs k fd)" arbitrary: k rule: less_induct)
    case less
    from less(2) obtain p k1 where 1: "tcp_solo fd (Cn_Read, k) (p, k1)"
      "(if p = Cn_End then Done k1 else bind_out (conn_step tcp_handle p fd k1) (\<lambda>(pc, k2). tcp_service tcp_handle fd k2)) = Done k'"
      unfolding conn_step_service [of tcp_handle fd k] by (auto simp: tcp_solo_def)
    show ?case
    proof (cases "p = Cn_End")
      case False
      with 1(1) obtain res where p: "p = Cn_Write res" "length (k_recvs k1 fd) < length (k_recvs k fd)"
        by (elim tcp_solo_readE) (auto simp: k_recv_iff)
      with 1(2) obtain k2 where k2: "k_send fd res k1 = Done k2" "tcp_service tcp_handle fd k2 = Done k'"
        by (auto simp: conn_write_def)
      have "(tcp_solo fd)\<^sup>*\<^sup>* (Cn_Read, k2) (Cn_End, k')"
        by (rule less(1) [OF _ k2(2)]) (use p(2) k_send_recvs [OF k2(1)] in simp)
      moreover have "tcp_solo fd (p, k1) (Cn_Read, k2)" using k2(1) p(1) by (simp add: tcp_solo_write)
      ultimately show ?thesis using 1(1) by (meson converse_rtranclp_into_rtranclp)
    qed (use 1 in auto)
  qed
next
  have "case p of Cn_Read \<Rightarrow> tcp_service tcp_handle fd k = Done k'
      | Cn_Write res \<Rightarrow> bind_out (k_send fd res k) (tcp_service tcp_handle fd) = Done k'
      | Cn_End \<Rightarrow> k = k' | Cn_Off \<Rightarrow> False" if "(tcp_solo fd)\<^sup>*\<^sup>* (p, k) (Cn_End, k')" for p k
    using that
  proof (induction "(p, k)" arbitrary: p k rule: converse_rtranclp_induct)
    case (step r)
    obtain p1 k1 where r: "r = (p1, k1)" by (cases r)
    show ?case
    proof (cases p)
      case Cn_Read
      with step(1) r have "p1 = Cn_End \<or> (\<exists>res. p1 = Cn_Write res)" by (auto elim: tcp_solo_readE)
      with step(1,3) r Cn_Read show ?thesis
        by (auto simp: conn_step_service [of tcp_handle fd k] tcp_solo_def conn_write_def bind_out_assoc)
    next
      case (Cn_Write res)
      with step(1,3) r show ?thesis by (auto simp: tcp_solo_write)
    qed (use step(1) in \<open>simp_all add: tcp_solo_not\<close>)
  qed simp
  then show "(tcp_solo fd)\<^sup>*\<^sup>* (Cn_Read, k) (Cn_End, k') \<Longrightarrow> tcp_service tcp_handle fd k = Done k'" by fastforce
qed

section \<open>What the clients get\<close>

text \<open>What comes in on a descriptor, as text and as a number of messages, and that answers get through.\<close>

definition incoming :: "recv_call list \<Rightarrow> string" where
  "incoming calls = concat (map (\<lambda>(old, r). case r of RData d \<Rightarrow> d | _ \<Rightarrow> []) calls)"

definition data_count :: "recv_call list \<Rightarrow> nat" where
  "data_count calls = length (filter (\<lambda>(old, r). case r of RData d \<Rightarrow> True | _ \<Rightarrow> False) calls)"

definition calls_ok :: "recv_call list \<Rightarrow> bool" where
  "calls_ok calls = list_all (\<lambda>(old, r). case r of RData d \<Rightarrow> chunk_ok (old, d) \<and> length d < 2 ^ 31 | _ \<Rightarrow> True) calls"

definition tcp_clients_ok :: "kernel \<Rightarrow> bool" where
  "tcp_clients_ok k \<longleftrightarrow> distinct (k_open k) \<and>
     (\<forall>fd. calls_ok (k_recvs k fd) \<and> list_all takes_all (k_sends k fd) \<and> data_count (k_recvs k fd) \<le> length (k_sends k fd))"

lemma calls_simps [simp]:
  "incoming [] = []" "incoming ((old, RData d) # calls) = d @ incoming calls" "incoming ((old, REof) # calls) = incoming calls"
  "incoming ((old, RErr e) # calls) = incoming calls"
  "data_count [] = 0" "data_count ((old, RData d) # calls) = Suc (data_count calls)" "data_count ((old, REof) # calls) = data_count calls"
  "data_count ((old, RErr e) # calls) = data_count calls"
  "calls_ok []" "calls_ok ((old, RData d) # calls) = (chunk_ok (old, d) \<and> length d < 2 ^ 31 \<and> calls_ok calls)"
  "calls_ok ((old, REof) # calls) = calls_ok calls" "calls_ok ((old, RErr e) # calls) = calls_ok calls"
  by (simp_all add: incoming_def data_count_def calls_ok_def)


text \<open>What a thread still has to write, and the account of a descriptor: what was sent, is due, or comes in.\<close>

definition due :: "conn_pc option \<Rightarrow> string list" where
  "due q = (case q of Some (Cn_Write res) \<Rightarrow> [res] | _ \<Rightarrow> [])"

lemma due_simps [simp]: "due None = []" "due (Some (Cn_Write res)) = [res]" "due (Some Cn_Read) = []" "due (Some Cn_Off) = []"
  by (simp_all add: due_def)

definition fd_balance :: "kernel \<Rightarrow> int \<Rightarrow> conn_pc option \<Rightarrow> stream \<Rightarrow> bool" where
  "fd_balance k0 fd q = (\<lambda>(recvs, sends, sent).
      sent @ concat (due q) @ incoming recvs = k_sent k0 fd @ incoming (k_recvs k0 fd) \<and>
      length (due q) + data_count recvs \<le> length sends \<and> list_all (\<lambda>x. length x < 2 ^ 31) (due q) \<and>
      calls_ok recvs \<and> list_all takes_all sends)"

lemma chunk_ok_string:
  assumes "chunk_ok (old, d)"
  shows "bind_out (buf_set (recv_into old d) (int (length d)) NUL) c_string = Done d" "d \<noteq> []"
proof -
  have d: "length d < length old" "NUL \<notin> set d" "d \<noteq> []" using assms by (simp_all add: chunk_ok_def)
  then show "bind_out (buf_set (recv_into old d) (int (length d)) NUL) c_string = Done d" "d \<noteq> []"
    by (simp_all only: terminated_recv_c_string c_str_id not_False_eq_True)
qed

lemma balance_step:
  assumes "fd_balance k0 fd (Some p) (stream k fd)" "tcp_solo fd (p, k) (p', k')"
  shows "fd_balance k0 fd (if p' = Cn_End then None else Some p') (stream k' fd)"
proof (cases p)
  case Cn_Read
  with assms(2) obtain old r k1 where k1: "k_recv fd k = Done ((old, r), k1)" by (auto simp: tcp_solo_read)
  then obtain rest where c: "k_recvs k fd = (old, r) # rest" "k1 = k\<lparr>k_recvs := (k_recvs k)(fd := rest)\<rparr>" by (auto simp: k_recv_iff)
  show ?thesis
  proof (cases r)
    case (RData d)
    with assms(1) c(1) Cn_Read have "chunk_ok (old, d)" by (simp add: fd_balance_def stream_def)
    note d = chunk_ok_string [OF this]
    from assms(2) k1 Cn_Read RData d have "p' = Cn_Write d \<and> k' = k1"
      by (simp add: tcp_solo_read del: bind_out_Done_iff)
    with assms(1) c Cn_Read RData show ?thesis by (simp add: fd_balance_def stream_def)
  qed (use assms c k1 Cn_Read in \<open>simp_all add: fd_balance_def stream_def tcp_solo_read k_close_def\<close>)
next
  case (Cn_Write res)
  with assms(1) have b: "k_sends k fd \<noteq> []" "list_all takes_all (k_sends k fd)" "length res < 2 ^ 31"
    by (auto simp: fd_balance_def stream_def)
  obtain x xs where x: "k_sends k fd = x # xs" using b(1) by (cases "k_sends k fd") simp_all
  with assms Cn_Write k_send_all [OF x b(2,3)] show ?thesis by (auto simp: fd_balance_def stream_def tcp_solo_write)
qed (use assms(2) in \<open>simp_all add: tcp_solo_not\<close>)

text \<open>Where the account balances no thread fails, and one that cannot go on waits for a client that is answered.\<close>

lemma balance_go:
  assumes "fd_balance k0 fd (Some p) (stream k fd)" "p \<noteq> Cn_Off" "p \<noteq> Cn_End"
  shows "if p = Cn_Read \<and> k_recvs k fd = [] then k_sent k fd = k_sent k0 fd @ incoming (k_recvs k0 fd) \<and> conn_step tcp_handle p fd k = Blocked
    else \<exists>r. conn_step tcp_handle p fd k = Done r"
proof (cases p)
  case Cn_Read
  show ?thesis
  proof (cases "k_recvs k fd")
    case Nil
    with assms(1) Cn_Read show ?thesis by (simp add: fd_balance_def stream_def conn_read_def k_recv_def)
  next
    case (Cons c rest)
    obtain old r where c: "c = (old, r)" by (cases c)
    have "\<exists>x. conn_step tcp_handle p fd k = Done x"
    proof (cases r)
      case (RData d)
      with assms(1) Cons c Cn_Read have "chunk_ok (old, d)" by (simp add: fd_balance_def stream_def)
      from chunk_ok_string [OF this] show ?thesis
        by (simp add: Cn_Read conn_read_def k_recv_def Cons c RData tcp_handle_def del: bind_out_Done_iff)
    qed (simp_all add: Cn_Read conn_read_def k_recv_def Cons c)
    with Cons show ?thesis by simp
  qed
next
  case (Cn_Write res)
  with assms(1) have b: "k_sends k fd \<noteq> []" "list_all takes_all (k_sends k fd)" "length res < 2 ^ 31"
    by (auto simp: fd_balance_def stream_def)
  then obtain x xs where x: "k_sends k fd = x # xs" by (cases "k_sends k fd") auto
  from k_send_all [OF x b(2,3)] Cn_Write show ?thesis by (simp add: conn_write_def)
qed (use assms(2,3) in simp_all)

lemma tcp_run_account:
  assumes "tcp_clients_ok (ts_kern srv)" "ts_threads srv = []" "tcp_run_step\<^sup>*\<^sup>* (threads_start Cn_Off srv) s"
  shows "echo.accounted (ts_kern srv) s \<and> echo.each_fd (fd_balance (ts_kern srv)) s"
proof (rule echo.each_fd_run [OF assms(3)])
  show "echo.accounted (ts_kern srv) (threads_start Cn_Off srv)"
    using assms(1,2) by (intro echo.start_accounted) (simp_all add: tcp_clients_ok_def)
  show "echo.each_fd (fd_balance (ts_kern srv)) (threads_start Cn_Off srv)"
    using assms(1,2) by (simp add: echo.each_fd_def tcp_clients_ok_def fd_balance_def stream_def)
  show "fd_balance (ts_kern srv) fd (Some p) v" if "fd_balance (ts_kern srv) fd None v" "p \<in> {Cn_Read, Cn_Off}" for fd p v
    using that by (auto simp: fd_balance_def)
qed (rule balance_step)


definition two_clients :: tcp_server where
  "two_clients = \<lparr>ts_listen_sock = sock_new, ts_threads = [], ts_kern = boot_kernel\<lparr>k_open := [3, 0, 1, 2],
     k_accepts := [AOk ''10.0.0.1'' 9000, AOk ''10.0.0.2'' 9001],
     k_recvs := (\<lambda>fd. if fd = 4 then [(replicate 2048 NUL, RData ''hello'')] else [(replicate 2048 NUL, REof)]),
     k_sends := (\<lambda>fd. if fd = 4 then [SRet (2 ^ 31) EAGAIN] else [])\<rparr>\<rparr>"


end
