(* ===== verification/CalThreads.thy ===== *)
theory CalThreads
  imports CalProps ConnThreads
begin

text \<open>
  The threaded calculator of \<open>7.20/netCalculator\<close> as a whole: the main thread accepts and creates a thread
  for each client, and the threads read packages and send answers at the same time. It is an instance of
  \<open>threaded_server\<close> in which no thread ever closes its descriptor.
\<close>

section \<open>The service in steps\<close>

text \<open>A thread reads with the buffer it has so far, or answers the package it has taken off the buffer.\<close>

datatype cal_pc = Cal_Off | Cal_Read string | Cal_Answer int string string | Cal_End

fun cal_step :: "json_lib \<Rightarrow> (request \<Rightarrow> response outcome) \<Rightarrow> cal_pc \<Rightarrow> int \<Rightarrow> kernel \<Rightarrow> (cal_pc \<times> kernel) outcome" where
  "cal_step J func (Cal_Read inbuffer) sock k =
     bind_out (readPackage_sock sock inbuffer k) (\<lambda>(r, k1). case r of (n, package, inbuffer1) \<Rightarrow>
       Done (if n = - 1 then Cal_End else if n = 0 then Cal_Read inbuffer1 else Cal_Answer n package inbuffer1, k1))"
| "cal_step J func (Cal_Answer n package inbuffer) sock k =
     bind_out (answer_package J func sock n package k) (\<lambda>k1. Done (Cal_Read inbuffer, k1))"
| "cal_step J func _ sock k = Blocked"

definition cal_run_step :: "json_lib \<Rightarrow> (request \<Rightarrow> response outcome) \<Rightarrow>
    (cal_server, cal_pc) threads_run \<Rightarrow> (cal_server, cal_pc) threads_run \<Rightarrow> bool" where
  "cal_run_step J func = threads_step cal_accept cs_kern (\<lambda>k. cs_kern_update (\<lambda>_. k)) (\<lambda>s. map td_sock (cs_threads s))
     (cal_step J func) Cal_Off (Cal_Read [])"

definition cal_sock :: "(cal_server, cal_pc) threads_run \<Rightarrow> nat \<Rightarrow> int" where
  "cal_sock s i = td_sock (cs_threads (tr_srv s) ! i)"

definition cal_solo :: "json_lib \<Rightarrow> (request \<Rightarrow> response outcome) \<Rightarrow> int \<Rightarrow> cal_pc \<times> kernel \<Rightarrow> cal_pc \<times> kernel \<Rightarrow> bool" where
  "cal_solo J func fd = (\<lambda>(p, k) r. cal_step J func p fd k = Done r)"

section \<open>The server keeps to the interface\<close>

text \<open>Reading a package is one call of \<open>recv\<close>, answering one is one call of \<open>send\<close>.\<close>

lemma readPackage_sock_call:
  assumes "readPackage_sock fd b k = Done (r, k')"
  shows "\<exists>call. k_recv fd k = Done (call, k')"
    and "stream k2 fd = stream k fd \<Longrightarrow> \<exists>k2'. readPackage_sock fd b k2 = Done (r, k2') \<and> stream k2' fd = stream k' fd"
proof -
  from assms obtain old x k1 where c: "k_recv fd k = Done ((old, x), k1)" by (auto simp: readPackage_sock_def)
  show "\<exists>call. k_recv fd k = Done (call, k')" using assms c by (cases x) (auto simp: readPackage_sock_def split: if_splits)
  show "\<exists>k2'. readPackage_sock fd b k2 = Done (r, k2') \<and> stream k2' fd = stream k' fd" if "stream k2 fd = stream k fd"
    using k_recv_frame(5) [OF c that] assms c by (cases x) (auto simp: readPackage_sock_def split: if_splits)
qed

lemma answer_package_call:
  "answer_package J func fd n package k = Done k' \<longleftrightarrow>
   (\<exists>msg. bind_out (removeHeader package n) (respond J func) = Done msg \<and> k_send fd msg k = Done k')"
  by (auto simp: answer_package_def)

lemma cal_solo_cases:
  assumes "cal_solo J func fd (p, k) (p', k')"
  obtains (reads) b call where "p = Cal_Read b" "k_recv fd k = Done (call, k')"
    | (answers) n pkg b msg where "p = Cal_Answer n pkg b" "p' = Cal_Read b" "bind_out (removeHeader pkg n) (respond J func) = Done msg"
      "k_send fd msg k = Done k'"
proof (cases p)
  case (Cal_Read b)
  with assms obtain r where "readPackage_sock fd b k = Done (r, k')" by (auto simp: cal_solo_def split: if_splits)
  from readPackage_sock_call(1) [OF this] reads [OF Cal_Read] show thesis by blast
next
  case (Cal_Answer n pkg b)
  with assms answers show thesis by (auto simp: cal_solo_def answer_package_call)
qed (use assms in \<open>simp_all add: cal_solo_def\<close>)

lemma cal_solo_laws:
  assumes s: "cal_solo J func fd (p, k) (p', k')"
  shows "g \<noteq> fd \<Longrightarrow> stream k' g = stream k g" "k_open k' = k_open k"
    and "k_accepts k' = k_accepts k \<and> stream_left (stream k' fd) < stream_left (stream k fd)"
    and "stream k2 fd = stream k fd \<Longrightarrow> \<exists>k2'. cal_solo J func fd (p, k2) (p', k2') \<and> stream k2' fd = stream k' fd"
proof -
  show "stream k' g = stream k g" if "g \<noteq> fd"
    using s that by (cases rule: cal_solo_cases) (simp_all add: k_recv_frame(3) k_send_frame(3))
  show "k_open k' = k_open k" using s by (cases rule: cal_solo_cases) (simp_all add: k_recv_frame(1) k_send_frame(1))
  show "k_accepts k' = k_accepts k \<and> stream_left (stream k' fd) < stream_left (stream k fd)"
    using s by (cases rule: cal_solo_cases) (simp_all add: k_recv_frame(2,4) k_send_frame(2,4))
  show "\<exists>k2'. cal_solo J func fd (p, k2) (p', k2') \<and> stream k2' fd = stream k' fd" if "stream k2 fd = stream k fd"
    using s
  proof (cases rule: cal_solo_cases)
    case (reads b call)
    with s obtain n pkg b1 where r: "readPackage_sock fd b k = Done ((n, pkg, b1), k')" by (auto simp: cal_solo_def)
    from readPackage_sock_call(2) [OF r that]
    obtain k2' where "readPackage_sock fd b k2 = Done ((n, pkg, b1), k2')" "stream k2' fd = stream k' fd" by blast
    with r s reads show ?thesis by (intro exI [of _ k2']) (simp add: cal_solo_def)
  next
    case (answers n pkg b msg)
    from k_send_frame(5) [OF answers(4) that] answers show ?thesis by (auto simp: cal_solo_def answer_package_call)
  qed
qed

lemma cal_accept_Done:
  assumes "cal_accept len s = Done s'"
  shows "\<exists>so n addr. sock_Accept_uninit len so (cs_kern s) = Done ((n, addr), cs_kern s') \<and>
    map td_sock (cs_threads s') = (if n < 0 then map td_sock (cs_threads s) else map td_sock (cs_threads s) @ [n])"
proof -
  obtain n addr k where a: "sock_Accept_uninit len (cs_listensock s) (cs_kern s) = Done ((n, addr), k)"
    using assms by (auto simp: cal_accept_def simp del: split_paired_Ex)
  with assms show ?thesis
    by (intro exI [of _ "cs_listensock s"] exI [of _ n] exI [of _ addr]) (auto simp: cal_accept_def split: if_splits option.splits)
qed

interpretation cal: threaded_server cal_accept cs_kern "\<lambda>k. cs_kern_update (\<lambda>_. k)" "\<lambda>s. map td_sock (cs_threads s)"
    "cal_step J func" Cal_Off "Cal_Read []" "\<lambda>_. False"
  rewrites "threads_step cal_accept cs_kern (\<lambda>k. cs_kern_update (\<lambda>_. k)) (\<lambda>s. map td_sock (cs_threads s))
     (cal_step J func) Cal_Off (Cal_Read []) = cal_run_step J func"
    and "threaded_server.solo (cal_step J func) = cal_solo J func" for J func
proof -
  note laws = cal_solo_laws [unfolded cal_solo_def prod.case]
  show t: "threaded_server cal_accept cs_kern (\<lambda>k. cs_kern_update (\<lambda>_. k)) (\<lambda>s. map td_sock (cs_threads s))
      (cal_step J func) Cal_Off (Cal_Read []) (\<lambda>_. False)"
  proof
    show "\<exists>len s'. cal_accept len s = Done s'" if "k_accepts (cs_kern s) \<noteq> []" for s
      using that by (intro exI [of _ 16], cases "k_accepts (cs_kern s)"; cases "hd (k_accepts (cs_kern s))")
        (auto simp: cal_accept_def sock_Accept_uninit_def k_accept_def k_new_fd_def Let_def)
    show "k_open k' = (if False then removeAll fd (k_open k) else k_open k)" if "cal_step J func p fd k = Done (p', k')" for p fd k p' k'
      using laws(2) [OF that] by simp
  qed (assumption | rule cal_accept_Done laws | simp)+
  show "threaded_server.solo (cal_step J func) = cal_solo J func"
    by (simp add: fun_eq_iff threaded_server.solo_def [OF t] cal_solo_def)
qed (simp add: cal_run_step_def)

text \<open>The service of a client in one go is a run of these steps.\<close>

lemma serviceIO_steps:
  "serviceIO J func fd b k = Done k' \<Longrightarrow> (cal_solo J func fd)\<^sup>*\<^sup>* (Cal_Read b, k) (Cal_End, k')"
proof (induction "length (k_recvs k fd)" arbitrary: b k rule: less_induct)
  case less
  from less(2) obtain n pkg b1 k1 where r: "readPackage_sock fd b k = Done ((n, pkg, b1), k1)"
    "(if n = - 1 then Done k1 else if n = 0 then serviceIO J func fd b1 k1
      else bind_out (answer_package J func fd n pkg k1) (serviceIO J func fd b1)) = Done k'"
    unfolding serviceIO.simps [of J func fd b k] by auto
  note shorter = readPackage_sock_shorter [OF r(1)]
  consider "n = - 1" | "n = 0" | "n \<noteq> - 1" "n \<noteq> 0" by blast
  then show ?case
  proof cases
    case 1
    with r have "cal_solo J func fd (Cal_Read b, k) (Cal_End, k')" by (simp add: cal_solo_def)
    then show ?thesis ..
  next
    case 2
    with r have "cal_solo J func fd (Cal_Read b, k) (Cal_Read b1, k1)" by (simp add: cal_solo_def)
    moreover have "(cal_solo J func fd)\<^sup>*\<^sup>* (Cal_Read b1, k1) (Cal_End, k')" by (rule less(1) [OF shorter]) (use 2 r in simp)
    ultimately show ?thesis by (rule converse_rtranclp_into_rtranclp)
  next
    case 3
    with r obtain k2 where k2: "answer_package J func fd n pkg k1 = Done k2" "serviceIO J func fd b1 k2 = Done k'" by auto
    have "cal_solo J func fd (Cal_Read b, k) (Cal_Answer n pkg b1, k1)" using 3 r by (simp add: cal_solo_def)
    moreover have "cal_solo J func fd (Cal_Answer n pkg b1, k1) (Cal_Read b1, k2)" using k2(1) by (simp add: cal_solo_def)
    moreover have "(cal_solo J func fd)\<^sup>*\<^sup>* (Cal_Read b1, k2) (Cal_End, k')"
      by (rule less(1) [OF _ k2(2)]) (use shorter answer_package_recvs [OF k2(1)] in simp)
    ultimately show ?thesis by (meson converse_rtranclp_into_rtranclp)
  qed
qed

section \<open>What the clients get, and what is left\<close>

text \<open>Where alone a thread would come to its end, it does so in the company of the others.\<close>

lemma cal_thread_alone:
  assumes "(cal_run_step J func)\<^sup>*\<^sup>* (threads_start Cal_Off srv) s" "cs_threads srv = []" "distinct (k_open (cs_kern srv))"
    and "i < length (cs_threads (tr_srv s))" "tr_pc s i \<noteq> Cal_Off" "serviceIO J func (cal_sock s i) [] (cs_kern srv) = Done k'"
  shows "tr_pc s i = Cal_End \<and> stream (cs_kern (tr_srv s)) (cal_sock s i) = stream k' (cal_sock s i) \<or>
    (\<exists>r. cal_step J func (tr_pc s i) (cal_sock s i) (cs_kern (tr_srv s)) = Done r)"
proof -
  let ?fd = "cal_sock s i"
  have mem: "(?fd, tr_pc s i) \<in># cal.run_held s" using cal.run_held_mem [of i s] assms(4) by (simp add: cal_sock_def)
  have start: "cal.run_held (threads_start Cal_Off srv) = {#}" by (rule cal.run_start(1)) (simp add: assms(2))
  have "cal.accounted (cs_kern (tr_srv (threads_start Cal_Off srv))) (threads_start Cal_Off srv)"
    unfolding cal.run_start(2) by (rule cal.start_accounted) (simp_all add: assms(2,3))
  from cal.as_if_alone [OF assms(1) this start not_False_eq_True [THEN iffD2, OF TrueI] mem, unfolded cal.run_start(2)]
  have "\<exists>p0 k. p0 \<in> {Cal_Read [], Cal_Off} \<and> (cal_solo J func ?fd)\<^sup>*\<^sup>* (p0, cs_kern srv) (tr_pc s i, k) \<and>
      stream k ?fd = stream (cs_kern (tr_srv s)) ?fd" .
  then obtain p0 k where k: "p0 \<in> {Cal_Read [], Cal_Off}" "(cal_solo J func ?fd)\<^sup>*\<^sup>* (p0, cs_kern srv) (tr_pc s i, k)"
    "stream k ?fd = stream (cs_kern (tr_srv s)) ?fd" by blast
  have "p0 \<noteq> Cal_Off"
  proof
    assume "p0 = Cal_Off"
    with k(2) have "(cal_solo J func ?fd)\<^sup>*\<^sup>* (Cal_Off, cs_kern srv) (tr_pc s i, k)" by simp
    then show False by (cases rule: converse_rtranclpE) (use assms(5) in \<open>simp_all add: cal_solo_def\<close>)
  qed
  with k(1,2) have "(cal_solo J func ?fd)\<^sup>*\<^sup>* (Cal_Read [], cs_kern srv) (tr_pc s i, k)" by simp
  from cal.solo_confluent [OF this serviceIO_steps [OF assms(6)]]
  have "(cal_solo J func ?fd)\<^sup>*\<^sup>* (tr_pc s i, k) (Cal_End, k')" by (simp add: cal_solo_def)
  then show ?thesis
  proof (cases rule: converse_rtranclpE)
    case (step r)
    then obtain p1 k1 where "cal_solo J func ?fd (tr_pc s i, k) (p1, k1)" by (metis surj_pair)
    from cal_solo_laws(4) [OF this k(3) [symmetric]] show ?thesis by (auto simp: cal_solo_def)
  qed (use k(3) in simp)
qed


text \<open>A client that sends two requests in one piece.\<close>

definition pair_request :: string where
  "pair_request = addHeader ''x:7 y:5 op:43'' @ addHeader ''x:7 y:5 op:43''"

definition pair_calls :: "int \<Rightarrow> recv_call list" where
  "pair_calls fd = (if fd = 4 then [(replicate 2048 NUL, RData pair_request), (replicate 2048 NUL, REof)] else [(replicate 2048 NUL, REof)])"

definition pair_server :: cal_server where
  "pair_server = \<lparr>cs_listensock = sock_new, cs_threads = [], cs_kern = boot_kernel\<lparr>k_open := [3, 0, 1, 2],
     k_accepts := [AOk ''10.0.0.1'' 9000], k_recvs := pair_calls, k_sends := (\<lambda>_. [SRet (2 ^ 31) EAGAIN])\<rparr>\<rparr>"

lemma pair_requests:
  "list_all chunk_ok (if fd = 4 then [(replicate 2048 NUL, pair_request)] else [])"
  "list_all (\<lambda>r. payload_ok (Request_serialize words_json r) \<and> Request_deserialize words_json (Request_serialize words_json r) = Done r \<and>
      calculate r = Done ((\<lambda>_. \<lparr>resp_result = 12, resp_code = 0\<rparr>) r) \<and>
      length (addHeader (Response_serialize words_json ((\<lambda>_. \<lparr>resp_result = 12, resp_code = 0\<rparr>) r))) \<le> 2 ^ 31)
      (if fd = 4 then [sum_request, sum_request] else [])"
  "concat (map snd (if fd = (4 :: int) then [(replicate 2048 NUL, pair_request)] else [])) =
      concat (map (\<lambda>r. addHeader (Request_serialize words_json r)) (if fd = 4 then [sum_request, sum_request] else []))"
proof -
  have f: "length pair_request = 38" "NUL \<notin> set pair_request" by code_simp+
  then have "pair_request \<noteq> []" by auto
  with f show "list_all chunk_ok (if fd = 4 then [(replicate 2048 NUL, pair_request)] else [])" by (simp add: chunk_ok_def)
  have "length (addHeader ''res:12 code:0'') = 19" by code_simp
  then show "list_all (\<lambda>r. payload_ok (Request_serialize words_json r) \<and> Request_deserialize words_json (Request_serialize words_json r) = Done r \<and>
      calculate r = Done ((\<lambda>_. \<lparr>resp_result = 12, resp_code = 0\<rparr>) r) \<and>
      length (addHeader (Response_serialize words_json ((\<lambda>_. \<lparr>resp_result = 12, resp_code = 0\<rparr>) r))) \<le> 2 ^ 31)
      (if fd = 4 then [sum_request, sum_request] else [])" by (simp add: sum_request_ok sum_response_text)
  show "concat (map snd (if fd = (4 :: int) then [(replicate 2048 NUL, pair_request)] else [])) =
      concat (map (\<lambda>r. addHeader (Request_serialize words_json r)) (if fd = 4 then [sum_request, sum_request] else []))"
    by (simp add: pair_request_def words_json_sum)
qed


end
