(* ===== verification/HttpThreads.thy ===== *)
theory HttpThreads
  imports HttpProps CalServer ConnThreads "HOL-Library.Sublist"
begin

text \<open>
  The web servers of \<open>7.22/httpServer\<close> and \<open>7.29/httpServer\<close> as a whole: the main thread accepts and
  creates a thread for each connection; a thread reads one request, answers it and ends. The two
  differ in one line, the \<open>close\<close> of the socket, and are two instances of \<open>threaded_server\<close>.
\<close>

section \<open>A connection in steps\<close>

text \<open>\<open>Ht_Spin\<close>: the parser of the request loops for ever.\<close>

datatype http_pc = Ht_Off | Ht_Recv | Ht_Send string | Ht_Spin | Ht_End

definition http_read :: "(kernel \<Rightarrow> kernel) \<Rightarrow> (string \<Rightarrow> string outcome option) \<Rightarrow> int \<Rightarrow> kernel \<Rightarrow> (http_pc \<times> kernel) outcome" where
  "http_read leave func client_sock k =
     bind_out (k_recv client_sock k) (\<lambda>(call, k1). case call of (old, r) \<Rightarrow>
       (case r of
          RData data \<Rightarrow>
            (if data = [] then Done (Ht_End, leave k1)
             else bind_out (bind_out (buf_set (recv_into old data) (int (length data)) NUL) c_string) (\<lambda>request.
               case func request of
                 None \<Rightarrow> Done (Ht_Spin, k1)
               | Some m \<Rightarrow> bind_out m (\<lambda>response. Done (Ht_Send response, k1))))
        | REof \<Rightarrow> Done (Ht_End, leave k1)
        | RErr e \<Rightarrow> Done (Ht_End, leave k1)))"

text \<open>What a thread does with its socket at its end: \<open>close\<close> in 7.22, nothing in 7.29.\<close>

definition leave :: "bool \<Rightarrow> int \<Rightarrow> kernel \<Rightarrow> kernel" where
  "leave closes sock k = (if closes then k_close sock k else k)"

fun http_step :: "bool \<Rightarrow> (string \<Rightarrow> string outcome option) \<Rightarrow> http_pc \<Rightarrow> int \<Rightarrow> kernel \<Rightarrow> (http_pc \<times> kernel) outcome" where
  "http_step closes func Ht_Recv sock k = http_read (leave closes sock) func sock k"
| "http_step closes func (Ht_Send response) sock k = bind_out (k_send sock response k) (\<lambda>k1. Done (Ht_End, leave closes sock k1))"
| "http_step closes func _ sock k = Blocked"

definition hs_socks :: "http_server \<Rightarrow> int list" where
  "hs_socks s = map (\<lambda>td. td_sock (the td)) (hs_threads s)"

definition http_run_step :: "bool \<Rightarrow> (string \<Rightarrow> string outcome option) \<Rightarrow>
    (http_server, http_pc) threads_run \<Rightarrow> (http_server, http_pc) threads_run \<Rightarrow> bool" where
  "http_run_step closes func = threads_step http_accept hs_kern (\<lambda>k. hs_kern_update (\<lambda>_. k)) hs_socks (http_step closes func) Ht_Off Ht_Recv"

definition http_solo :: "bool \<Rightarrow> (string \<Rightarrow> string outcome option) \<Rightarrow> int \<Rightarrow> http_pc \<times> kernel \<Rightarrow> http_pc \<times> kernel \<Rightarrow> bool" where
  "http_solo closes func fd = (\<lambda>(p, k) r. http_step closes func p fd k = Done r)"

lemma leave_simps [simp]: "stream (leave closes fd k) g = stream k g" "k_accepts (leave closes fd k) = k_accepts k"
  "k_open (leave closes fd k) = (if closes then removeAll fd (k_open k) else k_open k)"
  by (simp_all add: leave_def)

section \<open>The steps are those of the thread\<close>

lemma http_read_cases:
  assumes "http_read lv func fd k = Done (p, k')"
  obtains (ends) c k1 where "k_recv fd k = Done (c, k1)" "p = Ht_End" "k' = lv k1"
    | (spins) old d req where "k_recv fd k = Done ((old, RData d), k')" "d \<noteq> []" "p = Ht_Spin"
      "bind_out (buf_set (recv_into old d) (int (length d)) NUL) c_string = Done req" "func req = None"
    | (answers) old d req resp where "k_recv fd k = Done ((old, RData d), k')" "d \<noteq> []" "p = Ht_Send resp"
      "bind_out (buf_set (recv_into old d) (int (length d)) NUL) c_string = Done req" "func req = Some (Done resp)"
proof -
  from assms obtain old r k1 where c: "k_recv fd k = Done ((old, r), k1)" by (auto simp: http_read_def)
  show thesis
  proof (cases "\<exists>d. r = RData d \<and> d \<noteq> []")
    case False
    with c assms show thesis by (intro ends [of "(old, r)" k1]) (cases r, simp_all add: http_read_def)+
  next
    case True
    then obtain d where d: "r = RData d" "d \<noteq> []" by blast
    with c assms obtain req where q: "bind_out (buf_set (recv_into old d) (int (length d)) NUL) c_string = Done req"
      "(case func req of None \<Rightarrow> Done (Ht_Spin, k1) | Some m \<Rightarrow> bind_out m (\<lambda>response. Done (Ht_Send response, k1))) = Done (p, k')"
      unfolding http_read_def by (simp only: bind_out.simps prod.case recv_res.case if_False bind_out_Done_iff [of _ "\<lambda>request. _ request"]) blast
    with c d show thesis by (cases "func req") (auto intro: spins answers)
  qed
qed

lemma http_solo_read: "http_solo closes func fd (Ht_Recv, k) (p, k') \<longleftrightarrow> http_read (leave closes fd) func fd k = Done (p, k')"
  by (simp add: http_solo_def)

lemma http_solo_send: "http_solo closes func fd (Ht_Send resp, k) (p, k') \<longleftrightarrow>
    (\<exists>k1. k_send fd resp k = Done k1 \<and> p = Ht_End \<and> k' = leave closes fd k1)"
  by (auto simp: http_solo_def)

lemma http_solo_not: "\<not> http_solo closes func fd (Ht_Off, k) r" "\<not> http_solo closes func fd (Ht_Spin, k) r" "\<not> http_solo closes func fd (Ht_End, k) r"
  by (simp_all add: http_solo_def)

lemma http_read_recv:
  assumes "k_recv fd k = Done (c, k1)" "k_recv fd k2 = Done (c, k3)" "http_read lv func fd k = Done (p, k')"
  shows "http_read lv func fd k2 = Done (p, if p = Ht_End then lv k3 else k3)"
  using assms(3)
proof (cases rule: http_read_cases)
  case (ends c' k1')
  obtain old r where c: "c = (old, r)" by (cases c)
  have "\<not> (\<exists>d. r = RData d \<and> d \<noteq> [])"
  proof
    assume "\<exists>d. r = RData d \<and> d \<noteq> []"
    then obtain d where d: "r = RData d" "d \<noteq> []" by blast
    with assms(1,3) c ends(2) show False by (auto simp: http_read_def split: option.splits)
  qed
  with assms(2) c ends(2) show ?thesis by (cases r) (simp_all add: http_read_def)
qed (use assms(1,2) in \<open>simp_all add: http_read_def del: bind_out_Done_iff\<close>)

lemma http_solo_laws:
  assumes s: "http_solo closes func fd (p, k) (p', k')"
  shows "g \<noteq> fd \<Longrightarrow> stream k' g = stream k g"
    and "k_open k' = (if closes \<and> p' = Ht_End then removeAll fd (k_open k) else k_open k)"
    and "k_accepts k' = k_accepts k \<and> stream_left (stream k' fd) < stream_left (stream k fd)"
    and "stream k2 fd = stream k fd \<Longrightarrow> \<exists>k2'. http_solo closes func fd (p, k2) (p', k2') \<and> stream k2' fd = stream k' fd"
proof -
  from s consider c k1 where "p = Ht_Recv" "k_recv fd k = Done (c, k1)" "k' = (if p' = Ht_End then leave closes fd k1 else k1)"
    | resp k1 where "p = Ht_Send resp" "k_send fd resp k = Done k1" "p' = Ht_End" "k' = leave closes fd k1"
    by (cases p) (auto simp: http_solo_read http_solo_send http_solo_not elim!: http_read_cases)
  then have "(g \<noteq> fd \<longrightarrow> stream k' g = stream k g) \<and> k_open k' = (if closes \<and> p' = Ht_End then removeAll fd (k_open k) else k_open k) \<and>
    k_accepts k' = k_accepts k \<and> stream_left (stream k' fd) < stream_left (stream k fd) \<and>
    (stream k2 fd = stream k fd \<longrightarrow> (\<exists>k2'. http_solo closes func fd (p, k2) (p', k2') \<and> stream k2' fd = stream k' fd))"
  proof cases
    case 1
    have "\<exists>k2'. http_solo closes func fd (p, k2) (p', k2') \<and> stream k2' fd = stream k' fd" if eq: "stream k2 fd = stream k fd"
    proof -
      from k_recv_frame(5) [OF 1(2) eq] obtain k3 where k3: "k_recv fd k2 = Done (c, k3)" "stream k3 fd = stream k1 fd" by blast
      from s 1(1) have "http_read (leave closes fd) func fd k = Done (p', k')" by (simp add: http_solo_read)
      from http_read_recv [OF 1(2) k3(1) this] 1(1,3) k3(2) show ?thesis
        by (intro exI [of _ "if p' = Ht_End then leave closes fd k3 else k3"]) (simp add: http_solo_read)
    qed
    with 1(3) k_recv_frame(1-4) [OF 1(2)] show ?thesis by simp
  next
    case 2
    have "\<exists>k2'. http_solo closes func fd (p, k2) (p', k2') \<and> stream k2' fd = stream k' fd" if eq: "stream k2 fd = stream k fd"
      using k_send_frame(5) [OF 2(2) eq] 2(1,3,4) by (auto simp: http_solo_send)
    with 2(3,4) k_send_frame(1-4) [OF 2(2)] show ?thesis by simp
  qed
  then show "g \<noteq> fd \<Longrightarrow> stream k' g = stream k g" "k_open k' = (if closes \<and> p' = Ht_End then removeAll fd (k_open k) else k_open k)"
    "k_accepts k' = k_accepts k \<and> stream_left (stream k' fd) < stream_left (stream k fd)"
    "stream k2 fd = stream k fd \<Longrightarrow> \<exists>k2'. http_solo closes func fd (p, k2) (p', k2') \<and> stream k2' fd = stream k' fd" by blast+
qed

lemma http_accept_Done:
  assumes "http_accept len s = Done s'"
  shows "\<exists>so n addr. sock_Accept_uninit len so (hs_kern s) = Done ((n, addr), hs_kern s') \<and>
    hs_socks s' = (if n < 0 then hs_socks s else hs_socks s @ [n])"
proof -
  obtain n addr k where a: "sock_Accept_uninit len (hs_listensock s) (hs_kern s) = Done ((n, addr), k)"
    using assms by (auto simp: http_accept_def simp del: split_paired_Ex)
  with assms show ?thesis
    by (intro exI [of _ "hs_listensock s"] exI [of _ n] exI [of _ addr])
      (auto simp: http_accept_def hs_socks_def split: if_splits option.splits)
qed

interpretation web: threaded_server http_accept hs_kern "\<lambda>k. hs_kern_update (\<lambda>_. k)" hs_socks
    "http_step closes func" Ht_Off Ht_Recv "\<lambda>p. closes \<and> p = Ht_End"
  rewrites "threads_step http_accept hs_kern (\<lambda>k. hs_kern_update (\<lambda>_. k)) hs_socks (http_step closes func) Ht_Off Ht_Recv =
     http_run_step closes func"
    and "threaded_server.solo (http_step closes func) = http_solo closes func" for closes func
proof -
  note laws = http_solo_laws [unfolded http_solo_def prod.case]
  show t: "threaded_server http_accept hs_kern (\<lambda>k. hs_kern_update (\<lambda>_. k)) hs_socks
      (http_step closes func) Ht_Off Ht_Recv (\<lambda>p. closes \<and> p = Ht_End)"
  proof
    show "\<exists>len s'. http_accept len s = Done s'" if "k_accepts (hs_kern s) \<noteq> []" for s
      using that by (intro exI [of _ 16], cases "k_accepts (hs_kern s)"; cases "hd (k_accepts (hs_kern s))")
        (auto simp: http_accept_def sock_Accept_uninit_def k_accept_def k_new_fd_def Let_def)
    show "hs_socks (hs_kern_update (\<lambda>_. k) s) = hs_socks s" for k s by (simp add: hs_socks_def)
  qed (assumption | rule http_accept_Done laws | simp)+
  show "threaded_server.solo (http_step closes func) = http_solo closes func"
    by (simp add: fun_eq_iff threaded_server.solo_def [OF t] http_solo_def)
qed (simp add: http_run_step_def)

text \<open>The thread in one go is a run of these steps.\<close>

lemma map_leave: "map_option (map_outcome (leave closes fd)) (http_serve func fd k) = Some (Done k') \<longleftrightarrow>
    (\<exists>p k1. http_read (leave closes fd) func fd k = Done (p, k1) \<and>
      (p = Ht_End \<and> k' = k1 \<or> (\<exists>resp. p = Ht_Send resp \<and> http_solo closes func fd (p, k1) (Ht_End, k'))))"
proof (cases "k_recv fd k")
  case (Done x)
  moreover obtain old r k1 where "x = ((old, r), k1)" by (metis surj_pair)
  ultimately have x: "k_recv fd k = Done ((old, r), k1)" by simp
  show ?thesis
  proof (cases "\<exists>d. r = RData d \<and> d \<noteq> []")
    case False
    with x show ?thesis by (cases r) (auto simp: http_serve_def http_read_def)
  next
    case True
    then obtain d where d: "r = RData d" "d \<noteq> []" by blast
    let ?m = "bind_out (buf_set (recv_into old d) (int (length d)) NUL) c_string"
    show ?thesis
    proof (cases ?m)
      case (Done req)
      have serve: "http_serve func fd k = map_option (\<lambda>m. bind_out m (\<lambda>response. k_send fd response k1)) (func req)"
        using x d Done by (simp add: http_serve_def del: bind_out_Done_iff)
      have read: "http_read lv func fd k =
          (case func req of None \<Rightarrow> Done (Ht_Spin, k1) | Some m \<Rightarrow> bind_out m (\<lambda>response. Done (Ht_Send response, k1)))" for lv
        using x d Done by (simp add: http_read_def del: bind_out_Done_iff)
      show ?thesis
      proof (cases "func req")
        case (Some m)
        show ?thesis
        proof (cases m)
          case (Done resp)
          with Some show ?thesis by (cases "k_send fd resp k1") (auto simp: serve read http_solo_send)
        qed (simp_all add: serve read Some)
      qed (simp add: serve read)
    qed (use x d in \<open>simp_all add: http_serve_def http_read_def del: bind_out_Done_iff\<close>)
  qed
qed (simp_all add: http_serve_def http_read_def)

lemma http_thread_steps:
  "(if closes then http_thread_22 else http_thread_29) func td k = Some (Done k') \<longleftrightarrow>
   (http_solo closes func (td_sock td))\<^sup>*\<^sup>* (Ht_Recv, k) (Ht_End, k')"
proof -
  let ?fd = "td_sock td"
  have id: "map_outcome (leave False fd) m = m" for fd m by (cases m) (simp_all add: leave_def)
  have "(if closes then http_thread_22 else http_thread_29) func td k = map_option (map_outcome (leave closes ?fd)) (http_serve func ?fd k)"
  proof (cases closes)
    case True
    have "leave True ?fd = k_close ?fd" by (simp add: leave_def fun_eq_iff)
    with True show ?thesis by (simp add: http_thread_22_def)
  next
    case False
    then show ?thesis by (simp add: http_thread_29_def id option.map_ident_strong)
  qed
  moreover have "(http_solo closes func ?fd)\<^sup>*\<^sup>* (Ht_Recv, k) (Ht_End, k') \<longleftrightarrow> (\<exists>p k1. http_read (leave closes ?fd) func ?fd k = Done (p, k1) \<and>
      (p = Ht_End \<and> k' = k1 \<or> (\<exists>resp. p = Ht_Send resp \<and> http_solo closes func ?fd (p, k1) (Ht_End, k'))))" (is "?l \<longleftrightarrow> ?r")
  proof
    assume ?l
    then obtain p k1 where 1: "http_solo closes func ?fd (Ht_Recv, k) (p, k1)" "(http_solo closes func ?fd)\<^sup>*\<^sup>* (p, k1) (Ht_End, k')"
      by (cases rule: converse_rtranclpE) auto
    from 1(2) show ?r
    proof (cases rule: converse_rtranclpE)
      case (step r)
      obtain p2 k2 where r: "r = (p2, k2)" by (cases r)
      from step(1) obtain resp where p: "p = Ht_Send resp" "p2 = Ht_End"
        using 1(1) by (cases p) (auto simp: r http_solo_not http_solo_send http_solo_read elim: http_read_cases)
      from step(2) p(2) have "k2 = k'" by (cases rule: converse_rtranclpE) (auto simp: r http_solo_not)
      with step(1) p 1(1) r show ?thesis by (auto simp: http_solo_read)
    qed (use 1(1) in \<open>auto simp: http_solo_read\<close>)
  next
    assume ?r
    then show ?l by (metis converse_rtranclp_into_rtranclp http_solo_read r_into_rtranclp)
  qed
  ultimately show ?thesis by (simp only: map_leave)
qed

section \<open>What the clients get, and what is left\<close>

text \<open>What is sent for the messages a descriptor brings, one answer to each; messages that fit into the array.\<close>

definition web_answer :: "(string \<Rightarrow> string outcome option) \<Rightarrow> recv_call \<Rightarrow> string" where
  "web_answer func = (\<lambda>(old, r). case r of
      RData d \<Rightarrow> (if d = [] then [] else case func (c_str d) of Some (Done resp) \<Rightarrow> resp | _ \<Rightarrow> [])
    | _ \<Rightarrow> [])"

definition web_call_ok :: "recv_call \<Rightarrow> bool" where
  "web_call_ok = (\<lambda>(old, r). case r of RData d \<Rightarrow> length old = 4096 \<and> length d < 4096 | _ \<Rightarrow> True)"

definition web_clients_ok :: "kernel \<Rightarrow> bool" where
  "web_clients_ok k \<longleftrightarrow> distinct (k_open k) \<and> (\<forall>fd. list_all web_call_ok (k_recvs k fd) \<and>
     list_all takes_all (k_sends k fd) \<and> length (k_recvs k fd) \<le> length (k_sends k fd))"

definition web_due :: "http_pc option \<Rightarrow> string list" where
  "web_due q = (case q of Some (Ht_Send resp) \<Rightarrow> [resp] | _ \<Rightarrow> [])"

lemma web_due_simps [simp]: "web_due None = []" "web_due (Some (Ht_Send resp)) = [resp]" "web_due (Some Ht_Recv) = []"
  "web_due (Some Ht_Off) = []" "web_due (Some Ht_Spin) = []" "web_due (Some Ht_End) = []"
  by (simp_all add: web_due_def)

definition web_account :: "(string \<Rightarrow> string outcome option) \<Rightarrow> kernel \<Rightarrow> int \<Rightarrow> http_pc option \<Rightarrow> stream \<Rightarrow> bool" where
  "web_account func k0 fd q = (\<lambda>(recvs, sends, sent).
      sent @ concat (web_due q) @ concat (map (web_answer func) recvs) = k_sent k0 fd @ concat (map (web_answer func) (k_recvs k0 fd)) \<and>
      suffix recvs (k_recvs k0 fd) \<and> length (web_due q) + length recvs \<le> length sends \<and> list_all takes_all sends \<and>
      list_all web_call_ok (k_recvs k0 fd) \<and> (\<forall>resp \<in> set (web_due q). length resp < 2 ^ 31) \<and>
      (q = Some Ht_Spin \<longrightarrow> (\<exists>old d. (old, RData d) \<in> set (k_recvs k0 fd) \<and> func (c_str d) = None)))"

text \<open>A function that answers or does not return.\<close>

definition answers_or_spins :: "(string \<Rightarrow> string outcome option) \<Rightarrow> bool" where
  "answers_or_spins func \<longleftrightarrow> (\<forall>m r. func m = Some r \<longrightarrow> (\<exists>resp. r = Done resp \<and> length resp < 2 ^ 31))"

lemma web_call_string:
  assumes "web_call_ok (old, RData d)"
  shows "bind_out (buf_set (recv_into old d) (int (length d)) NUL) c_string = Done (c_str d)"
  by (rule terminated_recv_c_string) (use assms in \<open>simp add: web_call_ok_def\<close>)

lemma web_account_step:
  assumes "answers_or_spins func" "web_account func k0 fd (Some p) (stream k fd)" "http_solo closes func fd (p, k) (p', k')"
  shows "web_account func k0 fd (if closes \<and> p' = Ht_End then None else Some p') (stream k' fd)"
proof (cases p)
  case Ht_Recv
  let ?q = "if closes \<and> p' = Ht_End then None else Some p'"
  from assms(3) Ht_Recv have rd: "http_read (leave closes fd) func fd k = Done (p', k')" by (simp add: http_solo_read)
  then obtain c k1 where c: "k_recv fd k = Done (c, k1)" by (cases rule: http_read_cases) blast+
  then obtain rest where recvs: "k_recvs k fd = c # rest" "k1 = k\<lparr>k_recvs := (k_recvs k)(fd := rest)\<rparr>" by (auto simp: k_recv_iff)
  with assms(2) Ht_Recv have acc: "k_sent k fd @ web_answer func c @ concat (map (web_answer func) rest) =
      k_sent k0 fd @ concat (map (web_answer func) (k_recvs k0 fd))" "suffix (c # rest) (k_recvs k0 fd)"
    "Suc (length rest) \<le> length (k_sends k fd)" "list_all takes_all (k_sends k fd)" "list_all web_call_ok (k_recvs k0 fd)"
    by (simp_all add: web_account_def stream_def)
  have mem: "c \<in> set (k_recvs k0 fd)" using acc(2) by (auto simp: suffix_def)
  have ok: "web_call_ok c" using mem acc(5) by (simp add: list_all_iff)
  have st: "stream k' fd = (rest, k_sends k fd, k_sent k fd)"
    using rd c recvs(2) by (cases rule: http_read_cases) (simp_all add: stream_def leave_def k_close_def)
  have "concat (web_due ?q) = web_answer func c \<and> length (web_due ?q) \<le> 1 \<and> (\<forall>resp \<in> set (web_due ?q). length resp < 2 ^ 31) \<and>
      (?q = Some Ht_Spin \<longrightarrow> (\<exists>old d. c = (old, RData d) \<and> func (c_str d) = None))"
    using rd
  proof (cases rule: http_read_cases)
    case (ends c' k2)
    have "web_answer func c = []"
    proof (cases "\<exists>old d. c = (old, RData d) \<and> d \<noteq> []")
      case True
      then obtain old d where d: "c = (old, RData d)" "d \<noteq> []" by blast
      with ok have "bind_out (buf_set (recv_into old d) (int (length d)) NUL) c_string = Done (c_str d)" by (simp add: web_call_string)
      with d c ends(2) rd show ?thesis by (auto simp: http_read_def simp del: bind_out_Done_iff split: option.splits, auto)
    qed (cases c; cases "snd c"; auto simp: web_answer_def)
    with ends(2) show ?thesis by simp
  next
    case (spins old d req)
    with c ok have "c = (old, RData d)" "req = c_str d" by (simp_all add: web_call_string)
    with spins show ?thesis by (simp add: web_answer_def)
  next
    case (answers old d req resp)
    with c ok have "c = (old, RData d)" "req = c_str d" by (simp_all add: web_call_string)
    with answers assms(1) show ?thesis by (auto simp: web_answer_def answers_or_spins_def)
  qed
  with acc mem st show ?thesis by (auto simp: web_account_def intro: suffix_ConsD)
next
  case (Ht_Send resp)
  with assms(2) have b: "list_all takes_all (k_sends k fd)" "length resp < 2 ^ 31" "k_sends k fd \<noteq> []"
    by (auto simp: web_account_def stream_def)
  then obtain x xs where x: "k_sends k fd = x # xs" by (cases "k_sends k fd") auto
  with assms(3) Ht_Send k_send_all [OF x b(1,2)]
  have "p' = Ht_End" "stream k' fd = (k_recvs k fd, xs, k_sent k fd @ resp)"
    by (auto simp: http_solo_send stream_def leave_def k_close_def)
  with assms(2) Ht_Send x show ?thesis by (auto simp: web_account_def stream_def)
qed (use assms(3) in \<open>simp_all add: http_solo_not\<close>)

lemma web_account_go:
  assumes "answers_or_spins func" "web_account func k0 fd (Some p) (stream k fd)"
  shows "if p = Ht_Recv \<and> k_recvs k fd \<noteq> [] \<or> (\<exists>resp. p = Ht_Send resp) then \<exists>r. http_step closes func p fd k = Done r
    else http_step closes func p fd k = Blocked"
proof (cases p)
  case Ht_Recv
  show ?thesis
  proof (cases "k_recvs k fd")
    case (Cons c rest)
    obtain old r where c: "c = (old, r)" by (cases c)
    have "c \<in> set (k_recvs k0 fd)" "list_all web_call_ok (k_recvs k0 fd)"
      using assms(2) Cons by (auto simp: web_account_def stream_def suffix_def)
    then have ok: "web_call_ok (old, r)" by (simp add: list_all_iff c)
    have "\<exists>x. http_read lv func fd k = Done x" for lv
    proof (cases r)
      case (RData d)
      from web_call_string [OF ok [unfolded RData]] have "d \<noteq> [] \<Longrightarrow> ?thesis"
        using assms(1) Cons c RData
        by (cases "func (c_str d)") (auto simp: http_read_def k_recv_def answers_or_spins_def simp del: bind_out_Done_iff, force)
      then show ?thesis using Cons c RData by (cases "d = []") (simp_all add: http_read_def k_recv_def)
    qed (use Cons c in \<open>simp_all add: http_read_def k_recv_def\<close>)
    with Ht_Recv Cons show ?thesis by simp
  qed (use Ht_Recv in \<open>simp add: http_read_def k_recv_def\<close>)
next
  case (Ht_Send resp)
  with assms(2) have b: "list_all takes_all (k_sends k fd)" "length resp < 2 ^ 31" "k_sends k fd \<noteq> []"
    by (auto simp: web_account_def stream_def)
  then obtain x xs where x: "k_sends k fd = x # xs" by (cases "k_sends k fd") auto
  with Ht_Send k_send_all [OF x b(1,2)] show ?thesis by simp
qed simp_all

lemma web_run_account:
  assumes "answers_or_spins func" "web_clients_ok (hs_kern srv)" "hs_threads srv = []"
    and "(http_run_step closes func)\<^sup>*\<^sup>* (threads_start Ht_Off srv) s"
  shows "web.accounted closes (hs_kern srv) s \<and> web.each_fd closes (web_account func (hs_kern srv)) s"
proof (rule web.each_fd_run [OF assms(4)])
  have none: "hs_socks srv = []" using assms(3) by (simp add: hs_socks_def)
  show "web.accounted closes (hs_kern srv) (threads_start Ht_Off srv)"
    using assms(2) none by (intro web.start_accounted) (simp_all add: web_clients_ok_def)
  show "web.each_fd closes (web_account func (hs_kern srv)) (threads_start Ht_Off srv)"
    using assms(2) none by (simp add: web.each_fd_def web_clients_ok_def web_account_def stream_def)
  show "web_account func (hs_kern srv) fd (Some p) v" if "web_account func (hs_kern srv) fd None v" "p \<in> {Ht_Recv, Ht_Off}" for fd p v
    using that by (auto simp: web_account_def)
qed (rule web_account_step [OF assms(1)])


text \<open>A site without files, a request that is answered and one without line ends.\<close>

lemma no_file_short:
  assumes "handlerHttpRequest (\<lambda>_. NoFile) m = Some (Done resp)"
  shows "length resp < 2 ^ 31"
proof -
  have r: "readFile (\<lambda>_. NoFile) p [] = Done (False, [])" for p
    by (subst readFile_answer) (simp_all add: node_small_def node_answer_def)
  obtain req where q: "Desarialize m = Some req" using assms by (auto simp: handlerHttpRequest_def)
  have "resp = ''HTTP/1.0 404 Not Found'' @ CRLF @ ''Content-Length: '' @ digits_of 0 @ CRLF @ getContentType (hr_suffix req) @ CRLF"
    using assms unfolding handlerHttpRequest_def r q by (simp del: append.simps)
  moreover have "length (getContentType x) < 40" for x by (simp add: getContentType_def CRLF_def)
  moreover have "length (digits_of 0) = 1" by (simp add: digits_of.simps)
  moreover have "length CRLF = 2" by (simp add: CRLF_def)
  ultimately have "length resp < 45 + 40" by (simp add: add_strict_left_mono)
  then show ?thesis by simp
qed

definition small_site :: http_server where
  "small_site = \<lparr>hs_listensock = sock_new, hs_threads = [], hs_kern = boot_kernel\<lparr>k_open := [3, 0, 1, 2],
     k_accepts := [AOk ''10.0.0.1'' 9000, AOk ''10.0.0.2'' 9001],
     k_recvs := (\<lambda>fd. if fd = 4 then [(replicate 4096 NUL, RData (''GET / HTTP/1.1'' @ CRLF))]
       else [(replicate 4096 NUL, RData ''GET / HTTP/1.1'')]),
     k_sends := (\<lambda>_. [SRet (2 ^ 31) EAGAIN])\<rparr>\<rparr>"


end
