(* ===== verification/EpollMany.thy ===== *)
theory EpollMany
  imports EpollProps ConnThreads
begin

text \<open>
  The reactor of \<open>8.11/epollServer.2\<close> with any number of clients at once: a handler touches only the
  connection it is called for, so that what each client gets can be accounted for separately, whatever
  events of the others come in between.
\<close>

section \<open>A handler touches one connection\<close>

definition touches :: "int \<Rightarrow> nat \<Rightarrow> server \<Rightarrow> server \<Rightarrow> bool" where
  "touches fd p s s' \<longleftrightarrow> (\<forall>q. q \<noteq> p \<longrightarrow> sv_heap s' q = sv_heap s q) \<and>
     (\<forall>g. g \<noteq> fd \<longrightarrow> sv_connections s' g = sv_connections s g \<and> stream (sv_kern s') g = stream (sv_kern s) g) \<and>
     k_accepts (sv_kern s') = k_accepts (sv_kern s) \<and> k_watch (sv_kern s') = k_watch (sv_kern s) \<and>
     (\<forall>c. sv_heap s' p = Some c \<longrightarrow> conn_fd c = fd)"

lemma touches_trans: "touches fd p s t \<Longrightarrow> touches fd p t u \<Longrightarrow> touches fd p s u"
  by (simp add: touches_def)

lemma touches_refl: "sv_heap s p = Some c \<Longrightarrow> touches (conn_fd c) p s s"
  by (simp add: touches_def)

lemma touches_put:
  assumes "sv_heap s p = Some c" "conn_fd c' = conn_fd c" "\<And>g. g \<noteq> conn_fd c \<Longrightarrow> stream k g = stream (sv_kern s) g"
    and "k_accepts k = k_accepts (sv_kern s)" "k_watch k = k_watch (sv_kern s)"
  shows "touches (conn_fd c) p s (put_kern k s)" "touches (conn_fd c) p s (put_conn p c' (put_kern k s))"
    and "touches (conn_fd c) p s (put_kern k (put_conn p c' s))"
  using assms by (simp_all add: touches_def)

lemma call_excepter_touches:
  assumes "call_excepter p s = Done s'" "sv_heap s p = Some c"
  shows "touches (conn_fd c) p s s'"
proof -
  obtain ret k where d: "Epoll_DelEvent (conn_fd c) (sv_kern s) = (ret, k)" by (cases "Epoll_DelEvent (conn_fd c) (sv_kern s)")
  then have k: "k_accepts k = k_accepts (sv_kern s)" "k_watch k = k_watch (sv_kern s)" "\<And>g. stream k g = stream (sv_kern s) g"
    by (auto simp: Epoll_DelEvent_def k_ctl_del_def stream_def split: if_splits)
  have "s' = s\<lparr>sv_kern := k_close (conn_fd c) k, sv_connections := (sv_connections s)(conn_fd c := None), sv_heap := (sv_heap s)(p := None)\<rparr>"
    using assms d by (auto simp: call_excepter_def Excepter_def Let_def split: exc_cb.splits)
  with k show ?thesis by (simp add: touches_def k_close_def stream_def)
qed

lemma recv_loop_touches:
  assumes "recv_loop cs p s = Done (b, s')" "sv_heap s p = Some c"
  shows "touches (conn_fd c) p s s'"
  using assms
proof (induction cs arbitrary: s c)
  case (Cons call rest)
  obtain old r where call: "call = (old, r)" by (cases call)
  define s1 where "s1 = put_kern ((sv_kern s)\<lparr>k_recvs := (k_recvs (sv_kern s))(conn_fd c := rest)\<rparr>) s"
  have t1: "touches (conn_fd c) p s s1" "sv_heap s1 p = Some c"
    unfolding s1_def by (intro touches_put(1) [where c' = c]; use Cons.prems(2) in \<open>simp add: stream_def\<close>)
      (use Cons.prems(2) in simp)
  have ex: "touches (conn_fd c) p s s'" if "bind_out (call_excepter p s1) (\<lambda>s. Done (False, s)) = Done (b, s')"
    using that call_excepter_touches [OF _ t1(2)] touches_trans [OF t1(1)] by auto
  have again: "touches (conn_fd c) p s s'" if "sv_heap s2 p = Some c2" "conn_fd c2 = conn_fd c" "touches (conn_fd c) p s s2"
    "bind_out (deref s2 p) (\<lambda>c. if conn_events c AND EPOLLET \<noteq> 0 then recv_loop rest p s2 else Done (True, s2)) = Done (b, s')" for s2 c2
    using that Cons.IH [OF _ that(1)] touches_trans [OF that(3)] by (auto split: if_splits)
  show ?case
  proof (cases r)
    case (RData data)
    show ?thesis
    proof (cases "data = []")
      case False
      show ?thesis
      proof (cases "c_string (recv_into old data)")
        case (Done str)
        let ?c = "c\<lparr>conn_inbuffer := conn_inbuffer c @ str\<rparr>"
        have "touches (conn_fd c) p s (put_conn p ?c s1)" unfolding s1_def
          by (intro touches_put(2); use Cons.prems(2) in \<open>simp add: stream_def\<close>)
        moreover have "bind_out (deref (put_conn p ?c s1) p) (\<lambda>c. if conn_events c AND EPOLLET \<noteq> 0
            then recv_loop rest p (put_conn p ?c s1) else Done (True, put_conn p ?c s1)) = Done (b, s')"
          using Cons.prems RData False Done by (simp add: call Let_def s1_def del: bind_out_Done_iff split: if_splits)
        ultimately show ?thesis by (intro again [of "put_conn p ?c s1" ?c]) simp_all
      qed (use Cons.prems RData False in \<open>simp_all add: call Let_def del: bind_out_Done_iff\<close>)
    qed (use Cons.prems RData ex in \<open>simp add: call Let_def s1_def\<close>)
  next
    case REof
    with Cons.prems ex show ?thesis by (simp add: call Let_def s1_def)
  next
    case (RErr e)
    with Cons.prems ex again [OF t1(2) refl t1(1)] t1 show ?thesis
      by (cases e) (simp_all add: call Let_def s1_def [symmetric] cong: if_cong)
  qed
qed simp

lemma send_loop_touches:
  assumes "send_loop ss p s = Done (b, s')" "sv_heap s p = Some c"
  shows "touches (conn_fd c) p s s'"
  using assms
proof (induction ss arbitrary: s c)
  case (Cons call rest)
  obtain n e where call: "call = SRet n e" by (cases call)
  define k where "k = (sv_kern s)\<lparr>k_sends := (k_sends (sv_kern s))(conn_fd c := rest)\<rparr>"
  have t1: "touches (conn_fd c) p s (put_kern k s)"
    by (intro touches_put(1) [where c' = c]; use Cons.prems(2) in \<open>simp add: stream_def k_def\<close>)
  have ex: "touches (conn_fd c) p s s'" if "bind_out (call_excepter p (put_kern k s)) (\<lambda>s. Done (False, s)) = Done (b, s')"
    using that call_excepter_touches [of p "put_kern k s" s' c] Cons.prems(2) touches_trans [OF t1] by auto
  have again: "touches (conn_fd c) p s s'" if "sv_heap s2 p = Some c2" "conn_fd c2 = conn_fd c" "touches (conn_fd c) p s s2"
    "bind_out (deref s2 p) (\<lambda>c. if conn_events c AND EPOLLET \<noteq> 0 then send_loop rest p s2 else Done (True, s2)) = Done (b, s')" for s2 c2
    using that Cons.IH [OF _ that(1)] touches_trans [OF that(3)] by (auto split: if_splits)
  show ?case
  proof (cases "n > 0")
    case True
    let ?k = "k\<lparr>k_sent := (k_sent k)(conn_fd c := k_sent k (conn_fd c) @ take (nat n) (conn_outbuffer c))\<rparr>"
    define s2 where "s2 = put_conn p (c\<lparr>conn_outbuffer := drop (nat n) (conn_outbuffer c)\<rparr>) (put_kern ?k s)"
    have t2: "touches (conn_fd c) p s s2" unfolding s2_def
      by (intro touches_put(2); use Cons.prems(2) in \<open>simp add: stream_def k_def\<close>)
    have "(if drop (nat n) (conn_outbuffer c) = [] then Done (True, s2)
      else bind_out (deref s2 p) (\<lambda>c. if conn_events c AND EPOLLET \<noteq> 0 then send_loop rest p s2 else Done (True, s2))) = Done (b, s')"
      using Cons.prems True by (simp add: call Let_def k_def s2_def split: if_splits)
    with t2 again [of s2 "c\<lparr>conn_outbuffer := drop (nat n) (conn_outbuffer c)\<rparr>"] show ?thesis
      by (auto simp: s2_def simp del: bind_out_Done_iff split: if_splits)
  next
    case False
    with Cons.prems ex again [of "put_kern k s" c] t1 show ?thesis
      by (cases e) (simp_all add: call Let_def k_def [symmetric] cong: if_cong)
  qed
qed simp

lemma EnableReadWrite_touches:
  assumes "EnableReadWrite p r w s = Done (b, s')" "sv_heap s p = Some c"
  shows "touches (conn_fd c) p s s'"
proof -
  define ev where "ev = ((if r then EPOLLIN else 0) OR (if w then EPOLLOUT else 0)) OR EPOLLET"
  obtain ret k where k: "Epoll_ModEvent (conn_fd c) ev (sv_kern s) = (ret, k)" by (cases "Epoll_ModEvent (conn_fd c) ev (sv_kern s)")
  with assms have "s' = put_kern k (put_conn p (c\<lparr>conn_events := ev\<rparr>) s)" by (simp add: EnableReadWrite_def Let_def ev_def)
  moreover from k have "k_accepts k = k_accepts (sv_kern s)" "k_watch k = k_watch (sv_kern s)" "\<And>g. stream k g = stream (sv_kern s) g"
    by (auto simp: Epoll_ModEvent_def k_ctl_mod_def stream_def split: if_splits)
  ultimately show ?thesis using assms(2) by (simp add: touches_put(3))
qed

lemma call_sender_touches:
  assumes "call_sender p s = Done s'" "sv_heap s p = Some c"
  shows "touches (conn_fd c) p s s'"
proof -
  from assms obtain b s1 where s1: "send_loop (k_sends (sv_kern s) (conn_fd c)) p s = Done (b, s1)"
    "(if \<not> b then Done s1 else bind_out (deref s1 p) (\<lambda>c1.
         if conn_outbuffer c1 \<noteq> [] then bind_out (EnableReadWrite p True True s1) (\<lambda>(r, s2). Done s2)
         else bind_out (EnableReadWrite p True False s1) (\<lambda>(r, s2). Done s2))) = Done s'"
    by (auto simp: call_sender_def Sender_def split: send_cb.splits)
  note t = send_loop_touches [OF s1(1) assms(2)]
  show ?thesis
  proof (cases b)
    case True
    with s1(2) obtain c1 r w where c1: "sv_heap s1 p = Some c1" "EnableReadWrite p True w s1 = Done (r, s')"
      by (auto simp: deref_def split: option.splits if_splits)
    with t have "conn_fd c1 = conn_fd c" by (simp add: touches_def)
    with EnableReadWrite_touches [OF c1(2,1)] t show ?thesis by (metis touches_trans)
  qed (use s1(2) t in simp)
qed

lemma Reciver_touches:
  assumes "Reciver J f p s = Done s'" "sv_heap s p = Some c"
  shows "touches (conn_fd c) p s s'"
proof -
  from assms obtain b s1 where s1: "recv_loop (k_recvs (sv_kern s) (conn_fd c)) p s = Done (b, s1)"
    "(if \<not> b then Done s1 else bind_out (HandleRequest J f p s1) (\<lambda>s2.
         bind_out (deref s2 p) (\<lambda>c. if conn_outbuffer c \<noteq> [] then call_sender p s2 else Done s2))) = Done s'"
    by (auto simp: Reciver_def HandleRecive_def)
  note t = recv_loop_touches [OF s1(1) assms(2)]
  show ?thesis
  proof (cases b)
    case True
    with s1(2) obtain s2 where s2: "HandleRequest J f p s1 = Done s2"
      "bind_out (deref s2 p) (\<lambda>c. if conn_outbuffer c \<noteq> [] then call_sender p s2 else Done s2) = Done s'" by auto
    from s2(1) obtain c1 i o1 where c1: "sv_heap s1 p = Some c1" "s2 = put_conn p (c1\<lparr>conn_inbuffer := i, conn_outbuffer := o1\<rparr>) s1"
      by (auto simp: HandleRequest_def deref_def split: option.splits)
    with t have fd: "conn_fd c1 = conn_fd c" by (simp add: touches_def)
    let ?c2 = "c1\<lparr>conn_inbuffer := i, conn_outbuffer := o1\<rparr>"
    have "touches (conn_fd c) p s s2" using t c1 fd by (simp add: touches_def)
    moreover have "touches (conn_fd c) p s2 s'"
      using s2(2) c1 fd call_sender_touches [of p s2 s' ?c2] touches_refl [of s2 p ?c2] by (simp split: if_splits)
    ultimately show ?thesis by (rule touches_trans)
  qed (use s1(2) t in simp)
qed

section \<open>The account of a client\<close>

text \<open>
  \<open>reqs\<close>: what the client asks, \<open>sent0\<close>: what had been sent before; at least \<open>r\<close> and at most \<open>u\<close> more read events,
  and \<open>f\<close> more calls of \<open>send\<close> that find the kernel's buffer full, are provided for.
\<close>

definition account :: "json_lib \<Rightarrow> (request \<Rightarrow> response) \<Rightarrow> request list \<Rightarrow> string \<Rightarrow> nat \<Rightarrow> nat \<Rightarrow> nat \<Rightarrow> string \<times> string \<Rightarrow> stream \<Rightarrow> bool" where
  "account J answer reqs sent0 r u f = (\<lambda>(inb, outb) (recvs, sends, sent).
     \<exists>evs n. recvs = read_script evs \<and> list_all (list_all delivers) evs \<and> r \<le> length evs \<and> length evs \<le> u \<and> n \<le> length reqs \<and>
       inb @ concat (map appended (concat evs)) = concat (map (\<lambda>q. addHeader (Request_serialize J q)) (drop n reqs)) \<and>
       (drop n reqs = [] \<and> inb = [] \<or>
        (\<exists>q qs d. drop n reqs = q # qs \<and> addHeader (Request_serialize J q) = inb @ d \<and> d \<noteq> [])) \<and>
       sent @ outb = sent0 @ concat (map (\<lambda>q. addHeader (Response_serialize J (answer q))) (take n reqs)) \<and>
       sends_ok sends \<and> f \<le> fulls sends)"

definition requests_ok :: "json_lib \<Rightarrow> (request \<Rightarrow> response) \<Rightarrow> request list \<Rightarrow> bool" where
  "requests_ok J answer reqs \<longleftrightarrow> list_all (\<lambda>r. payload_ok (Request_serialize J r) \<and>
     Request_deserialize J (Request_serialize J r) = Done r \<and> calculate r = Done (answer r)) reqs"

lemma respond_all_ok:
  "requests_ok J answer reqs \<Longrightarrow> respond_all J calculate (map (Request_serialize J) reqs) =
     Done (concat (map (\<lambda>q. addHeader (Response_serialize J (answer q))) reqs))"
  by (induction reqs) (auto simp: requests_ok_def respond_def)

lemma account_less:
  assumes "account J answer reqs sent0 r u f b v" "r' \<le> r" "u \<le> u'" "f' \<le> f"
  shows "account J answer reqs sent0 r' u' f' b v"
proof -
  obtain inb outb recvs sends sent where bv: "b = (inb, outb)" "v = (recvs, sends, sent)" by (metis surj_pair)
  from assms obtain evs n where "r \<le> length evs" "length evs \<le> u" "f \<le> fulls sends" and a: "recvs = read_script evs" "list_all (list_all delivers) evs"
    "n \<le> length reqs" "inb @ concat (map appended (concat evs)) = concat (map (\<lambda>q. addHeader (Request_serialize J q)) (drop n reqs))"
    "drop n reqs = [] \<and> inb = [] \<or> (\<exists>q qs d. drop n reqs = q # qs \<and> addHeader (Request_serialize J q) = inb @ d \<and> d \<noteq> [])"
    "sent @ outb = sent0 @ concat (map (\<lambda>q. addHeader (Response_serialize J (answer q))) (take n reqs))" "sends_ok sends"
    unfolding account_def bv prod.case by blast
  moreover have "r' \<le> length evs" "length evs \<le> u'" "f' \<le> fulls sends" using assms(2-4) calculation(1-3) by simp_all
  ultimately show ?thesis unfolding account_def bv prod.case by blast
qed

text \<open>The connection of a descriptor.\<close>

lemma client_of:
  assumes "sv_ok L s" "sv_connections s fd = Some p" "fd \<noteq> L"
  obtains c where "conn_fd c = fd" "client_conn c" "buffers s fd = (conn_inbuffer c, conn_outbuffer c)"
    "conn_state p s c (k_recvs (sv_kern s) fd) (k_sends (sv_kern s) fd) (k_sent (sv_kern s) fd)" "live L p s"
proof -
  from sv_ok_table [OF assms(1,2)] obtain c where c: "sv_heap s p = Some c" "conn_fd c = fd" by blast
  with sv_ok_heap [OF assms(1) c(1)] assms have "client_conn c" by (simp add: conn_ok_def client_conn_def)
  with c assms(2,3) show thesis by (intro that [of c]) (simp_all add: buffers_def conn_state_def live_def)
qed

lemma buffers_state: "conn_state p s c rs ss sent \<Longrightarrow> buffers s (conn_fd c) = (conn_inbuffer c, conn_outbuffer c) \<and>
    stream (sv_kern s) (conn_fd c) = (rs, ss, sent)"
  by (simp add: conn_state_def buffers_def stream_def)

lemma account_read:
  assumes "sv_ok L s" "sv_connections s fd = Some p" "fd \<noteq> L" "json_safe J" "requests_ok J answer reqs"
    and "account J answer reqs sent0 (Suc r) (Suc u) (Suc f) (buffers s fd) (stream (sv_kern s) fd)"
  shows "\<exists>s'. call_reciver J calculate p s = Done s' \<and> sv_ok L s' \<and> touches fd p s s' \<and> sv_connections s' fd = Some p \<and>
    account J answer reqs sent0 r u f (buffers s' fd) (stream (sv_kern s') fd)"
proof -
  obtain c where c: "conn_fd c = fd" "client_conn c" "buffers s fd = (conn_inbuffer c, conn_outbuffer c)"
    "conn_state p s c (k_recvs (sv_kern s) fd) (k_sends (sv_kern s) fd) (k_sent (sv_kern s) fd)"
    using client_of [OF assms(1-3)] by metis
  let ?S = "Request_serialize J" and ?R = "\<lambda>q. addHeader (Response_serialize J (answer q))"
  let ?ss = "k_sends (sv_kern s) fd" and ?sent = "k_sent (sv_kern s) fd"
  from assms(6) obtain evs0 n where a: "k_recvs (sv_kern s) fd = read_script evs0" "list_all (list_all delivers) evs0"
    "Suc r \<le> length evs0 \<and> length evs0 \<le> Suc u" "n \<le> length reqs"
    "conn_inbuffer c @ concat (map appended (concat evs0)) = concat (map (\<lambda>q. addHeader (?S q)) (drop n reqs))"
    "?sent @ conn_outbuffer c = sent0 @ concat (map ?R (take n reqs))" "sends_ok ?ss" "Suc f \<le> fulls ?ss"
    by (auto simp: account_def c(3) stream_def)
  then obtain cs evs where evs: "evs0 = cs # evs" by (cases evs0) simp_all
  have ok: "list_all payload_ok (map ?S (drop n reqs))"
    using assms(5) by (auto simp: requests_ok_def list_all_iff dest: in_set_dropD)
  have "(conn_inbuffer c @ concat (map appended cs)) @ concat (map appended (concat evs)) = concat (map addHeader (map ?S (drop n reqs)))"
    using a(5) by (simp add: evs comp_def)
  with ok obtain ps1 ps2 b where sp: "map ?S (drop n reqs) = ps1 @ ps2" "conn_inbuffer c @ concat (map appended cs) = concat (map addHeader ps1) @ b"
    "b @ concat (map appended (concat evs)) = concat (map addHeader ps2)"
    "(ps2 = [] \<and> b = []) \<or> (\<exists>q qs d. ps2 = q # qs \<and> addHeader q = b @ d \<and> d \<noteq> [])"
    by (rule frames.split_stream)
  define m where "m = n + length ps1"
  have ps: "ps1 = map ?S (take (length ps1) (drop n reqs))" "ps2 = map ?S (drop m reqs)" "m \<le> length reqs"
  proof -
    have "ps1 = take (length ps1) (map ?S (drop n reqs))" "ps2 = drop (length ps1) (map ?S (drop n reqs))" by (simp_all add: sp(1))
    then show "ps1 = map ?S (take (length ps1) (drop n reqs))" "ps2 = map ?S (drop m reqs)"
      by (simp_all add: take_map drop_map m_def add.commute)
    show "m \<le> length reqs" using arg_cong [OF sp(1), of length] a(4) by (simp add: m_def)
  qed
  have "requests_ok J answer (take (length ps1) (drop n reqs))"
    using assms(5) by (auto simp: requests_ok_def list_all_iff dest!: in_set_takeD in_set_dropD)
  from respond_all_ok [OF this] have out: "respond_all J calculate ps1 = Done (concat (map ?R (take (length ps1) (drop n reqs))))"
    by (simp only: ps(1) [symmetric])
  have oks: "list_all payload_ok ps1" "list_all payload_ok ps2" using ok by (simp_all add: sp(1))
  have rb: "request_loop J calculate b o1 = Done (b, o1)" for o1
    using sp(4) oks(2) by (auto simp: request_loop_nil intro: request_loop_partial)
  have st: "conn_state p s c (data_calls cs @ ([], RErr EAGAIN) # read_script evs) ?ss ?sent"
    using c(4) a(1) by (simp add: evs read_script_def)
  have "list_all delivers cs" "0 < fulls ?ss" using a(2,8) by (simp_all add: evs)
  from Reciver_state [OF st c(2) this(1) sp(2) oks(1) rb out a(7) this(2)] obtain s' c' ss' sent' where s': "call_reciver J calculate p s = Done s'"
    "conn_state p s' c' (read_script evs) ss' sent'" "conn_fd c' = conn_fd c" "conn_inbuffer c' = b"
    "sent' @ conn_outbuffer c' = ?sent @ conn_outbuffer c @ concat (map ?R (take (length ps1) (drop n reqs)))" "sends_ok ss'"
    "fulls ?ss \<le> Suc (fulls ss')" by blast
  have "take m reqs = take n reqs @ take (length ps1) (drop n reqs)" by (simp add: m_def take_add)
  then have "sent' @ conn_outbuffer c' = sent0 @ concat (map ?R (take m reqs))"
    using s'(5) arg_cong [OF a(6), of "\<lambda>x. x @ concat (map ?R (take (length ps1) (drop n reqs)))"] by simp
  moreover have "b @ concat (map appended (concat evs)) = concat (map (\<lambda>q. addHeader (?S q)) (drop m reqs))"
    using sp(3) by (simp add: ps(2) comp_def)
  moreover have "drop m reqs = [] \<and> b = [] \<or> (\<exists>q qs d. drop m reqs = q # qs \<and> addHeader (?S q) = b @ d \<and> d \<noteq> [])"
    using sp(4) unfolding ps(2) by auto
  ultimately have "account J answer reqs sent0 r u f (b, conn_outbuffer c') (read_script evs, ss', sent')"
    unfolding account_def prod.case using a(2,3,8) s'(6,7) ps(3) by (intro exI [of _ evs] exI [of _ m]) (simp add: evs)
  moreover have "buffers s' fd = (b, conn_outbuffer c')" "stream (sv_kern s') fd = (read_script evs, ss', sent')"
    using buffers_state [OF s'(2)] s'(3,4) c(1) by simp_all
  moreover have "touches fd p s s'"
    using s'(1) Reciver_touches [of J calculate p s s' c] c(1,2,4) by (simp add: call_reciver_def conn_state_def client_conn_def)
  moreover have "sv_ok L s'" using call_reciver_safe [where f = calculate, OF assms(1,2,4) calculate_safe] s'(1) by simp
  moreover have "sv_connections s' fd = Some p" using s'(2,3) c(1) by (simp add: conn_state_def)
  ultimately show ?thesis using s'(1) by simp
qed

lemma account_write:
  assumes "sv_ok L s" "sv_connections s fd = Some p" "fd \<noteq> L"
    and "account J answer reqs sent0 r u (Suc f) (buffers s fd) (stream (sv_kern s) fd)"
  shows "\<exists>s'. call_sender p s = Done s' \<and> sv_ok L s' \<and> touches fd p s s' \<and> sv_connections s' fd = Some p \<and>
    account J answer reqs sent0 r u f (buffers s' fd) (stream (sv_kern s') fd)"
proof -
  obtain c where c: "conn_fd c = fd" "client_conn c" "buffers s fd = (conn_inbuffer c, conn_outbuffer c)"
    "conn_state p s c (k_recvs (sv_kern s) fd) (k_sends (sv_kern s) fd) (k_sent (sv_kern s) fd)" "live L p s"
    using client_of [OF assms(1-3)] by metis
  have ok: "sends_ok (k_sends (sv_kern s) fd)" "Suc f \<le> fulls (k_sends (sv_kern s) fd)"
    using assms(4) by (auto simp: account_def stream_def c(3))
  then have "0 < fulls (k_sends (sv_kern s) fd)" by simp
  from call_sender_state [OF c(4,2) ok(1) this] obtain s' c' ss' sent' where s': "call_sender p s = Done s'"
    "conn_state p s' c' (k_recvs (sv_kern s) fd) ss' sent'" "conn_fd c' = conn_fd c" "conn_inbuffer c' = conn_inbuffer c"
    "sent' @ conn_outbuffer c' = k_sent (sv_kern s) fd @ conn_outbuffer c" "sends_ok ss'" "fulls (k_sends (sv_kern s) fd) \<le> Suc (fulls ss')"
    by blast
  have "account J answer reqs sent0 r u f (conn_inbuffer c, conn_outbuffer c') (k_recvs (sv_kern s) fd, ss', sent')"
    using assms(4) s'(5,6,7) ok(2) unfolding account_def c(3) stream_def prod.case by fastforce
  moreover have "buffers s' fd = (conn_inbuffer c, conn_outbuffer c')" "stream (sv_kern s') fd = (k_recvs (sv_kern s) fd, ss', sent')"
    using buffers_state [OF s'(2)] s'(3,4) c(1) by simp_all
  moreover have "touches fd p s s'" using call_sender_touches [OF s'(1), of c] c(1,4) by (simp add: conn_state_def)
  moreover have "sv_ok L s'" using call_sender_safe [OF assms(1) c(5)] s'(1) by simp
  moreover have "sv_connections s' fd = Some p" using s'(2,3) c(1) by (simp add: conn_state_def)
  ultimately show ?thesis using s'(1) by simp
qed

lemma touches_buffers:
  assumes "sv_ok L s" "sv_connections s fd = Some p" "touches fd p s s'" "g \<noteq> fd"
  shows "buffers s' g = buffers s g" "stream (sv_kern s') g = stream (sv_kern s) g"
proof -
  have conn: "sv_connections s' g = sv_connections s g" using assms(3,4) by (simp add: touches_def)
  show "buffers s' g = buffers s g"
  proof (cases "sv_connections s g")
    case (Some q)
    have "q \<noteq> p" using sv_ok_table [OF assms(1) Some] sv_ok_table [OF assms(1,2)] assms(4) by auto
    with assms(3) have "sv_heap s' q = sv_heap s q" by (simp add: touches_def)
    with Some conn show ?thesis by (simp add: buffers_def)
  qed (use conn in \<open>simp add: buffers_def\<close>)
  show "stream (sv_kern s') g = stream (sv_kern s) g" using assms(3,4) by (simp add: touches_def)
qed

section \<open>Events\<close>

definition readable :: "32 word \<Rightarrow> bool" where
  "readable m \<longleftrightarrow> m AND EPOLLIN \<noteq> 0 \<or> m AND EPOLLERR \<noteq> 0 \<or> m AND EPOLLHUP \<noteq> 0"

definition writable :: "32 word \<Rightarrow> bool" where
  "writable m \<longleftrightarrow> m AND EPOLLOUT \<noteq> 0 \<or> m AND EPOLLERR \<noteq> 0 \<or> m AND EPOLLHUP \<noteq> 0"

lemma event_mask_bits:
  "(m OR (EPOLLIN OR EPOLLOUT)) AND EPOLLIN \<noteq> 0" "(m OR (EPOLLIN OR EPOLLOUT)) AND EPOLLOUT \<noteq> 0"
proof -
  have "(m OR (EPOLLIN OR EPOLLOUT)) AND EPOLLIN = EPOLLIN" "(m OR (EPOLLIN OR EPOLLOUT)) AND EPOLLOUT = EPOLLOUT"
    by (auto simp: bit_eq_iff bit_and_iff bit_or_iff)
  then show "(m OR (EPOLLIN OR EPOLLOUT)) AND EPOLLIN \<noteq> 0" "(m OR (EPOLLIN OR EPOLLOUT)) AND EPOLLOUT \<noteq> 0"
    by (simp_all add: EPOLLIN_def EPOLLOUT_def)
qed

lemma dispatch_parts: "dispatch_event J f (fd, m) s =
    bind_out (if readable m \<and> ConnectionIsExists fd s then call_reciver J f (the (sv_connections s fd)) s else Done s)
      (\<lambda>s1. if writable m \<and> ConnectionIsExists fd s1 then call_sender (the (sv_connections s1 fd)) s1 else Done s1)"
  by (cases "m AND EPOLLERR \<noteq> 0 \<or> m AND EPOLLHUP \<noteq> 0")
    (simp_all only: dispatch_event_def Let_def fst_conv snd_conv readable_def writable_def event_mask_bits if_True if_False simp_thms not_False_eq_True)

definition reads_of :: "int \<Rightarrow> (int \<times> 32 word) list \<Rightarrow> nat" where
  "reads_of fd es = length (filter (\<lambda>(g, m). g = fd \<and> readable m) es)"

definition events_of :: "int \<Rightarrow> (int \<times> 32 word) list \<Rightarrow> nat" where
  "events_of fd es = length (filter (\<lambda>(g, m). g = fd) es)"

text \<open>
  The server with the events that are still to come: the accounts of all clients, and room for each \<open>accept\<close>.
  The clients in \<open>T\<close> are connected, and get just as many read events as they need.
\<close>

definition accounts :: "json_lib \<Rightarrow> (request \<Rightarrow> response) \<Rightarrow> (int \<Rightarrow> request list) \<Rightarrow> (int \<Rightarrow> string) \<Rightarrow> (int \<Rightarrow> nat) \<Rightarrow> int set \<Rightarrow> int \<Rightarrow>
    (int \<times> 32 word) list \<Rightarrow> server \<Rightarrow> bool" where
  "accounts J answer reqs sent0 most T L es s \<longleftrightarrow> sv_ok L s \<and> (\<forall>fd. k_watch (sv_kern s) fd) \<and>
     events_of L es \<le> count_list (k_accepts (sv_kern s)) (AErr EAGAIN) \<and>
     T \<subseteq> dom (sv_connections s) \<and>
     (\<forall>fd. fd \<noteq> L \<longrightarrow> account J answer (reqs fd) (sent0 fd) (reads_of fd es) (if fd \<in> T then reads_of fd es else most fd)
       (2 * events_of fd es) (buffers s fd) (stream (sv_kern s) fd))"

lemma counts_Cons:
  "events_of g ((fd, m) # es) = (if g = fd then Suc (events_of g es) else events_of g es)"
  "reads_of g ((fd, m) # es) = (if g = fd \<and> readable m then Suc (reads_of g es) else reads_of g es)"
  by (auto simp: events_of_def reads_of_def)

text \<open>One half of an event: what it leaves alone, and the account of its client.\<close>

definition half_done :: "int \<Rightarrow> int \<Rightarrow> (string \<times> string \<Rightarrow> stream \<Rightarrow> bool) \<Rightarrow> server \<Rightarrow> server \<Rightarrow> bool" where
  "half_done L fd P s s' \<longleftrightarrow> sv_ok L s' \<and> k_accepts (sv_kern s') = k_accepts (sv_kern s) \<and> k_watch (sv_kern s') = k_watch (sv_kern s) \<and>
     dom (sv_connections s) \<subseteq> dom (sv_connections s') \<and> (\<forall>g. g \<noteq> fd \<longrightarrow> buffers s' g = buffers s g \<and> stream (sv_kern s') g = stream (sv_kern s) g) \<and>
     P (buffers s' fd) (stream (sv_kern s') fd)"

lemma half_done_touches:
  assumes "sv_ok L s" "sv_connections s fd = Some p" "sv_ok L s' \<and> touches fd p s s' \<and> sv_connections s' fd = Some p \<and> P (buffers s' fd) (stream (sv_kern s') fd)"
  shows "half_done L fd P s s'"
proof -
  have "g \<in> dom (sv_connections s')" if "g \<in> dom (sv_connections s)" for g
    using that assms(3) by (cases "g = fd") (auto simp: touches_def)
  then show ?thesis using assms(3) touches_buffers [OF assms(1,2), of s'] by (auto simp: half_done_def touches_def)
qed

lemma dispatch_client:
  assumes "accounts J answer reqs sent0 most T L ((fd, m) # es) s" "fd \<noteq> L" "json_safe J" "requests_ok J answer (reqs fd)"
  shows "\<exists>s'. dispatch_event J calculate (fd, m) s = Done s' \<and> accounts J answer reqs sent0 most T L es s'"
proof -
  let ?u = "\<lambda>g es. if g \<in> T then reads_of g es else most g"
  let ?A = "\<lambda>f. account J answer (reqs fd) (sent0 fd) (reads_of fd es) (?u fd es) f"
  have ok: "sv_ok L s" and acc: "account J answer (reqs fd) (sent0 fd) (reads_of fd ((fd, m) # es)) (?u fd ((fd, m) # es)) (2 * events_of fd ((fd, m) # es)) (buffers s fd) (stream (sv_kern s) fd)"
    and tab: "T \<subseteq> dom (sv_connections s)"
    using assms(1,2) by (simp_all add: accounts_def)
  have "\<exists>s1. (if readable m \<and> ConnectionIsExists fd s then call_reciver J calculate (the (sv_connections s fd)) s else Done s) = Done s1 \<and>
      half_done L fd (?A (Suc (2 * events_of fd es))) s s1"
  proof (cases "readable m \<and> ConnectionIsExists fd s")
    case True
    then obtain p where p: "sv_connections s fd = Some p" by (auto simp: ConnectionIsExists_def)
    have "account J answer (reqs fd) (sent0 fd) (Suc (reads_of fd es)) (Suc (?u fd es)) (Suc (Suc (2 * events_of fd es))) (buffers s fd) (stream (sv_kern s) fd)"
      by (rule account_less [OF acc]) (use True in \<open>simp_all add: counts_Cons\<close>)
    from account_read [OF ok p assms(2-4) this] half_done_touches [OF ok p] True p show ?thesis by fastforce
  next
    case False
    have "?A (Suc (2 * events_of fd es)) (buffers s fd) (stream (sv_kern s) fd)"
      by (rule account_less [OF acc]) (use False tab in \<open>auto simp: counts_Cons ConnectionIsExists_def\<close>)
    with False ok show ?thesis by (auto simp: half_done_def)
  qed
  then obtain s1 where s1: "(if readable m \<and> ConnectionIsExists fd s then call_reciver J calculate (the (sv_connections s fd)) s else Done s) = Done s1"
    "half_done L fd (?A (Suc (2 * events_of fd es))) s s1" by blast
  then have ok1: "sv_ok L s1" and acc1: "?A (Suc (2 * events_of fd es)) (buffers s1 fd) (stream (sv_kern s1) fd)" by (simp_all add: half_done_def)
  have "\<exists>s2. (if writable m \<and> ConnectionIsExists fd s1 then call_sender (the (sv_connections s1 fd)) s1 else Done s1) = Done s2 \<and>
      half_done L fd (?A (2 * events_of fd es)) s1 s2"
  proof (cases "writable m \<and> ConnectionIsExists fd s1")
    case True
    then obtain p where p: "sv_connections s1 fd = Some p" by (auto simp: ConnectionIsExists_def)
    from account_write [OF ok1 p assms(2) acc1] half_done_touches [OF ok1 p] True p show ?thesis by fastforce
  next
    case False
    have "?A (2 * events_of fd es) (buffers s1 fd) (stream (sv_kern s1) fd)" by (rule account_less [OF acc1]) simp_all
    with False ok1 show ?thesis by (auto simp: half_done_def)
  qed
  then obtain s2 where s2: "(if writable m \<and> ConnectionIsExists fd s1 then call_sender (the (sv_connections s1 fd)) s1 else Done s1) = Done s2"
    "half_done L fd (?A (2 * events_of fd es)) s1 s2" by blast
  have "dispatch_event J calculate (fd, m) s = Done s2" unfolding dispatch_parts s1(1) using s2(1) by simp
  moreover have "accounts J answer reqs sent0 most T L es s2"
    unfolding accounts_def
  proof (intro conjI allI impI)
    show "sv_ok L s2" using s2(2) by (simp add: half_done_def)
    show "k_watch (sv_kern s2) g" for g using assms(1) s1(2) s2(2) by (simp add: accounts_def half_done_def)
    show "events_of L es \<le> count_list (k_accepts (sv_kern s2)) (AErr EAGAIN)"
      using assms(1,2) s1(2) s2(2) by (simp add: accounts_def half_done_def counts_Cons)
    show "T \<subseteq> dom (sv_connections s2)" using tab s1(2) s2(2) unfolding half_done_def by blast
    fix g assume g: "g \<noteq> L"
    show "account J answer (reqs g) (sent0 g) (reads_of g es) (?u g es) (2 * events_of g es) (buffers s2 g) (stream (sv_kern s2) g)"
    proof (cases "g = fd")
      case False
      then have "buffers s2 g = buffers s g" "stream (sv_kern s2) g = stream (sv_kern s) g"
        using s1(2) s2(2) by (simp_all add: half_done_def)
      moreover have "account J answer (reqs g) (sent0 g) (reads_of g ((fd, m) # es)) (?u g ((fd, m) # es)) (2 * events_of g ((fd, m) # es)) (buffers s g) (stream (sv_kern s) g)"
        using assms(1) g by (simp add: accounts_def)
      ultimately show ?thesis using False by (simp add: counts_Cons cong: if_cong)
    qed (use s2(2) in \<open>simp add: half_done_def cong: if_cong\<close>)
  qed
  ultimately show ?thesis by blast
qed

lemma dispatch_listen:
  assumes "accounts J answer reqs sent0 most T L ((L, m) # es) s" "listen_event_ok L (L, m)"
  shows "\<exists>s'. dispatch_event J calculate (L, m) s = Done s' \<and> accounts J answer reqs sent0 most T L es s'"
proof -
  have ok: "sv_ok L s" and w: "\<forall>fd. k_watch (sv_kern s) fd" and n: "Suc (events_of L es) \<le> count_list (k_accepts (sv_kern s)) (AErr EAGAIN)"
    and tab: "T \<subseteq> dom (sv_connections s)"
    and acc: "\<And>fd. fd \<noteq> L \<Longrightarrow> account J answer (reqs fd) (sent0 fd) (reads_of fd es) (if fd \<in> T then reads_of fd es else most fd) (2 * events_of fd es) (buffers s fd) (stream (sv_kern s) fd)"
    using assms(1) by (simp_all add: accounts_def counts_Cons cong: if_cong)
  have out: "\<not> writable m" using assms(2) by (simp add: writable_def listen_event_ok_def)
  have "L \<in> dom (sv_connections s)" using ok by (simp add: sv_ok_def)
  then obtain p where p: "sv_connections s L = Some p" by blast
  from sv_ok_table [OF ok p] obtain c where c: "sv_heap s p = Some c" "conn_fd c = L" by blast
  with sv_ok_heap [OF ok c(1)] have r: "conn_reciver c = OnAccept" by (simp add: conn_ok_def)
  show ?thesis
  proof (cases "readable m")
    case True
    have "AErr EAGAIN \<in> set (k_accepts (sv_kern s))" using n by (metis count_notin less_eq_Suc_le not_less_zero)
    then obtain rs rest where rs: "k_accepts (sv_kern s) = rs @ AErr EAGAIN # rest" "AErr EAGAIN \<notin> set rs"
      by (meson split_list_first)
    from Accepter_drains [OF ok c(1) w rs] obtain s' where s': "Accepter p s = Done s'" "sv_ok L s'" "k_accepts (sv_kern s') = rest" "untouched s s'"
      "dom (sv_connections s) \<subseteq> dom (sv_connections s')" by blast
    have "dispatch_event J calculate (L, m) s = Done s'"
      using True out p c(1) r s'(1) by (simp add: dispatch_parts ConnectionIsExists_def call_reciver_def)
    moreover have "events_of L es \<le> count_list rest (AErr EAGAIN)" using n rs by (simp add: count_list_append)
    moreover have "T \<subseteq> dom (sv_connections s')" using tab s'(5) by blast
    ultimately show ?thesis using s'(2-4) acc w by (simp add: accounts_def untouched_def cong: if_cong)
  next
    case False
    with out have "dispatch_event J calculate (L, m) s = Done s" by (simp add: dispatch_parts)
    with ok w n acc tab show ?thesis by (simp add: accounts_def cong: if_cong)
  qed
qed

lemma LoopOnce_accounts:
  assumes "accounts J answer reqs sent0 most T L (es @ fs) s" "json_safe J" "\<And>fd. requests_ok J answer (reqs fd)"
    and "\<forall>e \<in> set es. listen_event_ok L e"
  shows "\<exists>s'. LoopOnce J calculate es s = Done s' \<and> accounts J answer reqs sent0 most T L fs s'"
  using assms(1,4)
proof (induction es arbitrary: s)
  case (Cons e es)
  obtain fd m where e: "e = (fd, m)" by (cases e)
  have "\<exists>s1. dispatch_event J calculate e s = Done s1 \<and> accounts J answer reqs sent0 most T L (es @ fs) s1"
    using dispatch_client [of J answer reqs sent0 most T L fd m "es @ fs" s] dispatch_listen [of J answer reqs sent0 most T L m "es @ fs" s] Cons.prems assms(2,3)
    by (cases "fd = L") (simp_all add: e)
  then obtain s1 where "dispatch_event J calculate e s = Done s1" "accounts J answer reqs sent0 most T L (es @ fs) s1" by blast
  with Cons.IH [of s1] Cons.prems(2) show ?case by simp
qed simp

lemma Dispatcher_flat: "Dispatcher J f rounds s = LoopOnce J f (concat rounds) s"
proof -
  have app: "LoopOnce J f (es @ fs) = (\<lambda>s. bind_out (LoopOnce J f es s) (LoopOnce J f fs))" for es fs
    by (induction es) (simp, rule ext, simp add: bind_out_assoc)
  have "Dispatcher J f rounds = LoopOnce J f (concat rounds)" by (induction rounds) (rule ext, simp, rule ext, simp add: app)
  then show ?thesis by simp
qed

text \<open>
  \<open>scripts_ok\<close>: what the kernel will deliver to each client's connection, and the calls of \<open>send\<close> it provides
  for: the requests, framed, in any chunks, and enough for the read events \<open>es\<close> that will come.
\<close>

definition scripts_ok :: "json_lib \<Rightarrow> (int \<Rightarrow> request list) \<Rightarrow> (int \<Rightarrow> (string \<times> string) list list) \<Rightarrow> int \<Rightarrow>
    (int \<times> 32 word) list \<Rightarrow> kernel \<Rightarrow> bool" where
  "scripts_ok J reqs evs L es k \<longleftrightarrow> (\<forall>fd. fd \<noteq> L \<longrightarrow>
     k_recvs k fd = read_script (evs fd) \<and> list_all (list_all delivers) (evs fd) \<and>
     concat (map appended (concat (evs fd))) = concat (map (\<lambda>r. addHeader (Request_serialize J r)) (reqs fd)) \<and>
     reads_of fd es \<le> length (evs fd) \<and> sends_ok (k_sends k fd) \<and> 2 * events_of fd es \<le> fulls (k_sends k fd))"

lemma account_start:
  assumes "scripts_ok J reqs evs L es k" "fd \<noteq> L"
  shows "account J answer (reqs fd) (k_sent k fd) (reads_of fd es) (length (evs fd)) (2 * events_of fd es) ([], []) (stream k fd)"
proof -
  have "addHeader x \<noteq> []" for x by (simp add: addHeader_def HEAD_SEP_def)
  then have "reqs fd = [] \<or> (\<exists>q qs d. reqs fd = q # qs \<and> addHeader (Request_serialize J q) = d \<and> d \<noteq> [])"
    by (cases "reqs fd") auto
  with assms show ?thesis
    unfolding account_def stream_def prod.case scripts_ok_def
    by (intro exI [of _ "evs fd"] exI [of _ 0]) simp
qed

lemma account_end:
  assumes "account J answer reqs sent0 r u f (inb, outb) (recvs, sends, sent)"
  shows "\<exists>n \<le> length reqs. sent @ outb = sent0 @ concat (map (\<lambda>r. addHeader (Response_serialize J (answer r))) (take n reqs)) \<and>
    (u = 0 \<longrightarrow> n = length reqs \<and> inb = [])"
proof -
  from assms obtain es n where n: "length es \<le> u" "n \<le> length reqs"
    "inb @ concat (map appended (concat es)) = concat (map (\<lambda>q. addHeader (Request_serialize J q)) (drop n reqs))"
    "drop n reqs = [] \<and> inb = [] \<or> (\<exists>q qs d. drop n reqs = q # qs \<and> addHeader (Request_serialize J q) = inb @ d \<and> d \<noteq> [])"
    "sent @ outb = sent0 @ concat (map (\<lambda>q. addHeader (Response_serialize J (answer q))) (take n reqs))"
    unfolding account_def prod.case by blast
  have "drop n reqs = [] \<and> inb = []" if "u = 0"
  proof -
    have "es = []" using that n(1) by simp
    with n(3) have inb: "concat (map (\<lambda>q. addHeader (Request_serialize J q)) (drop n reqs)) = inb" by simp
    have False if q: "drop n reqs = q # qs" "addHeader (Request_serialize J q) = inb @ d" "d \<noteq> []" for q qs d
    proof -
      have "length (addHeader (Request_serialize J q)) \<le> length inb"
        using inb by (metis q(1) list.simps(9) concat.simps(2) length_append le_add1)
      with q(2,3) show False by simp
    qed
    with n(4) show ?thesis by blast
  qed
  with n(2) have "u = 0 \<longrightarrow> n = length reqs \<and> inb = []" by simp
  with n(2,5) show ?thesis by blast
qed


definition two_clients :: "int \<Rightarrow> (string \<times> string) list list" where
  "two_clients fd = (if fd = 5 then [[([NUL, NUL, NUL, NUL, NUL], ''13'')], [(replicate 32 NUL, drop 2 (addHeader ''x:7 y:5 op:43''))]]
     else if fd = 6 then [[(replicate 32 NUL, addHeader ''x:7 y:5 op:43'')]] else [])"

definition two_kernel :: kernel where
  "two_kernel = boot_kernel\<lparr>k_accepts := [AOk ''10.0.0.1'' 4000, AOk ''10.0.0.2'' 4001, AErr EAGAIN],
     k_recvs := (\<lambda>fd. read_script (two_clients fd)), k_sends := (\<lambda>_. SRet 3 EAGAIN # replicate 4 (SRet (- 1) EAGAIN))\<rparr>"

lemma two_connected:
  "case bind_out (Init_Server 8888 two_kernel) (Dispatcher words_json calculate [[(3, EPOLLIN)]]) of
     Done s1 \<Rightarrow> sv_connections s1 5 \<noteq> None \<and> sv_connections s1 6 \<noteq> None | _ \<Rightarrow> False"
  by code_simp


end
