(* ===== verification/Spec2Isabelle.thy ===== *)
theory Spec2Isabelle
  imports EpollProps CalProps HttpProps EpollServer1 RingQueue BlockQueue ThreadPool CtrlProps
    Tcp UdpEcho Tickets Fifo SharedMemory Signals Drivers PoolServer PoolThreads PoolDriver CtrlPool25
    Processes SignalLessons ThreadLessons InputLessons Programs Exercises
    TcpThreads CalThreads HttpThreads EpollMany
begin

text \<open>
  The repository is a course in Linux programming: small C++ programs, one directory per lesson,
  from pipes and process pools over threads, mutexes and queues to network servers of growing
  ambition, the last of which is an epoll reactor that serves a calculator. This development models
  the programs with state and logic of their own and shows what each of them does, on every input
  and every answer of the operating system, including where it goes wrong.

  \<^bold>\<open>How the programs are modelled.\<close> A C++ call is a function that returns an \<open>outcome\<close> (theory
  Prelude): \<open>Done\<close> with its result and the new state, \<open>Crash\<close> with a fault (an exception nobody
  catches, an access outside an array, overflow of \<open>int\<close>, \<open>exit\<close>), or \<open>Blocked\<close> when a system call
  waits or the script of the environment is used up. Loops over a container are \<open>for_each\<close> or
  recursion; loops of which it is not known that they end are \<open>partial_function (option)\<close>, and that
  they end is then a theorem. Theory CppString has \<open>std::string\<close>: \<open>find\<close>, \<open>rfind\<close>, \<open>substr\<close>,
  \<open>erase\<close>, \<open>to_string\<close>, \<open>atoi\<close>, with 64-bit positions that wrap around as in C++. Theory Kernel has
  the part of Linux the servers use: descriptors (the lowest free number is given out), listening
  and watched sockets, and what \<open>accept\<close>, \<open>recv\<close> and \<open>send\<close> answer, as arbitrary lists, so that a
  theorem about all kernels is one about all behaviours of clients and system. A receive comes with
  the old contents of the array it fills, since several programs show them. Threads and processes
  are inductive step relations with one step per statement; mutexes, semaphores, condition variables
  (with spurious wake-ups and any choice of the thread woken), \<open>fork\<close>, \<open>waitpid\<close> and pipes behave as
  POSIX has them. Histories of what was sent, pushed or run are added to the states; the code never
  reads them.

  \<^bold>\<open>Interfaces.\<close> Theory Framing states as locale \<open>framing\<close> what the length-prefixed framing promises
  its users, and theory Protocol interprets it with the functions of \<open>protocol.hpp\<close>; the
  calculators of 7.20 and 8.11 rest on its facts. Theory Channel has the locales \<open>channel\<close> and
  \<open>bounded_channel\<close>, the contract of a queue between threads, interpreted by the ring queue, the
  blocking queue and the thread pool; \<open>fed_channel\<close> is for programs that put only certain values into
  a channel and is interpreted by the drivers of the ring queue, the blocking queue and the pool. Theory SlotTable has \<open>slot_table\<close>, a table of descriptors with
  free slots, interpreted by both select servers and the poll server. Theory Steps has
  \<open>measured_steps\<close>, a step relation whose steps make a weight smaller, for the programs of which every run
  ends; it is interpreted by the ticket sellers, the process pool, the program that reaps its children and the
  thread lessons. Theory ConnThreads has \<open>connection_threads\<close>, what a server must keep to whose threads
  each work on a descriptor of their own, and shows for every interleaving that the descriptors are
  accounted for, that a descriptor's history is one of threads working alone, and (through
  \<open>measured_steps\<close>) that every run ends; \<open>threaded_server\<close> is the accepting loop with
  \<open>pthread_create\<close>, shown to be such a server, and is interpreted by the servers of 7.18, 7.20, 7.22 and 7.29.

  \<^bold>\<open>Theories and sources.\<close>

  \<^item> Protocol: \<open>8.11/epollServer.2/protocol.hpp\<close>, \<open>7.20/netCalculator/protocol.hpp\<close>, \<open>utility.hpp\<close> and
    \<open>functionSet.hpp\<close>: framing, both forms of requests and responses, splitting. jsoncpp is a
    parameter with the law that it reads back what it wrote. Round trips, conservation, termination.
  \<^item> Calculator: \<open>7.20 server.cc\<close>, \<open>8.11 main.cc\<close>, \<open>task.hpp\<close>: the arithmetic, its faults, and that
    the three forms agree.
  \<^item> Socket: \<open>socket.hpp\<close>, \<open>epoll.hpp\<close>, \<open>error.hpp\<close> over Kernel.
  \<^item> EpollServer2, EpollSafety, EpollService, EpollProps: \<open>8.11/epollServer.2/epollServer.hpp\<close>, the
    reactor: connections on a heap, the table, the handlers, the event loop; the safety invariant
    from \<open>Init_Server\<close> on; each handler on all answers; the service of a whole connection. EpollMany:
    a handler touches one connection only, so that the reactor serves any number of clients.
  \<^item> CalServer, CalProps: \<open>7.20/netCalculator\<close>: the threaded calculator, the formula parser and the
    rounds of the client.
  \<^item> Http, HttpProps: \<open>7.22/httpServer-0\<close>, \<open>7.22/httpServer\<close>, \<open>7.29/httpServer\<close>: request parser, files
    and redirections, the service of a connection in three versions.
  \<^item> SelectServer, SelectProps: \<open>8.6/selectServer.1\<close> and \<open>.2\<close>; PollServer: \<open>8.7/pollServer\<close>;
    EpollServer1: \<open>8.7/epollServer.1\<close>: invariants of the tables, what ends the servers, and that the
    second select server implements the first.
  \<^item> Tcp: \<open>7.18/tcp_socket\<close> and \<open>7.19/tcp_socket\<close>; Udp and UdpEcho: \<open>7.16/udp_socket\<close>, \<open>7.17/udp_socket\<close>;
    Chat: \<open>7.17/v2_udp_socket_\<close>: the echo and chat servers with their clients, and client and
    server together.
  \<^item> ConnThreads with TcpThreads, CalThreads, HttpThreads: the servers of \<open>7.18\<close>, \<open>7.20\<close>, \<open>7.22\<close> and
    \<open>7.29\<close> as wholes, all threads at once: what every client gets, when threads are stuck, which
    descriptors are never given back; and that the services of Tcp, CalServer and Http are the runs of
    one thread alone.
  \<^item> RingQueue: \<open>7.9/sem/RingQueue.hpp\<close>; BlockQueue: \<open>7.3/blockingQueue/blockQueue.hpp\<close>; ThreadPool:
    \<open>7.10/threadPool/thread_pool.hpp\<close>: order, conservation, capacity, mutual exclusion, and that
    nobody is left waiting. Drivers: \<open>7.3/blockingQueue/cp.cc\<close> and \<open>7.9/sem/main.cc\<close>, producers and
    consumers of tasks around the two queues; PoolDriver: \<open>7.10/threadPool/main.cc\<close>, the main thread
    that feeds the pool.
  \<^item> Log: \<open>log.hpp\<close>, the line that \<open>logMessage\<close> writes and how a log can be read back. PoolServer:
    \<open>7.19/tcp_socket/tcp_server.hpp\<close> as a whole, the main thread that accepts, the pool of ThreadPool
    with twenty workers and the service of Tcp with what it logs: what all clients get, that no
    descriptor leaks, and that silent clients stop it. PoolThreads: \<open>7.19/tcp_socket/Thread.hpp\<close> and
    the parts of \<open>thread_pool.hpp\<close> that create, start and join the threads.
  \<^item> Tickets: \<open>6.29\<close>, the ticket sellers with plain calls and with the classes \<open>Thread\<close> and
    \<open>LockGuard\<close>: what is sold, that every run ends, that the second program implements the first.
  \<^item> CtrlProc, CtrlProps: \<open>5.26/CtrlProc\<close>, the process pool that ends by itself; CtrlPool25:
    \<open>5.25/CtrlProc\<close>, the first version, whose parent never stops.
  \<^item> Processes: \<open>6.18/waithandler\<close>, reaping children in a signal handler and not at all;
    \<open>6.11/Core\<close> and \<open>6.9/mykill\<close>, the wait status and \<open>kill\<close>. Signals: \<open>6.15\<close>, blocked and pending
    signals; SignalLessons: \<open>6.11/sigfunc\<close> and \<open>6.9/signal\<close>.
  \<^item> Fifo: \<open>5.26/namepipe\<close>, clients and servers over a named pipe. SharedMemory: \<open>6.6\<close>, System V
    segments with permissions.

  \<^item> Programs: the \<open>main\<close> functions of the web server, the TCP, UDP and chat programs, the calculator's
    client and the named pipe programs: what they make of their arguments and how they fail.
  \<^item> ThreadLessons: \<open>6.28\<close>, \<open>6.26/multiPthread\<close> and \<open>7.3/mythread\<close>: joining, detaching, waking all.
    InputLessons: \<open>8.6/NonBlock\<close> and \<open>5.25/pipe\<close>: arrays that are printed as they were read.
    Exercises: \<open>exercise\<close>, \<open>5.13\<close>, \<open>5.14\<close> and \<open>MySQL\<close>.

  Examples holds the concrete kernels and messages that the witnesses share.

  \<^bold>\<open>Bounds.\<close> No fuel is used. Every total loop has a measure: the calls left in the script of the
  kernel, the text left, or the weight of a state of the step relation; the run of the ticket sellers
  is bounded by 6026 steps in this way, that of the program that reaps its children by 110. The other loops return \<open>None\<close> where they go on forever, which
  the theorems on \<open>splitstrings\<close>, \<open>splitFormula\<close>, \<open>Desarialize\<close> and the HTTP connections characterise.
  \<open>int\<close> is \<open>int\<close> with its overflow as a fault and conversions written out; event masks, permission
  bits and flags are words.

  \<^bold>\<open>Not modelled.\<close> Output to the terminal except where it is the point of a program, and usage
  messages. \<open>daemon.hpp\<close>, which does not compile and is included nowhere. The second version of the
  pool and its driver in \<open>7.9/threadPool\<close>, which does not compile either. \<open>6.9/mykill/proc.cc\<close>, a loop that
  prints its process id. Destructors of queues, which may run only when no thread uses the object any
  more. Files that are copies of one that is modelled: the four \<open>task.hpp\<close>, the later \<open>socket.hpp\<close> and
  \<open>log.hpp\<close>, \<open>Thread.hpp\<close> of 7.9 and 7.10, \<open>thread_pool.hpp\<close> of 7.19, \<open>RingQueue.hpp\<close> of 7.17. The arithmetic of
  \<open>double\<close>, jsoncpp, the shell, the file system and the MySQL client are parameters. Web pages, images, notes
  and editor settings.
\<close>

end
